(* ===== verification/Prelude.thy ===== *)
theory Prelude
  imports "HOL-Library.Word" "HOL-Library.Sublist"
begin

unbundle bit_operations_syntax

text \<open>
  The shared vocabulary of the development. It holds
  \<^item> the machine integers of the program as words of their width, and byte strings;
  \<^item> the parts of Rust's standard library the program uses on them: \<open>Result\<close> with the
    question-mark operator (\<open>and_then\<close>, \<open>ok_or\<close>), checked and saturating arithmetic, the
    little-endian conversions \<open>to_le_bytes\<close> and \<open>from_le_bytes\<close>, and reading and overwriting a
    range of a byte buffer;
  \<^item> two interfaces as locales: a fixed-width field codec, and a transition system with an
    invariant (with the induction over its reachable states done once);
  \<^item> the generic lemmas on lists, words and results the component proofs share.
  A Rust \<open>Result\<close> is a sum with the error on the left. A \<open>usize\<close> that is the length of a buffer is
  a natural number: a buffer is always shorter than \<open>2 ^ 63\<close>, so such lengths never wrap.
\<close>

section \<open>Machine integers and byte strings\<close>

type_synonym u8 = "8 word"
type_synonym u16 = "16 word"
type_synonym u32 = "32 word"
type_synonym u64 = "64 word"
type_synonym u128 = "128 word"
type_synonym bytes = "u8 list"

named_theorems codec_simps \<open>round trips of fields, readers and writers\<close>
named_theorems result_simps \<open>how a Result computation succeeds or fails\<close>

definition checked_add :: "'a::len word \<Rightarrow> 'a word \<Rightarrow> 'a word option" where
  "checked_add a b = (if unat a + unat b < 2 ^ LENGTH('a) then Some (a + b) else None)"

definition saturating_add :: "'a::len word \<Rightarrow> 'a word \<Rightarrow> 'a word" where
  "saturating_add a b = (if unat a + unat b < 2 ^ LENGTH('a) then a + b else - 1)"

definition saturating_sub :: "'a::len word \<Rightarrow> 'a word \<Rightarrow> 'a word" where
  "saturating_sub a b = (if b \<le> a then a - b else 0)"

text \<open>\<open>u32::try_from\<close> and its kin: the value in a narrower type, if it fits.\<close>

definition try_from :: "'a::len word \<Rightarrow> 'b::len word option" where
  "try_from w = (if unat w < 2 ^ LENGTH('b) then Some (ucast w) else None)"

lemma try_from_ucast [codec_simps]:
  "LENGTH('b) \<le> LENGTH('a) \<Longrightarrow> try_from (ucast w :: 'a::len word) = Some (w :: 'b::len word)"
proof -
  assume le: "LENGTH('b) \<le> LENGTH('a)"
  have small: "unat w < 2 ^ LENGTH('b)"
    by (rule unsigned_less)
  also have "(2::nat) ^ LENGTH('b) \<le> 2 ^ LENGTH('a)"
    using le by (rule power_increasing) simp
  finally have "unat (ucast w :: 'a word) = unat w"
    by (simp add: unsigned_ucast_eq take_bit_nat_eq_self)
  moreover have "ucast (ucast w :: 'a word) = w"
    using le by (intro bit_word_eqI) (auto simp: bit_simps)
  ultimately show ?thesis
    using small by (simp add: try_from_def)
qed

lemma try_from_Some:
  "try_from (w :: 'a::len word) = Some (v :: 'b::len word) \<Longrightarrow> ucast v = w"
proof -
  assume "try_from w = Some v"
  then have small: "unat w < 2 ^ LENGTH('b)" and v: "v = ucast w"
    by (auto simp: try_from_def split: if_splits)
  have "unat v = unat w"
    using small by (simp add: v unsigned_ucast_eq take_bit_nat_eq_self)
  then show "ucast v = w"
    by (metis of_nat_unat ucast_id)
qed

lemma checked_add_Some:
  "checked_add a b = Some c \<longleftrightarrow> c = a + b \<and> unat c = unat a + unat b"
  for a b c :: "'a::len word"
  by (auto simp: checked_add_def unat_word_ariths not_less)
     (metis mod_less_divisor not_less zero_less_numeral zero_less_power)

lemma checked_add_None:
  "checked_add a b = None \<longleftrightarrow> 2 ^ LENGTH('a) \<le> unat a + unat b"
  for a b :: "'a::len word"
  by (simp add: checked_add_def)

lemma unat_saturating_add:
  "unat (saturating_add a b) = min (unat a + unat b) (2 ^ LENGTH('a) - 1)"
  for a b :: "'a::len word"
  by (auto simp: saturating_add_def unat_word_ariths unsigned_minus_1_eq_mask mask_eq_exp_minus_1)

lemma unat_saturating_sub:
  "unat (saturating_sub a b) = unat a - unat b"
  by (auto simp: saturating_sub_def unat_sub word_le_nat_alt)

section \<open>Results\<close>

definition and_then :: "'e + 'a \<Rightarrow> ('a \<Rightarrow> 'e + 'b) \<Rightarrow> 'e + 'b" where
  "and_then r f = (case r of Inl e \<Rightarrow> Inl e | Inr x \<Rightarrow> f x)"

definition ok_or :: "'e \<Rightarrow> 'a option \<Rightarrow> 'e + 'a" where
  "ok_or e x = (case x of None \<Rightarrow> Inl e | Some y \<Rightarrow> Inr y)"

lemma and_then_simps [simp]:
  "and_then (Inl e) f = Inl e"
  "and_then (Inr x) f = f x"
  by (simp_all add: and_then_def)

lemma ok_or_simps [simp]:
  "ok_or e None = Inl e"
  "ok_or e (Some x) = Inr x"
  by (simp_all add: ok_or_def)

lemma and_then_Inr [result_simps]:
  "and_then r f = Inr y \<longleftrightarrow> (\<exists>x. r = Inr x \<and> f x = Inr y)"
  by (cases r) auto

lemma ok_or_Inr [result_simps]: "ok_or e x = Inr y \<longleftrightarrow> x = Some y"
  by (cases x) auto

lemma ok_or_Inl [result_simps]: "ok_or e x = Inl e' \<longleftrightarrow> x = None \<and> e' = e"
  by (cases x) auto

section \<open>Little-endian fields\<close>

fun to_le_bytes :: "nat \<Rightarrow> 'a::len word \<Rightarrow> bytes" where
  "to_le_bytes 0 w = []"
| "to_le_bytes (Suc n) w = ucast w # to_le_bytes n (drop_bit 8 w)"

fun from_le_bytes :: "bytes \<Rightarrow> 'a::len word" where
  "from_le_bytes [] = 0"
| "from_le_bytes (b # bs) = ucast b OR push_bit 8 (from_le_bytes bs)"

lemma length_to_le_bytes [simp]: "length (to_le_bytes n w) = n"
  by (induction n arbitrary: w) auto

lemma from_le_to_le_take_bit: "from_le_bytes (to_le_bytes n w) = take_bit (8 * n) w"
  for w :: "'a::len word"
proof (induction n arbitrary: w)
  case 0
  then show ?case by simp
next
  case (Suc n)
  show ?case
    by (rule bit_word_eqI)
       (auto simp: Suc bit_simps)
qed

lemma from_le_to_le:
  "LENGTH('a) \<le> 8 * n \<Longrightarrow> from_le_bytes (to_le_bytes n w) = w" for w :: "'a::len word"
  by (simp add: from_le_to_le_take_bit take_bit_word_eq_self)

lemma bit_from_le_bytes: "bit (from_le_bytes bs :: 'a::len word) i \<Longrightarrow> i < 8 * length bs"
proof (induction bs arbitrary: i)
  case Nil
  then show ?case by simp
next
  case (Cons b bs)
  then have "i < 8 \<or> i - 8 < 8 * length bs"
    by (auto simp: bit_simps dest: bit_imp_le_length)
  then show ?case by auto
qed

lemma to_le_from_le:
  "8 * length bs \<le> LENGTH('a) \<Longrightarrow> to_le_bytes (length bs) (from_le_bytes bs :: 'a::len word) = bs"
proof (induction bs)
  case Nil
  then show ?case by simp
next
  case (Cons b bs)
  have head: "ucast (ucast b OR push_bit 8 (from_le_bytes bs) :: 'a word) = b"
    using Cons.prems by (intro bit_word_eqI) (auto simp: bit_simps)
  have tail: "drop_bit 8 (ucast b OR push_bit 8 (from_le_bytes bs) :: 'a word) = from_le_bytes bs"
    using Cons.prems
    by (intro bit_word_eqI) (auto simp: bit_simps dest: bit_imp_le_length bit_from_le_bytes)
  show ?case
    using Cons by (simp only: length_Cons from_le_bytes.simps to_le_bytes.simps head tail) simp
qed

text \<open>Evaluating fields of a concrete width by the simplifier.\<close>

lemma to_le_bytes_numeral:
  "to_le_bytes (numeral k) w = ucast w # to_le_bytes (pred_numeral k) (drop_bit 8 w)"
  by (simp add: numeral_eq_Suc)

lemmas le_bytes_eval = to_le_bytes_numeral Let_def

section \<open>Ranges of a buffer\<close>

text \<open>
  \<open>bslice at n buf\<close> is the Rust range \<open>buf[at..at + n]\<close>, and \<open>put_at at bs buf\<close> is
  \<open>buf[at..at + bs.len()].copy_from_slice(bs)\<close>. Both are only used with the range inside the
  buffer, where Rust would otherwise panic.
\<close>

definition bslice :: "nat \<Rightarrow> nat \<Rightarrow> 'a list \<Rightarrow> 'a list" where
  "bslice at n buf = take n (drop at buf)"

definition put_at :: "nat \<Rightarrow> 'a list \<Rightarrow> 'a list \<Rightarrow> 'a list" where
  "put_at at bs buf = take at buf @ bs @ drop (at + length bs) buf"

lemma length_bslice [simp]: "length (bslice at n buf) = min n (length buf - at)"
  by (simp add: bslice_def)

lemma length_put_at [simp]:
  "at + length bs \<le> length buf \<Longrightarrow> length (put_at at bs buf) = length buf"
  by (simp add: put_at_def)

lemma nth_put_at:
  "at + length bs \<le> length buf \<Longrightarrow> i < length buf \<Longrightarrow>
   put_at at bs buf ! i = (if at \<le> i \<and> i < at + length bs then bs ! (i - at) else buf ! i)"
  by (auto simp: put_at_def nth_append min_def)

lemma nth_bslice: "i < n \<Longrightarrow> at + i < length buf \<Longrightarrow> bslice at n buf ! i = buf ! (at + i)"
  by (simp add: bslice_def)

lemma bslice_put_at_same [codec_simps]:
  "at + length bs \<le> length buf \<Longrightarrow> n = length bs \<Longrightarrow> bslice at n (put_at at bs buf) = bs"
  by (simp add: bslice_def put_at_def)

lemma bslice_put_at_before [codec_simps]:
  "i + n \<le> at \<Longrightarrow> at + length bs \<le> length buf \<Longrightarrow> bslice i n (put_at at bs buf) = bslice i n buf"
  by (rule nth_equalityI) (auto simp: nth_bslice nth_put_at)

lemma bslice_put_at_after [codec_simps]:
  "at + length bs \<le> i \<Longrightarrow> at + length bs \<le> length buf \<Longrightarrow>
   bslice i n (put_at at bs buf) = bslice i n buf"
  by (rule nth_equalityI) (auto simp: nth_bslice nth_put_at)

lemma bslice_put_at_inside:
  "at \<le> i \<Longrightarrow> i + n \<le> at + length bs \<Longrightarrow> at + length bs \<le> length buf \<Longrightarrow>
   bslice i n (put_at at bs buf) = bslice (i - at) n bs"
  by (rule nth_equalityI) (auto simp: nth_bslice nth_put_at)

lemma bslice_slice: "i + n \<le> m \<Longrightarrow> bslice i n (bslice j m buf) = bslice (j + i) n buf"
  by (simp add: bslice_def drop_take add.commute min_def)

lemma bslice_all [simp]: "n = length buf \<Longrightarrow> bslice 0 n buf = buf"
  by (simp add: bslice_def)

lemma bslice_replicate [simp]: "i + n \<le> m \<Longrightarrow> bslice i n (replicate m x) = replicate n x"
  by (simp add: bslice_def)

section \<open>The interface of a fixed-width field\<close>

text \<open>
  Every envelope and on-disk structure is a sequence of fields. A field codec writes a value as a
  run of bytes and reads it back from the front of the input; reading never accepts bytes the
  writer would not produce. The lemmas below are what every message layout uses of its fields.
\<close>

locale field_codec =
  fixes put :: "'a \<Rightarrow> bytes"
    and get :: "bytes \<Rightarrow> ('a \<times> bytes) option"
  assumes get_put: "get (put x @ rest) = Some (x, rest)"
    and get_sound: "get bs = Some (x, rest) \<Longrightarrow> bs = put x @ rest"
begin

lemma get_iff: "get bs = Some (x, rest) \<longleftrightarrow> bs = put x @ rest"
  using get_put get_sound by blast

lemma put_inject: "put x @ r = put y @ s \<Longrightarrow> x = y \<and> r = s"
  by (metis get_put option.inject prod.inject)

end

section \<open>The interface of a transition system with an invariant\<close>

text \<open>
  A stateful component is a step function (an operation applied to a state) and an invariant that
  holds initially and that every operation preserves. Every state an operation sequence reaches
  then satisfies the invariant.
\<close>

fun run :: "('op \<Rightarrow> 's \<Rightarrow> 's) \<Rightarrow> 'op list \<Rightarrow> 's \<Rightarrow> 's" where
  "run step [] s = s"
| "run step (a # as) s = run step as (step a s)"

locale invariant_system =
  fixes step :: "'op \<Rightarrow> 's \<Rightarrow> 's"
    and inv :: "'s \<Rightarrow> bool"
  assumes step_inv: "inv s \<Longrightarrow> inv (step a s)"
begin

lemma run_inv: "inv s \<Longrightarrow> inv (run step as s)"
  by (induction as arbitrary: s) (auto simp: step_inv)

end

lemma run_append: "run step (xs @ ys) s = run step ys (run step xs s)"
  by (induction xs arbitrary: s) auto

end
