(* ===== verification/Rpc_Cursor.thy ===== *)
theory Rpc_Cursor
  imports Prelude
begin

text \<open>
  The little-endian cursor of the hand-written RPC layouts
  (\<open>crates/moonpool-rpc/src/protocol/cursor.rs\<close>). A \<open>Writer\<close> is the byte vector written so far and
  each of its methods appends one field; a \<open>Reader\<close> is the input not read yet and each of its methods
  takes one field off the front, or fails without consuming anything when the input is too short.
  The reader and the writer of each width are an instance of \<open>field_codec\<close>.
\<close>

section \<open>Socket addresses\<close>

text \<open>
  The standard library's \<open>SocketAddr\<close>. A version 6 address also carries a flow label and a scope
  identifier, which \<open>SocketAddr::new\<close> sets to zero and the layouts below do not write.
\<close>

datatype socket_addr =
    SocketV4 (sa_ip4: u32) (sa_port: u16)
  | SocketV6 (sa_ip6: u128) (sa_port: u16) (sa_flowinfo: u32) (sa_scope_id: u32)

definition ipv4_octets :: "u32 \<Rightarrow> bytes" where
  "ipv4_octets ip = rev (to_le_bytes 4 ip)"

definition ipv6_octets :: "u128 \<Rightarrow> bytes" where
  "ipv6_octets ip = rev (to_le_bytes 16 ip)"

definition unscoped :: "socket_addr \<Rightarrow> bool" where
  "unscoped a = (case a of SocketV4 _ _ \<Rightarrow> True | SocketV6 _ _ f s \<Rightarrow> f = 0 \<and> s = 0)"

section \<open>The writer\<close>

type_synonym writer = bytes

definition writer_new :: writer where
  "writer_new = []"

definition writer_bytes :: "bytes \<Rightarrow> writer \<Rightarrow> writer" where
  "writer_bytes v out = out @ v"

definition writer_u8 :: "u8 \<Rightarrow> writer \<Rightarrow> writer" where
  "writer_u8 v out = out @ [v]"

definition writer_u16 :: "u16 \<Rightarrow> writer \<Rightarrow> writer" where
  "writer_u16 v out = out @ to_le_bytes 2 v"

definition writer_u32 :: "u32 \<Rightarrow> writer \<Rightarrow> writer" where
  "writer_u32 v out = out @ to_le_bytes 4 v"

definition writer_u64 :: "u64 \<Rightarrow> writer \<Rightarrow> writer" where
  "writer_u64 v out = out @ to_le_bytes 8 v"

definition writer_u128 :: "u128 \<Rightarrow> writer \<Rightarrow> writer" where
  "writer_u128 v out = out @ to_le_bytes 16 v"

text \<open>A chain of method calls on one writer, first call first.\<close>

definition writer_chain :: "(writer \<Rightarrow> writer) list \<Rightarrow> writer \<Rightarrow> writer" where
  "writer_chain ws out = fold (\<lambda>w. w) ws out"

definition writer_socket_addr :: "socket_addr \<Rightarrow> writer \<Rightarrow> writer" where
  "writer_socket_addr a out =
     (case a of
        SocketV4 ip port \<Rightarrow>
          writer_chain [writer_u8 4, writer_bytes (ipv4_octets ip), writer_u16 port] out
      | SocketV6 ip port _ _ \<Rightarrow>
          writer_chain [writer_u8 6, writer_bytes (ipv6_octets ip), writer_u16 port] out)"

lemmas writer_defs = writer_new_def writer_bytes_def writer_u8_def writer_u16_def writer_u32_def
  writer_u64_def writer_u128_def

lemma writer_chain_simps [simp]:
  "writer_chain [] out = out"
  "writer_chain (w # ws) out = writer_chain ws (w out)"
  by (simp_all add: writer_chain_def)

section \<open>The reader\<close>

type_synonym reader = bytes

definition reader_take :: "nat \<Rightarrow> reader \<Rightarrow> (bytes \<times> reader) option" where
  "reader_take n input = (if length input < n then None else Some (take n input, drop n input))"

definition reader_u8 :: "reader \<Rightarrow> (u8 \<times> reader) option" where
  "reader_u8 input = map_option (\<lambda>(bs, rest). (hd bs, rest)) (reader_take 1 input)"

definition reader_u16 :: "reader \<Rightarrow> (u16 \<times> reader) option" where
  "reader_u16 input = map_option (\<lambda>(bs, rest). (from_le_bytes bs, rest)) (reader_take 2 input)"

definition reader_u32 :: "reader \<Rightarrow> (u32 \<times> reader) option" where
  "reader_u32 input = map_option (\<lambda>(bs, rest). (from_le_bytes bs, rest)) (reader_take 4 input)"

definition reader_u64 :: "reader \<Rightarrow> (u64 \<times> reader) option" where
  "reader_u64 input = map_option (\<lambda>(bs, rest). (from_le_bytes bs, rest)) (reader_take 8 input)"

definition reader_u128 :: "reader \<Rightarrow> (u128 \<times> reader) option" where
  "reader_u128 input = map_option (\<lambda>(bs, rest). (from_le_bytes bs, rest)) (reader_take 16 input)"

definition reader_slice :: "nat \<Rightarrow> reader \<Rightarrow> (bytes \<times> reader) option" where
  "reader_slice len input = (if length input < len then None else Some (take len input, drop len input))"

definition reader_rest :: "reader \<Rightarrow> bytes" where
  "reader_rest input = input"

definition reader_is_empty :: "reader \<Rightarrow> bool" where
  "reader_is_empty input = (input = [])"

section \<open>Readers undo writers\<close>

lemma take_field_codec:
  fixes get :: "reader \<Rightarrow> ('a::len word \<times> reader) option"
  assumes get: "\<And>input. get input = map_option (\<lambda>(bs, rest). (from_le_bytes bs, rest)) (reader_take n input)"
    and width: "LENGTH('a) = 8 * n"
  shows "field_codec (to_le_bytes n) get"
proof
  show "get (to_le_bytes n x @ rest) = Some (x, rest)" for x rest
    by (simp add: get reader_take_def from_le_to_le width)
next
  fix bs x rest
  assume "get bs = Some (x, rest)"
  then have n: "n \<le> length bs" and x: "x = from_le_bytes (take n bs)" and rest: "rest = drop n bs"
    by (auto simp: get reader_take_def split: if_splits)
  have "to_le_bytes n x = take n bs"
    using to_le_from_le [of "take n bs", where 'a = 'a] n width by (simp add: x)
  then show "bs = to_le_bytes n x @ rest"
    by (simp add: rest)
qed

interpretation u8_field: field_codec "\<lambda>v. [v]" reader_u8
proof
  show "reader_u8 ([x] @ rest) = Some (x, rest)" for x rest
    by (simp add: reader_u8_def reader_take_def)
  show "bs = [x] @ rest" if "reader_u8 bs = Some (x, rest)" for bs x rest
    using that by (cases bs) (auto simp: reader_u8_def reader_take_def split: if_splits)
qed

interpretation u16_field: field_codec "to_le_bytes 2" reader_u16
  by (rule take_field_codec [OF reader_u16_def]) simp

interpretation u32_field: field_codec "to_le_bytes 4" reader_u32
  by (rule take_field_codec [OF reader_u32_def]) simp

interpretation u64_field: field_codec "to_le_bytes 8" reader_u64
  by (rule take_field_codec [OF reader_u64_def]) simp

interpretation u128_field: field_codec "to_le_bytes 16" reader_u128
  by (rule take_field_codec [OF reader_u128_def]) simp

text \<open>The forms the message proofs rewrite with: a field in front of more input, and at its end.\<close>

lemmas reader_put [codec_simps] =
  u8_field.get_put [simplified] u16_field.get_put u32_field.get_put u64_field.get_put
  u128_field.get_put

lemmas reader_put_end [codec_simps] =
  u16_field.get_put [where rest = "[]", simplified]
  u32_field.get_put [where rest = "[]", simplified]
  u64_field.get_put [where rest = "[]", simplified]
  u128_field.get_put [where rest = "[]", simplified]

lemmas reader_iff = u8_field.get_iff [simplified] u16_field.get_iff u32_field.get_iff
  u64_field.get_iff u128_field.get_iff

lemma reader_slice_append [codec_simps]:
  "len = length v \<Longrightarrow> reader_slice len (v @ rest) = Some (v, rest)"
  by (simp add: reader_slice_def)

lemma reader_slice_iff:
  "reader_slice len input = Some (v, rest) \<longleftrightarrow> input = v @ rest \<and> length v = len"
  by (auto simp: reader_slice_def)

lemma ipv4_octets_inverse [codec_simps]: "from_le_bytes (rev (ipv4_octets ip)) = ip"
  by (simp add: ipv4_octets_def from_le_to_le)

lemma ipv6_octets_inverse [codec_simps]: "from_le_bytes (rev (ipv6_octets ip)) = ip"
  by (simp add: ipv6_octets_def from_le_to_le)

lemma length_octets [simp]: "length (ipv4_octets ip) = 4" "length (ipv6_octets ip6) = 16"
  by (simp_all add: ipv4_octets_def ipv6_octets_def)

lemma ipv4_octets_from_le: "length bs = 4 \<Longrightarrow> ipv4_octets (from_le_bytes (rev bs)) = bs"
  using to_le_from_le [of "rev bs", where 'a = 32] by (simp add: ipv4_octets_def)

lemma ipv6_octets_from_le: "length bs = 16 \<Longrightarrow> ipv6_octets (from_le_bytes (rev bs)) = bs"
  using to_le_from_le [of "rev bs", where 'a = 128] by (simp add: ipv6_octets_def)

end
