(* ===== verification/Rpc_Endpoint.thy ===== *)
theory Rpc_Endpoint
  imports Rpc_Cursor
begin

unbundle bit_operations_syntax

text \<open>
  Endpoint identity (\<open>crates/moonpool-rpc/src/endpoint/mod.rs\<close>): incarnations, checked tokens, the
  well-known tokens that name a bootstrap service in every incarnation, access classes and fully
  addressed endpoints, with the stable identifiers of the protocol
  (\<open>protocol/schema.rs\<close>, \<open>codec.rs\<close>, \<open>interface/mod.rs\<close>), which are transparent wrappers of an
  integer.
\<close>

type_synonym incarnation = u128
type_synonym method_id = u32
type_synonym schema_version = u16
type_synonym codec_id = u16
type_synonym interface_id = u32
type_synonym well_known_id = u32

record endpoint_token =
  tok_index :: u64
  tok_generation :: u32

definition WELL_KNOWN_BIT :: u64 where
  "WELL_KNOWN_BIT = push_bit 63 1"

definition from_parts :: "u64 \<Rightarrow> u32 \<Rightarrow> endpoint_token" where
  "from_parts i g = \<lparr>tok_index = i, tok_generation = g\<rparr>"

definition well_known :: "well_known_id \<Rightarrow> endpoint_token" where
  "well_known wid = \<lparr>tok_index = WELL_KNOWN_BIT OR ucast wid, tok_generation = 0\<rparr>"

definition is_well_known :: "endpoint_token \<Rightarrow> bool" where
  "is_well_known t = (tok_index t AND WELL_KNOWN_BIT \<noteq> 0)"

definition well_known_id :: "endpoint_token \<Rightarrow> well_known_id option" where
  "well_known_id t =
     (if \<not> is_well_known t then None else try_from (tok_index t AND NOT WELL_KNOWN_BIT))"

datatype access_class = Private | Public

definition access_to_byte :: "access_class \<Rightarrow> u8" where
  "access_to_byte a = (case a of Private \<Rightarrow> 0 | Public \<Rightarrow> 1)"

definition access_from_byte :: "u8 \<Rightarrow> access_class option" where
  "access_from_byte b = (if b = 0 then Some Private else if b = 1 then Some Public else None)"

record endpoint =
  ep_address :: socket_addr
  ep_incarnation :: incarnation
  ep_token :: endpoint_token

lemma bit_WELL_KNOWN_BIT: "bit WELL_KNOWN_BIT n \<longleftrightarrow> n = 63"
  unfolding WELL_KNOWN_BIT_def by (auto simp only: bit_push_bit_iff bit_1_iff) simp_all

lemma is_well_known_bit: "is_well_known t \<longleftrightarrow> bit (tok_index t) 63"
  unfolding is_well_known_def bit_eq_iff [of "tok_index t AND WELL_KNOWN_BIT"]
  by (auto simp: bit_and_iff bit_WELL_KNOWN_BIT)

lemma well_known_is_well_known: "is_well_known (well_known wid)"
  by (simp add: is_well_known_bit well_known_def bit_or_iff bit_WELL_KNOWN_BIT)

lemma well_known_id_round_trip: "well_known_id (well_known wid) = Some wid"
proof -
  have "(WELL_KNOWN_BIT OR ucast wid) AND NOT WELL_KNOWN_BIT = (ucast wid :: u64)"
    by (rule bit_word_eqI) (auto simp: bit_WELL_KNOWN_BIT bit_simps dest: bit_imp_le_length)
  then show ?thesis
    using well_known_is_well_known [of wid]
    by (simp add: well_known_id_def well_known_def codec_simps)
qed

lemma index_well_known:
  "n < 2 ^ 64 \<Longrightarrow> is_well_known (from_parts (of_nat n) g) \<longleftrightarrow> 2 ^ 63 \<le> n"
proof -
  assume n: "n < 2 ^ 64"
  have "bit (of_nat n :: u64) 63 \<longleftrightarrow> odd (n div 2 ^ 63)"
    by (simp add: bit_of_nat_iff bit_nat_def del: power_numeral)
  also have "\<dots> \<longleftrightarrow> 2 ^ 63 \<le> n"
  proof (cases "2 ^ 63 \<le> n")
    case True
    then have "n div 2 ^ 63 = 1" using n by (intro div_nat_eqI) simp_all
    with True show ?thesis by simp
  next
    case False
    then have "n div 2 ^ 63 = 0" by simp
    with False show ?thesis by simp
  qed
  finally show ?thesis by (simp add: is_well_known_bit from_parts_def)
qed

lemma access_byte_round_trip: "access_from_byte (access_to_byte a) = Some a"
  by (cases a) (simp_all add: access_from_byte_def access_to_byte_def)

end
