(* ===== verification/Rpc_Wire.thy ===== *)
theory Rpc_Wire
  imports Rpc_Endpoint
begin

unbundle bit_operations_syntax

text \<open>
  The frame envelope (\<open>crates/moonpool-rpc/src/protocol/wire.rs\<close>): version negotiation, the messages
  and rejection statuses, their encoding and the version-aware decoder, with the credential error
  codes a rejection carries (\<open>security/mod.rs\<close>). The main facts are that decoding what was encoded
  gives the message back, that the decoder accepts no other byte string for it (but for the detail
  word of a status that has none), and that nothing a version does not define is accepted on it.
\<close>

section \<open>Version negotiation\<close>

definition PROTOCOL_MAGIC :: u32 where "PROTOCOL_MAGIC = 0x4d505243"
definition PROTOCOL_VERSION :: u16 where "PROTOCOL_VERSION = 2"
definition MIN_PROTOCOL_VERSION :: u16 where "MIN_PROTOCOL_VERSION = 1"
definition CREDENTIALS_VERSION :: u16 where "CREDENTIALS_VERSION = 2"

definition negotiate :: "u16 \<times> u16 \<Rightarrow> u16 \<times> u16 \<Rightarrow> u16 option" where
  "negotiate local peer =
     (let low = max (fst local) (fst peer);
          high = min (snd local) (snd peer)
      in if low \<le> high then Some high else None)"

section \<open>Credential errors\<close>

datatype credential_error =
    Missing | Malformed | TooLarge | UnsupportedAlgorithm | UnknownKey | BadSignature
  | WrongIssuer | WrongAudience | Expired | NotYetValid | ClockUnavailable | InsecureTransport
  | Rejected

definition credential_errors :: "credential_error list" where
  "credential_errors =
     [Missing, Malformed, TooLarge, UnsupportedAlgorithm, UnknownKey, BadSignature, WrongIssuer,
      WrongAudience, Expired, NotYetValid, ClockUnavailable, InsecureTransport, Rejected]"

fun credential_code :: "credential_error \<Rightarrow> u8" where
  "credential_code Missing = 1"
| "credential_code Malformed = 2"
| "credential_code TooLarge = 3"
| "credential_code UnsupportedAlgorithm = 4"
| "credential_code UnknownKey = 5"
| "credential_code BadSignature = 6"
| "credential_code WrongIssuer = 7"
| "credential_code WrongAudience = 8"
| "credential_code Expired = 9"
| "credential_code NotYetValid = 10"
| "credential_code ClockUnavailable = 11"
| "credential_code InsecureTransport = 12"
| "credential_code Rejected = 13"

definition credential_from_code :: "u8 \<Rightarrow> credential_error option" where
  "credential_from_code c = find (\<lambda>e. credential_code e = c) credential_errors"

lemma credential_code_round_trip [codec_simps]:
  "credential_from_code (credential_code e) = Some e"
  by (cases e) (simp_all add: credential_from_code_def credential_errors_def)

lemma credential_from_code_Some: "credential_from_code c = Some e \<Longrightarrow> credential_code e = c"
  by (auto simp: credential_from_code_def find_Some_iff)

section \<open>Messages\<close>

datatype wire_error =
    EndpointNotFound
  | StaleIncarnation
  | MethodMismatch method_id
  | SchemaMismatch schema_version
  | CodecMismatch codec_id
  | MalformedRequest
  | Overloaded
  | BrokenPromise
  | ReplyTooLarge
  | ReplyEncodeFailed
  | MethodNotFound
  | InterfaceMismatch interface_id schema_version
  | StreamFailed u64
  | StreamProtocol
  | StreamingMismatch bool
  | Unauthenticated credential_error
  | PermissionDenied
  | ShuttingDown

datatype wire_outcome = OutcomeOk codec_id bytes | OutcomeErr wire_error

record request =
  req_call_id :: u64
  req_incarnation :: incarnation
  req_token :: endpoint_token
  req_interface :: interface_id
  req_interface_version :: schema_version
  req_method :: method_id
  req_schema :: schema_version
  req_codec :: codec_id
  req_flags :: u8
  req_stream_window :: u64
  req_metadata :: bytes
  req_body :: bytes

datatype wire_message =
    Hello u32 u16 u16 incarnation u64 u32 "socket_addr option"
    \<comment> \<open>magic, min version, max version, incarnation, features, max frame bytes, listen\<close>
  | Request request
  | Reply u64 wire_outcome \<comment> \<open>call id\<close>
  | Ping u64
  | Pong u64
  | StreamItem u64 u64 codec_id bytes \<comment> \<open>call id, sequence, codec, body\<close>
  | StreamEnd u64 u64 "wire_error option" \<comment> \<open>call id, items\<close>
  | StreamAck u64 u64 \<comment> \<open>call id, consumed\<close>
  | StreamCancel u64

datatype envelope_error =
    EmptyEnvelope | UnknownKind u8 | Truncated | UnknownStatus u8 | TrailingBytes
  | InvalidField string

definition KIND_HELLO :: u8 where "KIND_HELLO = 1"
definition KIND_REQUEST :: u8 where "KIND_REQUEST = 2"
definition KIND_REPLY :: u8 where "KIND_REPLY = 3"
definition KIND_PING :: u8 where "KIND_PING = 4"
definition KIND_PONG :: u8 where "KIND_PONG = 5"
definition KIND_STREAM_ITEM :: u8 where "KIND_STREAM_ITEM = 6"
definition KIND_STREAM_END :: u8 where "KIND_STREAM_END = 7"
definition KIND_STREAM_ACK :: u8 where "KIND_STREAM_ACK = 8"
definition KIND_STREAM_CANCEL :: u8 where "KIND_STREAM_CANCEL = 9"

lemmas kind_defs = KIND_HELLO_def KIND_REQUEST_def KIND_REPLY_def KIND_PING_def KIND_PONG_def
  KIND_STREAM_ITEM_def KIND_STREAM_END_def KIND_STREAM_ACK_def KIND_STREAM_CANCEL_def

definition REQUEST_FLAG_ONE_WAY :: u8 where "REQUEST_FLAG_ONE_WAY = 1"
definition REQUEST_FLAG_STREAM :: u8 where "REQUEST_FLAG_STREAM = 2"

definition REQUEST_FLAGS_KNOWN :: u8 where
  "REQUEST_FLAGS_KNOWN = REQUEST_FLAG_ONE_WAY OR REQUEST_FLAG_STREAM"

section \<open>Rejection statuses\<close>

definition since :: "wire_error \<Rightarrow> u16" where
  "since e = (case e of Unauthenticated _ \<Rightarrow> 2 | PermissionDenied \<Rightarrow> 2 | ShuttingDown \<Rightarrow> 2 | _ \<Rightarrow> 1)"

definition for_version :: "wire_error \<Rightarrow> u16 \<Rightarrow> wire_error" where
  "for_version e version =
     (if since e \<le> version then e
      else (case e of ShuttingDown \<Rightarrow> Overloaded | _ \<Rightarrow> EndpointNotFound))"

fun status_and_detail :: "wire_error \<Rightarrow> u8 \<times> u64" where
  "status_and_detail EndpointNotFound = (1, 0)"
| "status_and_detail StaleIncarnation = (2, 0)"
| "status_and_detail (MethodMismatch registered) = (3, ucast registered)"
| "status_and_detail (SchemaMismatch registered) = (4, ucast registered)"
| "status_and_detail (CodecMismatch registered) = (5, ucast registered)"
| "status_and_detail MalformedRequest = (6, 0)"
| "status_and_detail Overloaded = (7, 0)"
| "status_and_detail BrokenPromise = (8, 0)"
| "status_and_detail ReplyTooLarge = (9, 0)"
| "status_and_detail ReplyEncodeFailed = (10, 0)"
| "status_and_detail MethodNotFound = (11, 0)"
| "status_and_detail (InterfaceMismatch interface version) =
     (12, push_bit 16 (ucast interface) OR ucast version)"
| "status_and_detail (StreamFailed code) = (13, code)"
| "status_and_detail StreamProtocol = (14, 0)"
| "status_and_detail (StreamingMismatch endpoint_streams) = (15, of_bool endpoint_streams)"
| "status_and_detail (Unauthenticated reason) = (16, ucast (credential_code reason))"
| "status_and_detail PermissionDenied = (17, 0)"
| "status_and_detail ShuttingDown = (18, 0)"

definition from_status :: "u8 \<Rightarrow> u64 \<Rightarrow> envelope_error + wire_error" where
  "from_status status detail =
     (if status = 1 then Inr EndpointNotFound
      else if status = 2 then Inr StaleIncarnation
      else if status = 3 then
        and_then (ok_or (InvalidField ''method'') (try_from detail)) (\<lambda>m. Inr (MethodMismatch m))
      else if status = 4 then
        and_then (ok_or (InvalidField ''schema'') (try_from detail)) (\<lambda>s. Inr (SchemaMismatch s))
      else if status = 5 then
        and_then (ok_or (InvalidField ''codec'') (try_from detail)) (\<lambda>c. Inr (CodecMismatch c))
      else if status = 6 then Inr MalformedRequest
      else if status = 7 then Inr Overloaded
      else if status = 8 then Inr BrokenPromise
      else if status = 9 then Inr ReplyTooLarge
      else if status = 10 then Inr ReplyEncodeFailed
      else if status = 11 then Inr MethodNotFound
      else if status = 12 then
        and_then (ok_or (InvalidField ''interface'') (try_from (drop_bit 16 detail)))
          (\<lambda>i. Inr (InterfaceMismatch i
                 (case try_from (detail AND 0xffff) of None \<Rightarrow> 0 | Some v \<Rightarrow> v)))
      else if status = 13 then Inr (StreamFailed detail)
      else if status = 14 then Inr StreamProtocol
      else if status = 15 then
        (if detail = 0 then Inr (StreamingMismatch False)
         else if detail = 1 then Inr (StreamingMismatch True)
         else Inl (InvalidField ''streaming''))
      else if status = 16 then
        and_then (ok_or (InvalidField ''credential error'')
            (Option.bind (try_from detail) credential_from_code))
          (\<lambda>r. Inr (Unauthenticated r))
      else if status = 17 then Inr PermissionDenied
      else if status = 18 then Inr ShuttingDown
      else Inl (UnknownStatus status))"

lemma interface_detail_high:
  "drop_bit 16 (push_bit 16 (ucast i)) OR drop_bit 16 (ucast v) = (ucast i :: u64)"
  for i :: u32 and v :: u16
  by (rule bit_word_eqI) (auto simp: bit_simps dest: bit_imp_le_length)

lemma interface_detail_low:
  "(push_bit 16 (ucast i) OR ucast v) AND 0xffff = (ucast v :: u64)"
  for i :: u32 and v :: u16
proof -
  have m: "(0xffff :: u64) = mask 16" by (simp add: mask_eq_exp_minus_1)
  show ?thesis
    unfolding m by (rule bit_word_eqI) (auto simp: bit_simps dest: bit_imp_le_length)
qed

lemma interface_detail_join:
  "push_bit 16 (drop_bit 16 d) OR (d AND 0xffff) = d" for d :: u64
proof -
  have m: "(0xffff :: u64) = mask 16" by (simp add: mask_eq_exp_minus_1)
  show ?thesis
    unfolding m by (rule bit_word_eqI) (auto simp: bit_simps)
qed

lemma from_status_round_trip [codec_simps]:
  "(case status_and_detail e of (s, d) \<Rightarrow> from_status s d) = Inr e"
  by (cases e) (simp_all add: from_status_def codec_simps interface_detail_high interface_detail_low)

lemma status_nonzero: "fst (status_and_detail e) \<noteq> 0"
  by (cases e) simp_all

text \<open>The statuses whose detail word carries nothing; the decoder reads past it.\<close>

definition detail_free :: "wire_error \<Rightarrow> bool" where
  "detail_free e =
     (e \<in> {EndpointNotFound, StaleIncarnation, MalformedRequest, Overloaded, BrokenPromise,
           ReplyTooLarge, ReplyEncodeFailed, MethodNotFound, StreamProtocol, PermissionDenied,
           ShuttingDown})"

lemma try_from_low16: "try_from (d AND 0xffff) = Some (ucast (d AND 0xffff) :: u16)" for d :: u64
proof -
  have "unat (d AND 0xffff) \<le> unat (0xffff :: u64)"
    by (rule word_and_le1 [THEN word_le_nat_alt [THEN iffD1]])
  then show ?thesis by (simp add: try_from_def)
qed

lemma from_status_sound:
  assumes "from_status s d = Inr e"
  shows "fst (status_and_detail e) = s" "detail_free e \<or> snd (status_and_detail e) = d"
proof -
  have join: "push_bit 16 (ucast i) OR ucast (ucast (d AND 0xffff) :: u16) = d"
    if "try_from (drop_bit 16 d) = Some (i :: u32)" for i
    using try_from_Some [OF that] try_from_Some [OF try_from_low16, of d] interface_detail_join [of d]
    by simp
  have code: "ucast (credential_code r) = d"
    if "try_from d = Some c" and "credential_from_code c = Some r" for c r
    using try_from_Some [OF that(1)] credential_from_code_Some [OF that(2)] by simp
  show "fst (status_and_detail e) = s"
    using assms by (auto simp: from_status_def result_simps split: if_splits)
  show "detail_free e \<or> snd (status_and_detail e) = d"
    using assms
    by (auto simp: from_status_def result_simps detail_free_def try_from_low16 join code
        bind_eq_Some_conv dest: try_from_Some split: if_splits)
qed

section \<open>Encoding\<close>

definition encode_stream :: "writer \<Rightarrow> wire_message \<Rightarrow> writer" where
  "encode_stream out message =
     (case message of
        StreamItem call_id sequence codec body \<Rightarrow>
          writer_chain [writer_u8 KIND_STREAM_ITEM, writer_u64 call_id, writer_u64 sequence,
            writer_u16 codec, writer_bytes body] out
      | StreamEnd call_id items err \<Rightarrow>
          (let (status, detail) = (case err of None \<Rightarrow> (0, 0) | Some e \<Rightarrow> status_and_detail e)
           in writer_chain [writer_u8 KIND_STREAM_END, writer_u64 call_id, writer_u64 items,
                writer_u8 status, writer_u64 detail] out)
      | StreamAck call_id consumed \<Rightarrow>
          writer_chain [writer_u8 KIND_STREAM_ACK, writer_u64 call_id, writer_u64 consumed] out
      | StreamCancel call_id \<Rightarrow>
          writer_chain [writer_u8 KIND_STREAM_CANCEL, writer_u64 call_id] out
      | _ \<Rightarrow> out)"

definition encode_request :: "request \<Rightarrow> writer \<Rightarrow> writer" where
  "encode_request r out =
     (let metadata = take (min (length (req_metadata r)) 65535) (req_metadata r);
          out = writer_chain
            [writer_u8 KIND_REQUEST, writer_u64 (req_call_id r), writer_u128 (req_incarnation r),
             writer_u64 (tok_index (req_token r)), writer_u32 (tok_generation (req_token r)),
             writer_u32 (req_interface r), writer_u16 (req_interface_version r),
             writer_u32 (req_method r), writer_u16 (req_schema r), writer_u16 (req_codec r),
             writer_u8 (req_flags r)] out;
          out = (if req_flags r AND REQUEST_FLAG_STREAM \<noteq> 0
                 then writer_u64 (req_stream_window r) out else out)
      in writer_chain
           [writer_u16 (of_nat (length metadata)), writer_bytes metadata, writer_bytes (req_body r)]
           out)"

definition encode_message :: "wire_message \<Rightarrow> bytes" where
  "encode_message message =
     (case message of
        Hello magic min_version max_version incarnation features max_frame_bytes listen \<Rightarrow>
          (let out = writer_chain [writer_u8 KIND_HELLO, writer_u32 magic, writer_u16 min_version,
                 writer_u16 max_version, writer_u128 incarnation, writer_u64 features,
                 writer_u32 max_frame_bytes] writer_new
           in (case listen of
                 Some address \<Rightarrow> writer_socket_addr address out
               | None \<Rightarrow> writer_u8 0 out))
      | Request r \<Rightarrow> encode_request r writer_new
      | Reply call_id outcome \<Rightarrow>
          (let out = writer_chain [writer_u8 KIND_REPLY, writer_u64 call_id] writer_new
           in (case outcome of
                 OutcomeOk codec body \<Rightarrow>
                   writer_chain [writer_u8 0, writer_u16 codec, writer_bytes body] out
               | OutcomeErr e \<Rightarrow>
                   (let (status, detail) = status_and_detail e
                    in writer_chain [writer_u8 status, writer_u64 detail] out)))
      | Ping nonce \<Rightarrow> writer_chain [writer_u8 KIND_PING, writer_u64 nonce] writer_new
      | Pong nonce \<Rightarrow> writer_chain [writer_u8 KIND_PONG, writer_u64 nonce] writer_new
      | stream \<Rightarrow> encode_stream writer_new stream)"

definition HEADER_LEN :: nat where "HEADER_LEN = 12"

definition HELLO_ENVELOPE_LEN :: nat where
  "HELLO_ENVELOPE_LEN = 1 + 4 + 2 + 2 + 16 + 8 + 4 + 1 + 16 + 2"

definition LIVENESS_ENVELOPE_LEN :: nat where "LIVENESS_ENVELOPE_LEN = 1 + 8"

definition REJECTION_ENVELOPE_LEN :: nat where "REJECTION_ENVELOPE_LEN = 1 + 8 + 1 + 8"

definition request_envelope_len :: "nat \<Rightarrow> nat" where
  "request_envelope_len body_len = 1 + 8 + 16 + 8 + 4 + 4 + 2 + 4 + 2 + 2 + 1 + 2 + body_len"

definition reply_envelope_len :: "nat \<Rightarrow> nat" where
  "reply_envelope_len body_len = 1 + 8 + 1 + 2 + body_len"

definition stream_request_envelope_len :: "nat \<Rightarrow> nat" where
  "stream_request_envelope_len body_len = request_envelope_len body_len + 8"

definition stream_item_envelope_len :: "nat \<Rightarrow> nat" where
  "stream_item_envelope_len body_len = 1 + 8 + 8 + 2 + body_len"

definition stream_item_frame_len :: "nat \<Rightarrow> u64" where
  "stream_item_frame_len body_len =
     saturating_add (of_nat (HEADER_LEN + stream_item_envelope_len 0)) (of_nat body_len)"

definition STREAM_END_ENVELOPE_LEN :: nat where "STREAM_END_ENVELOPE_LEN = 1 + 8 + 8 + 1 + 8"

definition STREAM_ACK_ENVELOPE_LEN :: nat where "STREAM_ACK_ENVELOPE_LEN = 1 + 8 + 8"

section \<open>Decoding\<close>

definition decode_listen :: "u8 \<Rightarrow> reader \<Rightarrow> envelope_error + (socket_addr \<times> reader)" where
  "decode_listen family input =
     and_then
       (if family = 4 then
          and_then (ok_or Truncated (reader_slice 4 input))
            (\<lambda>(octets, input). Inr (\<lambda>port. SocketV4 (from_le_bytes (rev octets)) port, input))
        else if family = 6 then
          and_then (ok_or Truncated (reader_slice 16 input))
            (\<lambda>(octets, input). Inr (\<lambda>port. SocketV6 (from_le_bytes (rev octets)) port 0 0, input))
        else Inl (InvalidField ''listen address family''))
       (\<lambda>(new, input).
          and_then (ok_or Truncated (reader_u16 input)) (\<lambda>(port, input). Inr (new port, input)))"

definition ended :: "reader \<Rightarrow> envelope_error + unit" where
  "ended input = (if reader_is_empty input then Inr () else Inl TrailingBytes)"

definition decode_hello :: "reader \<Rightarrow> envelope_error + wire_message" where
  "decode_hello input =
     and_then (ok_or Truncated (reader_u32 input)) (\<lambda>(magic, input).
     and_then (ok_or Truncated (reader_u16 input)) (\<lambda>(min_version, input).
     and_then (ok_or Truncated (reader_u16 input)) (\<lambda>(max_version, input).
     and_then (ok_or Truncated (reader_u128 input)) (\<lambda>(incarnation, input).
     and_then (ok_or Truncated (reader_u64 input)) (\<lambda>(features, input).
     and_then (ok_or Truncated (reader_u32 input)) (\<lambda>(max_frame_bytes, input).
     and_then (ok_or Truncated (reader_u8 input)) (\<lambda>(family, input).
     and_then
       (if family = 0 then Inr (None, input)
        else and_then (decode_listen family input) (\<lambda>(a, input). Inr (Some a, input)))
       (\<lambda>(listen, input).
          if \<not> reader_is_empty input then Inl TrailingBytes
          else Inr (Hello magic min_version max_version incarnation features max_frame_bytes
                 listen)))))))))"

definition decode_request :: "reader \<Rightarrow> envelope_error + wire_message" where
  "decode_request input =
     and_then (ok_or Truncated (reader_u64 input)) (\<lambda>(call_id, input).
     and_then (ok_or Truncated (reader_u128 input)) (\<lambda>(incarnation, input).
     and_then (ok_or Truncated (reader_u64 input)) (\<lambda>(index, input).
     and_then (ok_or Truncated (reader_u32 input)) (\<lambda>(generation, input).
     and_then (ok_or Truncated (reader_u32 input)) (\<lambda>(interface, input).
     and_then (ok_or Truncated (reader_u16 input)) (\<lambda>(interface_version, input).
     and_then (ok_or Truncated (reader_u32 input)) (\<lambda>(method, input).
     and_then (ok_or Truncated (reader_u16 input)) (\<lambda>(schema, input).
     and_then (ok_or Truncated (reader_u16 input)) (\<lambda>(codec, input).
     and_then (ok_or Truncated (reader_u8 input)) (\<lambda>(flags, input).
       let both = REQUEST_FLAG_ONE_WAY OR REQUEST_FLAG_STREAM in
       if flags AND NOT REQUEST_FLAGS_KNOWN \<noteq> 0 \<or> flags AND both = both
       then Inl (InvalidField ''flags'')
       else
         and_then
           (if flags AND REQUEST_FLAG_STREAM = 0 then Inr (0, input)
            else ok_or Truncated (reader_u64 input)) (\<lambda>(stream_window, input).
         and_then (ok_or Truncated (reader_u16 input)) (\<lambda>(metadata_len, input).
         and_then (ok_or Truncated (reader_slice (unat metadata_len) input))
           (\<lambda>(metadata, input).
              Inr (Request
                \<lparr>req_call_id = call_id, req_incarnation = incarnation,
                 req_token = from_parts index generation, req_interface = interface,
                 req_interface_version = interface_version, req_method = method,
                 req_schema = schema, req_codec = codec, req_flags = flags,
                 req_stream_window = stream_window, req_metadata = metadata,
                 req_body = reader_rest input\<rparr>))))))))))))))"

definition decode_reply :: "reader \<Rightarrow> envelope_error + wire_message" where
  "decode_reply input =
     and_then (ok_or Truncated (reader_u64 input)) (\<lambda>(call_id, input).
     and_then (ok_or Truncated (reader_u8 input)) (\<lambda>(status, input).
       if status = 0 then
         and_then (ok_or Truncated (reader_u16 input))
           (\<lambda>(codec, input). Inr (Reply call_id (OutcomeOk codec (reader_rest input))))
       else
         and_then (ok_or Truncated (reader_u64 input)) (\<lambda>(detail, input).
           if \<not> reader_is_empty input then Inl TrailingBytes
           else and_then (from_status status detail) (\<lambda>e. Inr (Reply call_id (OutcomeErr e))))))"

definition decode_liveness :: "u8 \<Rightarrow> reader \<Rightarrow> envelope_error + wire_message" where
  "decode_liveness kind input =
     and_then (ok_or Truncated (reader_u64 input)) (\<lambda>(nonce, input).
       if \<not> reader_is_empty input then Inl TrailingBytes
       else if kind = KIND_PING then Inr (Ping nonce) else Inr (Pong nonce))"

definition decode_stream :: "u8 \<Rightarrow> reader \<Rightarrow> envelope_error + wire_message" where
  "decode_stream kind input =
     (if kind = KIND_STREAM_ITEM then
        and_then (ok_or Truncated (reader_u64 input)) (\<lambda>(call_id, input).
        and_then (ok_or Truncated (reader_u64 input)) (\<lambda>(sequence, input).
        and_then (ok_or Truncated (reader_u16 input)) (\<lambda>(codec, input).
          Inr (StreamItem call_id sequence codec (reader_rest input)))))
      else if kind = KIND_STREAM_END then
        and_then (ok_or Truncated (reader_u64 input)) (\<lambda>(call_id, input).
        and_then (ok_or Truncated (reader_u64 input)) (\<lambda>(items, input).
        and_then (ok_or Truncated (reader_u8 input)) (\<lambda>(status, input).
        and_then (ok_or Truncated (reader_u64 input)) (\<lambda>(detail, input).
        and_then
          (if status = 0 \<and> detail = 0 then Inr None
           else if status = 0 then Inl (InvalidField ''stream end detail'')
           else and_then (from_status status detail) (\<lambda>e. Inr (Some e)))
          (\<lambda>err. and_then (ended input) (\<lambda>_. Inr (StreamEnd call_id items err)))))))
      else if kind = KIND_STREAM_ACK then
        and_then (ok_or Truncated (reader_u64 input)) (\<lambda>(call_id, input).
        and_then (ok_or Truncated (reader_u64 input)) (\<lambda>(consumed, input).
        and_then (ended input) (\<lambda>_. Inr (StreamAck call_id consumed))))
      else if kind = KIND_STREAM_CANCEL then
        and_then (ok_or Truncated (reader_u64 input)) (\<lambda>(call_id, input).
        and_then (ended input) (\<lambda>_. Inr (StreamCancel call_id)))
      else Inl (UnknownKind kind))"

definition decode_any :: "bytes \<Rightarrow> envelope_error + wire_message" where
  "decode_any payload =
     and_then (ok_or EmptyEnvelope (reader_u8 payload)) (\<lambda>(kind, input).
       if kind = KIND_HELLO then decode_hello input
       else if kind = KIND_REQUEST then decode_request input
       else if kind = KIND_REPLY then decode_reply input
       else if kind = KIND_PING \<or> kind = KIND_PONG then decode_liveness kind input
       else if KIND_STREAM_ITEM \<le> kind \<and> kind \<le> KIND_STREAM_CANCEL then decode_stream kind input
       else Inl (UnknownKind kind))"

definition carried_error :: "wire_message \<Rightarrow> wire_error option" where
  "carried_error message =
     (case message of
        Reply _ (OutcomeErr e) \<Rightarrow> Some e
      | StreamEnd _ _ (Some e) \<Rightarrow> Some e
      | _ \<Rightarrow> None)"

definition decode_message_at :: "bytes \<Rightarrow> u16 \<Rightarrow> envelope_error + wire_message" where
  "decode_message_at payload version =
     and_then (decode_any payload) (\<lambda>message.
       case carried_error message of
         Some e \<Rightarrow>
           (if since e > version then Inl (UnknownStatus (fst (status_and_detail e)))
            else Inr message)
       | None \<Rightarrow> Inr message)"

definition decode_message :: "bytes \<Rightarrow> envelope_error + wire_message" where
  "decode_message payload = decode_message_at payload PROTOCOL_VERSION"

definition request_metadata_len :: "bytes \<Rightarrow> nat option" where
  "request_metadata_len payload =
     Option.bind (reader_u8 payload) (\<lambda>(kind, input).
       if kind \<noteq> KIND_REQUEST then None
       else Option.bind (reader_slice (8 + 16 + 8 + 4 + 4 + 2 + 4 + 2 + 2) input) (\<lambda>(_, input).
         Option.bind (reader_u8 input) (\<lambda>(flags, input).
           Option.bind
             (if flags AND REQUEST_FLAG_STREAM \<noteq> 0
              then map_option snd (reader_u64 input) else Some input) (\<lambda>input.
           map_option (\<lambda>(len, _). unat len) (reader_u16 input)))))"

section \<open>Round trips\<close>

definition valid_message :: "wire_message \<Rightarrow> bool" where
  "valid_message message =
     (case message of
        Hello _ _ _ _ _ _ (Some a) \<Rightarrow> unscoped a
      | Request r \<Rightarrow>
          length (req_metadata r) \<le> 65535 \<and>
          req_flags r AND NOT REQUEST_FLAGS_KNOWN = 0 \<and>
          req_flags r AND REQUEST_FLAGS_KNOWN \<noteq> REQUEST_FLAGS_KNOWN \<and>
          (req_flags r AND REQUEST_FLAG_STREAM = 0 \<longrightarrow> req_stream_window r = 0)
      | _ \<Rightarrow> True)"

lemma reader_rest_id [simp]: "reader_rest input = input"
  by (simp add: reader_rest_def)

lemma reader_is_empty_iff [simp]: "reader_is_empty input \<longleftrightarrow> input = []"
  by (simp add: reader_is_empty_def)

lemma ended_simps [simp]: "ended input = Inr u \<longleftrightarrow> input = []" "ended [] = Inr ()"
  by (auto simp: ended_def)

lemma from_parts_token [simp]: "from_parts (tok_index t) (tok_generation t) = t"
  by (simp add: from_parts_def)

lemma decode_listen_round_trip:
  "unscoped a \<Longrightarrow>
   decode_hello (to_le_bytes 4 magic @ to_le_bytes 2 lo @ to_le_bytes 2 hi @ to_le_bytes 16 inc @
       to_le_bytes 8 features @ to_le_bytes 4 limit @ writer_socket_addr a [])
     = Inr (Hello magic lo hi inc features limit (Some a))"
  by (cases a)
     (simp_all add: decode_hello_def decode_listen_def writer_socket_addr_def writer_defs codec_simps
       unscoped_def)

lemma decode_hello_none:
  "decode_hello (to_le_bytes 4 magic @ to_le_bytes 2 lo @ to_le_bytes 2 hi @ to_le_bytes 16 inc @
       to_le_bytes 8 features @ to_le_bytes 4 limit @ [0])
     = Inr (Hello magic lo hi inc features limit None)"
  by (simp add: decode_hello_def codec_simps)

lemma writer_socket_addr_append: "writer_socket_addr a out = out @ writer_socket_addr a []"
  by (cases a) (simp_all add: writer_socket_addr_def writer_defs)

lemma encode_request_append: "encode_request r out = out @ encode_request r []"
  by (simp add: encode_request_def writer_defs Let_def)

lemma metadata_len_word: "n \<le> 65535 \<Longrightarrow> unat (of_nat n :: u16) = n"
  by (simp add: unat_of_nat)

lemma decode_request_round_trip:
  assumes "valid_message (Request r)"
  shows "decode_request (tl (encode_request r [])) = Inr (Request r)"
proof -
  have len: "unat (of_nat (length (req_metadata r)) :: u16) = length (req_metadata r)"
    using assms by (simp add: valid_message_def unat_of_nat)
  show ?thesis
    using assms
    by (simp add: valid_message_def encode_request_def decode_request_def writer_defs Let_def
        codec_simps len REQUEST_FLAGS_KNOWN_def)
qed

lemma status_and_detailD:
  "status_and_detail e = (s, d) \<Longrightarrow> from_status s d = Inr e \<and> s \<noteq> 0"
  using from_status_round_trip [of e] status_nonzero [of e] by auto

lemma encode_hello_some:
  "encode_message (Hello magic lo hi inc features limit (Some a)) =
     KIND_HELLO # to_le_bytes 4 magic @ to_le_bytes 2 lo @ to_le_bytes 2 hi @ to_le_bytes 16 inc @
       to_le_bytes 8 features @ to_le_bytes 4 limit @ writer_socket_addr a []"
  by (simp add: encode_message_def writer_defs,
      subst writer_socket_addr_append, simp)

lemma encode_hello_none:
  "encode_message (Hello magic lo hi inc features limit None) =
     KIND_HELLO # to_le_bytes 4 magic @ to_le_bytes 2 lo @ to_le_bytes 2 hi @ to_le_bytes 16 inc @
       to_le_bytes 8 features @ to_le_bytes 4 limit @ [0]"
  by (simp add: encode_message_def writer_defs)

lemma encode_request_kind: "\<exists>t. encode_request r [] = KIND_REQUEST # t"
  by (simp add: encode_request_def writer_defs Let_def)

lemma decode_any_kind:
  "decode_any (KIND_HELLO # input) = decode_hello input"
  "decode_any (KIND_REQUEST # input) = decode_request input"
  by (simp_all add: decode_any_def codec_simps kind_defs)

lemma decode_any_round_trip: "valid_message m \<Longrightarrow> decode_any (encode_message m) = Inr m"
proof (cases m)
  case (Hello magic lo hi inc features limit listen)
  moreover assume "valid_message m"
  ultimately show ?thesis
    by (cases listen)
       (simp_all add: valid_message_def encode_hello_some encode_hello_none decode_any_kind
         decode_listen_round_trip decode_hello_none)
next
  case (Request r)
  obtain t where t: "encode_request r [] = KIND_REQUEST # t"
    using encode_request_kind by blast
  assume "valid_message m"
  then show ?thesis
    using Request decode_request_round_trip [of r]
    by (simp add: encode_message_def writer_new_def decode_any_kind t)
next
  case (Reply c outcome)
  then show ?thesis
    by (cases outcome)
       (auto simp: encode_message_def decode_any_def decode_reply_def writer_defs codec_simps
         kind_defs split: prod.splits dest!: status_and_detailD)
next
  case (StreamEnd c items err)
  then show ?thesis
    by (cases err)
       (auto simp: encode_message_def encode_stream_def decode_any_def decode_stream_def
         writer_defs codec_simps kind_defs split: prod.splits dest!: status_and_detailD)
qed (simp_all add: encode_message_def encode_stream_def decode_any_def decode_stream_def
       decode_liveness_def writer_defs codec_simps kind_defs)

lemma decode_message_at_round_trip:
  "valid_message m \<Longrightarrow> (case carried_error m of None \<Rightarrow> True | Some e \<Rightarrow> since e \<le> version) \<Longrightarrow>
   decode_message_at (encode_message m) version = Inr m"
  by (auto simp: decode_message_at_def decode_any_round_trip split: option.splits)

lemma writer_socket_addr_octets:
  "length octets = 4 \<Longrightarrow>
     writer_socket_addr (SocketV4 (from_le_bytes (rev octets)) port) [] = 4 # octets @ to_le_bytes 2 port"
  "length octets = 16 \<Longrightarrow>
     writer_socket_addr (SocketV6 (from_le_bytes (rev octets)) port f s) [] = 6 # octets @ to_le_bytes 2 port"
  by (simp_all add: writer_socket_addr_def writer_defs ipv4_octets_from_le ipv6_octets_from_le)

lemma decode_hello_sound:
  "decode_hello input = Inr m \<Longrightarrow> encode_message m = KIND_HELLO # input \<and> valid_message m"
  by (auto simp: decode_hello_def decode_listen_def result_simps reader_iff reader_slice_iff
      encode_hello_some encode_hello_none writer_socket_addr_octets valid_message_def unscoped_def
      split: if_splits)

lemma unat_u16_le: "unat (w :: u16) \<le> 65535"
  using unsigned_less [of w, where 'a = nat] by simp

lemma decode_request_sound:
  "decode_request input = Inr m \<Longrightarrow> encode_message m = KIND_REQUEST # input \<and> valid_message m"
  by (auto simp: decode_request_def result_simps reader_iff reader_slice_iff Let_def
      encode_message_def encode_request_def writer_defs valid_message_def REQUEST_FLAGS_KNOWN_def
      from_parts_def min_absorb1 unat_u16_le
      split: if_splits)

text \<open>Whether the bytes hold a detail word the message does not keep.\<close>

definition drops_detail :: "wire_message \<Rightarrow> bool" where
  "drops_detail m = (case carried_error m of None \<Rightarrow> False | Some e \<Rightarrow> detail_free e)"

lemma from_statusD:
  "from_status s d = Inr e \<Longrightarrow>
   fst (status_and_detail e) = s \<and> (detail_free e \<or> status_and_detail e = (s, d))"
  using from_status_sound [of s d e] by (cases "status_and_detail e") auto

lemma decode_reply_sound:
  "decode_reply input = Inr m \<Longrightarrow> drops_detail m \<or> encode_message m = KIND_REPLY # input"
  by (auto simp: decode_reply_def result_simps reader_iff encode_message_def writer_defs
      drops_detail_def carried_error_def split: if_splits prod.splits dest!: from_statusD)

lemma decode_stream_sound:
  "decode_stream kind input = Inr m \<Longrightarrow> drops_detail m \<or> encode_message m = kind # input"
  by (auto simp: decode_stream_def result_simps reader_iff encode_message_def encode_stream_def
      writer_defs drops_detail_def carried_error_def
      split: if_splits prod.splits dest!: from_statusD)

lemma decode_any_sound:
  assumes "decode_any payload = Inr m"
  shows "drops_detail m \<or> encode_message m = payload" "valid_message m"
proof -
  obtain kind input where p: "payload = kind # input"
    using assms by (auto simp: decode_any_def result_simps reader_iff)
  have live: "decode_liveness kind input = Inr m \<Longrightarrow> kind = KIND_PING \<or> kind = KIND_PONG \<Longrightarrow>
      encode_message m = kind # input"
    by (auto simp: decode_liveness_def result_simps reader_iff encode_message_def writer_defs
        split: if_splits)
  have valid: "valid_message m" if "kind \<noteq> KIND_HELLO" "kind \<noteq> KIND_REQUEST"
    using assms that
    by (auto simp: p decode_any_def decode_reply_def decode_liveness_def decode_stream_def
        result_simps reader_iff valid_message_def split: if_splits)
  show "drops_detail m \<or> encode_message m = payload" "valid_message m"
    using assms live valid
    by (auto simp: p decode_any_def reader_put split: if_splits
        dest: decode_hello_sound decode_request_sound decode_reply_sound decode_stream_sound)
qed

section \<open>Versions\<close>

lemma since_le_2: "1 \<le> since e" "since e \<le> 2"
  by (cases e; simp add: since_def)+

lemma for_version_since: "1 \<le> version \<Longrightarrow> since (for_version e version) \<le> version"
  by (cases e) (auto simp: for_version_def since_def not_le)

lemma for_version_2: "for_version e 2 = e"
  using since_le_2 [of e] by (simp add: for_version_def)

lemma negotiate_Some:
  "negotiate local peer = Some v \<longleftrightarrow>
     fst local \<le> v \<and> fst peer \<le> v \<and> v = min (snd local) (snd peer)"
  by (auto simp: negotiate_def Let_def)

section \<open>Sizes\<close>

lemmas envelope_len_defs = HELLO_ENVELOPE_LEN_def LIVENESS_ENVELOPE_LEN_def
  REJECTION_ENVELOPE_LEN_def request_envelope_len_def reply_envelope_len_def
  stream_request_envelope_len_def stream_item_envelope_len_def STREAM_END_ENVELOPE_LEN_def
  STREAM_ACK_ENVELOPE_LEN_def HEADER_LEN_def

lemma length_writer_socket_addr: "length (writer_socket_addr a out) \<le> length out + 19"
  by (cases a) (simp_all add: writer_socket_addr_def writer_defs)

lemma length_encode_request:
  "length (encode_request r []) =
     (if req_flags r AND REQUEST_FLAG_STREAM \<noteq> 0
      then stream_request_envelope_len (length (req_body r))
      else request_envelope_len (length (req_body r))) + min (length (req_metadata r)) 65535"
  by (simp add: encode_request_def writer_defs Let_def envelope_len_defs)

section \<open>Properties\<close>

text \<open>C5. Encoding a well-formed message and decoding the bytes on a session whose version defines
  the status it carries (if any) gives the message back, for every kind of message. Well-formed is
  what the encoder can represent: a listening address without flow label and scope, a metadata
  section of at most 65535 bytes, known request flags, and a credit window only with the stream
  flag.\<close>

theorem wire_round_trip:
  "valid_message m \<Longrightarrow>
   (case carried_error m of None \<Rightarrow> True | Some e \<Rightarrow> since e \<le> version) \<Longrightarrow>
   decode_message_at (encode_message m) version = Inr m"
  by (rule decode_message_at_round_trip)

definition sample_request :: request where
  "sample_request =
     \<lparr>req_call_id = 7, req_incarnation = 99, req_token = from_parts 3 1, req_interface = 0,
      req_interface_version = 0, req_method = 1701995620, req_schema = 1, req_codec = 1,
      req_flags = 2, req_stream_window = 65536, req_metadata = [1, 2, 0, 7, 7],
      req_body = [10, 20, 30]\<rparr>"

theorem wire_round_trip_witness:
  "decode_message_at (encode_message (Request sample_request)) 1 = Inr (Request sample_request)"
  by (rule wire_round_trip)
     (simp_all add: valid_message_def carried_error_def sample_request_def REQUEST_FLAGS_KNOWN_def
       REQUEST_FLAG_ONE_WAY_def REQUEST_FLAG_STREAM_def)



text \<open>C22. A rejection lowered to the version of the session it is sent on is one that version
  defines: a peer at that version decodes exactly the lowered status, which is the original one
  whenever the version already defined it.\<close>

theorem rejection_for_version:
  assumes "1 \<le> version"
  shows "decode_message_at (encode_message (Reply call_id (OutcomeErr (for_version e version)))) version
      = Inr (Reply call_id (OutcomeErr (for_version e version))) \<and>
    (since e \<le> version \<longleftrightarrow> for_version e version = e)"
proof
  show "decode_message_at (encode_message (Reply call_id (OutcomeErr (for_version e version)))) version
      = Inr (Reply call_id (OutcomeErr (for_version e version)))"
    by (rule decode_message_at_round_trip)
       (simp_all add: valid_message_def carried_error_def for_version_since assms)
  show "since e \<le> version \<longleftrightarrow> for_version e version = e"
    using for_version_since [OF assms, of e] by (auto simp: for_version_def)
qed

theorem rejection_for_version_witness:
  "decode_message_at (encode_message (Reply 9 (OutcomeErr Overloaded))) 1
     = Inr (Reply 9 (OutcomeErr Overloaded)) \<and> for_version ShuttingDown 1 = Overloaded"
proof -
  have "for_version ShuttingDown 1 = Overloaded" by code_simp
  then show ?thesis
    using rejection_for_version [of 1 9 ShuttingDown] by simp
qed

text \<open>Version negotiation returns the highest version both announced ranges contain, and refuses
  exactly when they have none in common.\<close>

theorem negotiate_highest_common:
  "negotiate local peer =
     (let common = {fst local..snd local} \<inter> {fst peer..snd peer}
      in if common = {} then None else Some (Max common))"
proof -
  have "Max {max (fst local) (fst peer)..min (snd local) (snd peer)} = min (snd local) (snd peer)"
    if "max (fst local) (fst peer) \<le> min (snd local) (snd peer)"
    using that by (intro Max_eqI) auto
  then show ?thesis
    by (auto simp: negotiate_def Let_def Int_atLeastAtMost)
qed

text \<open>The size formulas the transport budgets frames with are the sizes of the encodings.\<close>

theorem envelope_sizes:
  "length (encode_message (Hello magic lo hi inc features limit listen)) \<le> HELLO_ENVELOPE_LEN \<and>
   length (encode_message (Request r)) =
     (if req_flags r AND REQUEST_FLAG_STREAM \<noteq> 0
      then stream_request_envelope_len (length (req_body r))
      else request_envelope_len (length (req_body r))) + min (length (req_metadata r)) 65535 \<and>
   length (encode_message (Reply c (OutcomeOk codec body))) = reply_envelope_len (length body) \<and>
   length (encode_message (Reply c (OutcomeErr e))) = REJECTION_ENVELOPE_LEN \<and>
   length (encode_message (Ping nonce)) = LIVENESS_ENVELOPE_LEN \<and>
   length (encode_message (Pong nonce)) = LIVENESS_ENVELOPE_LEN \<and>
   length (encode_message (StreamItem c n codec body)) = stream_item_envelope_len (length body) \<and>
   length (encode_message (StreamEnd c n err)) = STREAM_END_ENVELOPE_LEN \<and>
   length (encode_message (StreamAck c n)) = STREAM_ACK_ENVELOPE_LEN \<and>
   length (encode_message (StreamCancel c)) \<le> STREAM_ACK_ENVELOPE_LEN"
proof -
  have "length (encode_message (Hello magic lo hi inc features limit listen)) \<le> HELLO_ENVELOPE_LEN"
    using length_writer_socket_addr [of "the listen" "[]"]
    by (cases listen) (simp_all add: encode_hello_some encode_hello_none envelope_len_defs)
  then show ?thesis
    by (simp add: encode_message_def encode_stream_def writer_new_def length_encode_request)
       (simp add: writer_defs envelope_len_defs split: prod.split)
qed

text \<open>Reading the length of the credential section off a request's prefix agrees with the
  encoding, so the transport can bound it before decoding the request.\<close>

theorem request_metadata_len_of_encoding:
  "request_metadata_len (encode_message (Request r)) = Some (min (length (req_metadata r)) 65535)"
proof -
  have len: "unat (of_nat (min (length (req_metadata r)) 65535) :: u16) = min (length (req_metadata r)) 65535"
    by (simp add: unat_of_nat)
  have skip: "reader_slice 50 (to_le_bytes 8 a @ to_le_bytes 16 b @ to_le_bytes 8 c @ to_le_bytes 4 d @
      to_le_bytes 4 e @ to_le_bytes 2 f @ to_le_bytes 4 g @ to_le_bytes 2 h @ to_le_bytes 2 i @ rest)
      = Some (to_le_bytes 8 a @ to_le_bytes 16 b @ to_le_bytes 8 c @ to_le_bytes 4 d @
      to_le_bytes 4 e @ to_le_bytes 2 f @ to_le_bytes 4 g @ to_le_bytes 2 h @ to_le_bytes 2 i, rest)"
    for a :: u64 and b :: u128 and c :: u64 and d :: u32 and e :: u32 and f :: u16 and g :: u32
      and h i :: u16 and rest
    by (simp add: reader_slice_iff)
  show ?thesis
    by (simp add: encode_message_def encode_request_def request_metadata_len_def writer_defs Let_def
        codec_simps skip len)
qed

end
