(* ===== verification/Rpc_Frame.thy ===== *)
theory Rpc_Frame
  imports Rpc_Wire
begin

text \<open>
  Length-prefixed, checksummed frames and their incremental parser
  (\<open>crates/moonpool-rpc/src/protocol/frame.rs\<close>), with the loop of a connection that feeds it
  (\<open>transport/connection.rs\<close>, \<open>read_loop\<close>). The XXH3-64 hash comes from another crate: it is the
  parameter \<open>xxh3\<close>, a function of the bytes fed to the hasher; only that it is a function is used.
  The facts: framing and parsing are inverse, the frames delivered do not depend on how the byte
  stream was split into reads, a decoder that failed delivers nothing more, and the bytes it holds
  are bounded by the configured frame limit.
\<close>

section \<open>Frames\<close>

datatype frame_error =
    FrameTooLarge nat u32 \<comment> \<open>size, limit\<close>
  | FrameEmpty
  | FrameChecksum u64 u64 \<comment> \<open>expected, computed\<close>

definition checksum :: "(bytes \<Rightarrow> u64) \<Rightarrow> bytes \<Rightarrow> bytes \<Rightarrow> u64" where
  "checksum xxh3 len payload = xxh3 (len @ payload)"

definition encode_frame :: "(bytes \<Rightarrow> u64) \<Rightarrow> bytes \<Rightarrow> u32 \<Rightarrow> frame_error + bytes" where
  "encode_frame xxh3 payload max_frame_bytes =
     (let size = length payload in
      if size > unat max_frame_bytes then Inl (FrameTooLarge size max_frame_bytes)
      else if payload = [] then Inl FrameEmpty
      else if \<not> size < 2 ^ 32 then Inl (FrameTooLarge size max_frame_bytes)
      else
        let len = to_le_bytes 4 (of_nat size :: u32)
        in Inr (len @ to_le_bytes 8 (checksum xxh3 len payload) @ payload))"

section \<open>The incremental parser\<close>

record frame_decoder =
  fd_buffer :: bytes
  fd_start :: nat
  fd_max_frame_bytes :: u32
  fd_failed :: "frame_error option"

definition decoder_new :: "u32 \<Rightarrow> frame_decoder" where
  "decoder_new m = \<lparr>fd_buffer = [], fd_start = 0, fd_max_frame_bytes = m, fd_failed = None\<rparr>"

definition feed :: "bytes \<Rightarrow> frame_decoder \<Rightarrow> frame_decoder" where
  "feed bs d =
     (let d = (if fd_start d > 0 \<and> fd_start d \<ge> length (fd_buffer d) div 2
               then d\<lparr>fd_buffer := drop (fd_start d) (fd_buffer d), fd_start := 0\<rparr> else d)
      in d\<lparr>fd_buffer := fd_buffer d @ bs\<rparr>)"

definition buffered :: "frame_decoder \<Rightarrow> nat" where
  "buffered d = length (fd_buffer d) - fd_start d"

definition is_idle :: "frame_decoder \<Rightarrow> bool" where
  "is_idle d = (buffered d = 0)"

definition usize_checked_add :: "nat \<Rightarrow> nat \<Rightarrow> nat option" where
  "usize_checked_add a b = (if a + b < 2 ^ 64 then Some (a + b) else None)"

definition next_frame ::
  "(bytes \<Rightarrow> u64) \<Rightarrow> frame_decoder \<Rightarrow> (frame_error + bytes option) \<times> frame_decoder" where
  "next_frame xxh3 d =
     (case fd_failed d of Some e \<Rightarrow> (Inl e, d) | None \<Rightarrow>
      (let pending = drop (fd_start d) (fd_buffer d) in
       if length pending < 4 then (Inr None, d)
       else
        let length_bytes = take 4 pending;
            len = from_le_bytes length_bytes :: u32;
            fail = (\<lambda>e. (Inl e, d\<lparr>fd_failed := Some e\<rparr>)) in
        if len > fd_max_frame_bytes d then fail (FrameTooLarge (unat len) (fd_max_frame_bytes d))
        else if len = 0 then fail FrameEmpty
        else (case usize_checked_add (unat len) HEADER_LEN of
            None \<Rightarrow> fail (FrameTooLarge (unat len) (fd_max_frame_bytes d))
          | Some whole \<Rightarrow>
              if length pending < whole then (Inr None, d)
              else
                let expected = from_le_bytes (bslice 4 8 pending) :: u64;
                    payload = bslice HEADER_LEN (whole - HEADER_LEN) pending;
                    computed = checksum xxh3 length_bytes payload in
                if computed \<noteq> expected then fail (FrameChecksum expected computed)
                else
                  let start = fd_start d + whole;
                      d = (if start = length (fd_buffer d)
                           then d\<lparr>fd_buffer := [], fd_start := 0\<rparr> else d\<lparr>fd_start := start\<rparr>)
                  in (Inr (Some payload), d))))"

section \<open>The invariant and the view of the decoder\<close>

text \<open>
  The decoder is a queue of unread bytes, \<open>pending\<close>, and a failure flag. \<open>decoder_ok\<close> is what the
  bslice \<open>self.buffer[self.start..]\<close> needs.
\<close>

definition pending :: "frame_decoder \<Rightarrow> bytes" where
  "pending d = drop (fd_start d) (fd_buffer d)"

definition decoder_ok :: "frame_decoder \<Rightarrow> bool" where
  "decoder_ok d = (fd_start d \<le> length (fd_buffer d))"

lemma pending_new [simp]: "pending (decoder_new m) = []" "decoder_ok (decoder_new m)"
  "fd_failed (decoder_new m) = None" "fd_max_frame_bytes (decoder_new m) = m"
  by (simp_all add: pending_def decoder_new_def decoder_ok_def)

lemma pending_failed [simp]:
  "pending (d\<lparr>fd_failed := x\<rparr>) = pending d" "decoder_ok (d\<lparr>fd_failed := x\<rparr>) = decoder_ok d"
  by (simp_all add: pending_def decoder_ok_def)

lemma feed_simps [simp]:
  "fd_failed (feed bs d) = fd_failed d"
  "fd_max_frame_bytes (feed bs d) = fd_max_frame_bytes d"
  by (simp_all add: feed_def Let_def)

lemma pending_feed [simp]: "decoder_ok d \<Longrightarrow> pending (feed bs d) = pending d @ bs"
  by (simp add: feed_def pending_def decoder_ok_def Let_def)

lemma decoder_ok_feed: "decoder_ok d \<Longrightarrow> decoder_ok (feed bs d)"
  by (simp add: feed_def decoder_ok_def Let_def)

lemma buffered_pending: "buffered d = length (pending d)"
  by (simp add: buffered_def pending_def)

text \<open>What the next frame of a byte string is, as a function of the bytes alone.\<close>

datatype frame_view = NeedMore | BadFrame frame_error | GoodFrame bytes bytes

definition view_frame :: "(bytes \<Rightarrow> u64) \<Rightarrow> u32 \<Rightarrow> bytes \<Rightarrow> frame_view" where
  "view_frame xxh3 m bs =
     (if length bs < 4 then NeedMore
      else
        let len = from_le_bytes (take 4 bs) :: u32; whole = unat len + HEADER_LEN in
        if len > m then BadFrame (FrameTooLarge (unat len) m)
        else if len = 0 then BadFrame FrameEmpty
        else if length bs < whole then NeedMore
        else
          let payload = bslice HEADER_LEN (unat len) bs;
              expected = from_le_bytes (bslice 4 8 bs); computed = xxh3 (take 4 bs @ payload) in
          if computed \<noteq> expected then BadFrame (FrameChecksum expected computed)
          else GoodFrame payload (drop whole bs))"

lemma usize_total: "usize_checked_add (unat (len :: u32)) HEADER_LEN = Some (unat len + HEADER_LEN)"
  using unsigned_less [of len, where 'a = nat] by (simp add: usize_checked_add_def HEADER_LEN_def)

lemma next_frame_view:
  assumes "decoder_ok d" and "fd_failed d = None"
  shows "case view_frame xxh3 (fd_max_frame_bytes d) (pending d) of
      NeedMore \<Rightarrow> next_frame xxh3 d = (Inr None, d)
    | BadFrame e \<Rightarrow> next_frame xxh3 d = (Inl e, d\<lparr>fd_failed := Some e\<rparr>)
    | GoodFrame p rest \<Rightarrow>
        (\<exists>d'. next_frame xxh3 d = (Inr (Some p), d') \<and> pending d' = rest \<and> decoder_ok d' \<and>
           fd_failed d' = None \<and> fd_max_frame_bytes d' = fd_max_frame_bytes d)"
  using assms
  by (auto simp: next_frame_def view_frame_def Let_def usize_total checksum_def pending_def
      decoder_ok_def add.commute)

lemma view_frame_shrinks: "view_frame xxh3 m bs = GoodFrame p rest \<Longrightarrow> length rest < length bs"
  by (auto simp: view_frame_def Let_def HEADER_LEN_def split: if_splits)

text \<open>More input never changes a verdict that was already reached.\<close>

lemma view_frame_extend:
  "view_frame xxh3 m bs = GoodFrame p rest \<Longrightarrow> view_frame xxh3 m (bs @ ys) = GoodFrame p (rest @ ys)"
  "view_frame xxh3 m bs = BadFrame e \<Longrightarrow> view_frame xxh3 m (bs @ ys) = BadFrame e"
  by (auto simp: view_frame_def Let_def HEADER_LEN_def bslice_def split: if_splits)

section \<open>The frames of a byte stream\<close>

text \<open>
  The reference: the payloads of a whole byte string, the bytes left over and the error that ended
  it, if one did.
\<close>

function parse_stream :: "(bytes \<Rightarrow> u64) \<Rightarrow> u32 \<Rightarrow> bytes \<Rightarrow> bytes list \<times> bytes \<times> frame_error option" where
  "parse_stream xxh3 m bs =
     (case view_frame xxh3 m bs of
        NeedMore \<Rightarrow> ([], bs, None)
      | BadFrame e \<Rightarrow> ([], bs, Some e)
      | GoodFrame p rest \<Rightarrow>
          (case parse_stream xxh3 m rest of (ps, left, err) \<Rightarrow> (p # ps, left, err)))"
  by pat_completeness auto
termination
  by (relation "measure (\<lambda>(_, _, bs). length bs)") (auto dest: view_frame_shrinks)

declare parse_stream.simps [simp del]

lemma parse_stream_extend:
  "parse_stream xxh3 m bs = (ps, left, None) \<Longrightarrow>
     parse_stream xxh3 m (bs @ ys) =
       (case parse_stream xxh3 m (left @ ys) of (qs, left', err) \<Rightarrow> (ps @ qs, left', err))"
  "parse_stream xxh3 m bs = (ps, left, Some e) \<Longrightarrow>
     parse_stream xxh3 m (bs @ ys) = (ps, left @ ys, Some e)"
proof (induction xxh3 m bs arbitrary: ps rule: parse_stream.induct)
  case (1 xxh3 m bs)
  {
    case 1
    show ?case
    proof (cases "view_frame xxh3 m bs")
      case NeedMore
      with 1 show ?thesis by (simp add: parse_stream.simps [of xxh3 m bs])
    next
      case (BadFrame e)
      with 1 show ?thesis by (simp add: parse_stream.simps [of xxh3 m bs])
    next
      case (GoodFrame p rest)
      with 1 obtain qs where qs: "parse_stream xxh3 m rest = (qs, left, None)" "ps = p # qs"
        by (auto simp: parse_stream.simps [of xxh3 m bs] split: prod.splits)
      show ?thesis
        using "1.IH"(1) [OF GoodFrame qs(1)] GoodFrame
        by (simp add: parse_stream.simps [of xxh3 m "bs @ ys"] view_frame_extend qs(2) split: prod.splits)
    qed
  next
    case 2
    show ?case
    proof (cases "view_frame xxh3 m bs")
      case NeedMore
      with 2 show ?thesis by (simp add: parse_stream.simps [of xxh3 m bs])
    next
      case (BadFrame e')
      with 2 have "ps = []" "left = bs" "e' = e"
        by (simp_all add: parse_stream.simps [of xxh3 m bs])
      with BadFrame show ?thesis
        by (simp add: parse_stream.simps [of xxh3 m "bs @ ys"] view_frame_extend)
    next
      case (GoodFrame p rest)
      with 2 obtain qs where qs: "parse_stream xxh3 m rest = (qs, left, Some e)" "ps = p # qs"
        by (auto simp: parse_stream.simps [of xxh3 m bs] split: prod.splits)
      show ?thesis
        using "1.IH"(2) [OF GoodFrame qs(1)] GoodFrame
        by (simp add: parse_stream.simps [of xxh3 m "bs @ ys"] view_frame_extend qs(2))
    qed
  }
qed

section \<open>The read loop of a connection\<close>

text \<open>
  \<open>on_frame\<close> is the connection's handler: it updates the connection's state and may close it. The
  messages of a close reason are the values they are rendered from. A \<open>read\<close> of zero bytes is the end
  of the stream. Yielding between batches of frames does not change any state and is not modelled.
\<close>

datatype close_reason =
    PeerClosed
  | CloseIo string
  | CloseProtocol frame_error
  | CloseEndedInsideFrame nat
  | CloseChecksum frame_error
  | CloseHandler string

lemma next_frame_shrinks: "next_frame xxh3 d = (Inr (Some p), d') \<Longrightarrow> buffered d' < buffered d"
  by (auto simp: next_frame_def Let_def usize_total [unfolded HEADER_LEN_def] buffered_def
      HEADER_LEN_def split: option.splits if_splits)

function read_frames ::
  "(bytes \<Rightarrow> u64) \<Rightarrow> (bytes \<Rightarrow> 's \<Rightarrow> 's \<times> close_reason option) \<Rightarrow> frame_decoder \<Rightarrow> 's
     \<Rightarrow> 's \<times> frame_decoder \<times> close_reason option" where
  "read_frames xxh3 on_frame d s =
     (case next_frame xxh3 d of
        (Inr (Some payload), d') \<Rightarrow>
          (case on_frame payload s of
              (s', Some reason) \<Rightarrow> (s', d', Some reason)
            | (s', None) \<Rightarrow> read_frames xxh3 on_frame d' s')
      | (Inr None, d') \<Rightarrow> (s, d', None)
      | (Inl (FrameChecksum a b), d') \<Rightarrow> (s, d', Some (CloseChecksum (FrameChecksum a b)))
      | (Inl e, d') \<Rightarrow> (s, d', Some (CloseProtocol e)))"
  by pat_completeness auto
termination
  by (relation "measure (\<lambda>(_, _, d, _). buffered d)") (auto dest: next_frame_shrinks [OF sym])

declare read_frames.simps [simp del]

fun read_loop ::
  "(bytes \<Rightarrow> u64) \<Rightarrow> (bytes \<Rightarrow> 's \<Rightarrow> 's \<times> close_reason option) \<Rightarrow> (string + bytes) list
     \<Rightarrow> frame_decoder \<Rightarrow> 's \<Rightarrow> 's \<times> frame_decoder \<times> close_reason option" where
  "read_loop xxh3 on_frame [] d s = (s, d, None)"
| "read_loop xxh3 on_frame (read # reads) d s =
     (case read of
        Inl error \<Rightarrow> (s, d, Some (CloseIo error))
      | Inr chunk \<Rightarrow>
          if chunk = [] then
            (s, d, Some (if is_idle d then PeerClosed else CloseEndedInsideFrame (buffered d)))
          else
            (case read_frames xxh3 on_frame (feed chunk d) s of
               (s', d', Some reason) \<Rightarrow> (s', d', Some reason)
             | (s', d', None) \<Rightarrow> read_loop xxh3 on_frame reads d' s'))"

text \<open>The handler that keeps every payload and closes nothing.\<close>

definition collect :: "bytes \<Rightarrow> bytes list \<Rightarrow> bytes list \<times> close_reason option" where
  "collect p ps = (ps @ [p], None)"

definition close_of :: "frame_error \<Rightarrow> close_reason" where
  "close_of e = (case e of FrameChecksum _ _ \<Rightarrow> CloseChecksum e | _ \<Rightarrow> CloseProtocol e)"

lemma read_frames_collect:
  assumes "decoder_ok d" and "fd_failed d = None"
    and "parse_stream xxh3 (fd_max_frame_bytes d) (pending d) = (ps, left, err)"
  shows "\<exists>d'. read_frames xxh3 collect d acc = (acc @ ps, d', map_option close_of err) \<and>
    pending d' = left \<and> decoder_ok d' \<and> fd_failed d' = err \<and>
    fd_max_frame_bytes d' = fd_max_frame_bytes d"
  using assms
proof (induction xxh3 "fd_max_frame_bytes d" "pending d" arbitrary: d acc ps rule: parse_stream.induct)
  case (1 xxh3 d acc ps)
  let ?m = "fd_max_frame_bytes d"
  note view = next_frame_view [OF "1.prems"(1,2), of xxh3]
  show ?case
  proof (cases "view_frame xxh3 ?m (pending d)")
    case NeedMore
    with view "1.prems" show ?thesis
      by (auto simp: read_frames.simps [of xxh3 _ d] parse_stream.simps [of xxh3 ?m "pending d"])
  next
    case (BadFrame e)
    with view "1.prems" show ?thesis
      by (auto simp: read_frames.simps [of xxh3 _ d] parse_stream.simps [of xxh3 ?m "pending d"]
          close_of_def split: frame_error.splits)
  next
    case (GoodFrame p rest)
    with view obtain d1 where d1: "next_frame xxh3 d = (Inr (Some p), d1)" "pending d1 = rest"
      "decoder_ok d1" "fd_failed d1 = None" "fd_max_frame_bytes d1 = ?m"
      by auto
    from GoodFrame "1.prems"(3) obtain qs where
      qs: "parse_stream xxh3 ?m rest = (qs, left, err)" "ps = p # qs"
      by (auto simp: parse_stream.simps [of xxh3 ?m "pending d"] split: prod.splits)
    have "read_frames xxh3 collect d acc = read_frames xxh3 collect d1 (acc @ [p])"
      by (simp add: read_frames.simps [of xxh3 _ d] d1(1) collect_def)
    then show ?thesis
      using "1.hyps" [of p d1 qs "acc @ [p]", OF _ d1(5) [symmetric] d1(3,4)] GoodFrame
      by (simp add: d1 qs)
  qed
qed

lemma parse_stream_left_stuck:
  "parse_stream xxh3 m bs = (ps, left, None) \<Longrightarrow> view_frame xxh3 m left = NeedMore"
proof (induction xxh3 m bs arbitrary: ps rule: parse_stream.induct)
  case (1 xxh3 m bs)
  then show ?case
    by (auto simp: parse_stream.simps [of xxh3 m bs] split: frame_view.splits prod.splits)
qed

lemma parse_stream_left: "parse_stream xxh3 m bs = (ps, left, None) \<Longrightarrow> parse_stream xxh3 m left = ([], left, None)"
  by (simp add: parse_stream.simps [of xxh3 m left] parse_stream_left_stuck)

lemma read_loop_collect:
  assumes "decoder_ok d" and "fd_failed d = None"
    and "parse_stream xxh3 (fd_max_frame_bytes d) (pending d) = ([], pending d, None)"
    and "parse_stream xxh3 (fd_max_frame_bytes d) (pending d @ concat chunks) = (ps, left, err)"
    and "[] \<notin> set chunks"
  shows "\<exists>d'. read_loop xxh3 collect (map Inr chunks) d acc = (acc @ ps, d', map_option close_of err)
    \<and> fd_failed d' = err \<and> decoder_ok d' \<and> (err = None \<longrightarrow> pending d' = left)"
  using assms
proof (induction chunks arbitrary: d acc ps left err)
  case Nil
  then show ?case by simp
next
  case (Cons chunk chunks)
  let ?m = "fd_max_frame_bytes d"
  obtain qs l1 e1 where p1: "parse_stream xxh3 ?m (pending d @ chunk) = (qs, l1, e1)"
    by (cases "parse_stream xxh3 ?m (pending d @ chunk)") auto
  have "\<exists>d1. read_frames xxh3 collect (feed chunk d) acc = (acc @ qs, d1, map_option close_of e1) \<and>
      pending d1 = l1 \<and> decoder_ok d1 \<and> fd_failed d1 = e1 \<and> fd_max_frame_bytes d1 = ?m"
    using read_frames_collect [of "feed chunk d" xxh3 qs l1 e1 acc] Cons.prems(1,2) p1
    by (simp add: decoder_ok_feed)
  then obtain d1 where d1: "read_frames xxh3 collect (feed chunk d) acc = (acc @ qs, d1, map_option close_of e1)"
      "pending d1 = l1" "decoder_ok d1" "fd_failed d1 = e1" "fd_max_frame_bytes d1 = ?m"
    by blast
  have chunk: "chunk \<noteq> []" using Cons.prems(5) by auto
  show ?case
  proof (cases e1)
    case (Some e)
    then show ?thesis
      using d1 chunk Cons.prems(4) parse_stream_extend(2) [OF p1 [unfolded Some], of "concat chunks"]
      by simp
  next
    case None
    from parse_stream_extend(1) [OF p1 [unfolded None], of "concat chunks"] Cons.prems(4)
    obtain ps' where ps': "parse_stream xxh3 ?m (l1 @ concat chunks) = (ps', left, err)" "ps = qs @ ps'"
      by (auto split: prod.splits)
    then show ?thesis
      using d1 chunk Cons.prems(5) None parse_stream_left [OF p1 [unfolded None]]
        Cons.IH [of d1 ps' left err "acc @ qs"]
      by simp
  qed
qed

section \<open>Framed payloads parse back\<close>

lemma view_frame_encode:
  assumes "encode_frame xxh3 p m = Inr f"
  shows "view_frame xxh3 m (f @ rest) = GoodFrame p rest"
proof -
  from assms have len: "length p \<le> unat m" "p \<noteq> []" "length p < 2 ^ 32"
    and f: "f = to_le_bytes 4 (of_nat (length p) :: u32) @
      to_le_bytes 8 (xxh3 (to_le_bytes 4 (of_nat (length p) :: u32) @ p)) @ p"
    by (auto simp: encode_frame_def Let_def checksum_def split: if_splits)
  have n: "unat (of_nat (length p) :: u32) = length p"
    using len by (simp add: unat_of_nat)
  have pos: "(of_nat (length p) :: u32) \<noteq> 0"
    using n len by (metis length_0_conv unat_0)
  show ?thesis
    using len n pos
    by (simp add: view_frame_def f Let_def from_le_to_le bslice_def HEADER_LEN_def word_less_nat_alt)
qed

lemma parse_stream_encode:
  "list_all2 (\<lambda>p f. encode_frame xxh3 p m = Inr f) ps fs \<Longrightarrow>
   parse_stream xxh3 m (concat fs) = (ps, [], None)"
proof (induction rule: list_all2_induct)
  case Nil
  then show ?case by (simp add: parse_stream.simps view_frame_def)
next
  case (Cons p ps f fs)
  then show ?case
    by (simp add: parse_stream.simps [of xxh3 m "f @ concat fs"] view_frame_encode)
qed

lemma view_frame_sound:
  assumes "view_frame xxh3 m bs = GoodFrame p rest"
  shows "\<exists>f. encode_frame xxh3 p m = Inr f \<and> bs = f @ rest"
proof -
  define len :: u32 where "len = from_le_bytes (take 4 bs)"
  from assms have l: "length bs \<ge> unat len + 12" "len \<le> m" "len \<noteq> 0"
    and p: "p = bslice 12 (unat len) bs" and rest: "rest = drop (unat len + 12) bs"
    and sum: "xxh3 (take 4 bs @ p) = from_le_bytes (bslice 4 8 bs)"
    by (auto simp: view_frame_def Let_def len_def [symmetric] HEADER_LEN_def split: if_splits)
  have plen: "length p = unat len" using l by (simp add: p)
  have head: "to_le_bytes 4 len = take 4 bs"
    using to_le_from_le [of "take 4 bs", where 'a = 32] l by (simp add: len_def)
  have mid: "to_le_bytes 8 (from_le_bytes (bslice 4 8 bs) :: u64) = bslice 4 8 bs"
    using to_le_from_le [of "bslice 4 8 bs", where 'a = 64] l by simp
  have nz: "unat len \<noteq> 0" "unat len < 4294967296" "unat len \<le> unat m"
    using l unsigned_less [of len, where 'a = nat] by (simp_all add: unat_eq_zero word_le_nat_alt)
  have "encode_frame xxh3 p m = Inr (take 4 bs @ bslice 4 8 bs @ p)"
    using nz plen by (auto simp: encode_frame_def Let_def checksum_def head sum mid)
  moreover have "bs = (take 4 bs @ bslice 4 8 bs @ p) @ rest"
    using append_take_drop_id [of 4 bs] append_take_drop_id [of 8 "drop 4 bs"]
      append_take_drop_id [of "unat len" "drop 12 bs"]
    by (simp add: p rest bslice_def del: append_take_drop_id)
  ultimately show ?thesis by blast
qed

lemma parse_stream_left_bound:
  "parse_stream xxh3 m bs = (ps, left, None) \<Longrightarrow> length left < HEADER_LEN + unat m + 1"
  using parse_stream_left_stuck [of xxh3 m bs ps left]
  by (auto simp: view_frame_def Let_def HEADER_LEN_def word_less_nat_alt split: if_splits)

section \<open>Properties\<close>

text \<open>C6. Split points never change what is delivered: two ways of cutting the same byte stream into
  non-empty reads deliver the same payloads in the same order and close the connection for the same
  reason (or not at all).\<close>

theorem frame_split_independent:
  assumes "concat chunks = concat chunks'" and "[] \<notin> set chunks" and "[] \<notin> set chunks'"
  shows "(case read_loop xxh3 collect (map Inr chunks) (decoder_new m) [] of (ps, _, why) \<Rightarrow> (ps, why)) =
    (case read_loop xxh3 collect (map Inr chunks') (decoder_new m) [] of (ps, _, why) \<Rightarrow> (ps, why))"
proof -
  obtain ps left err where p: "parse_stream xxh3 m (concat chunks) = (ps, left, err)"
    by (cases "parse_stream xxh3 m (concat chunks)") auto
  have empty: "parse_stream xxh3 m [] = ([], [], None)"
    by (simp add: parse_stream.simps view_frame_def)
  show ?thesis
    using read_loop_collect [of "decoder_new m" xxh3 chunks ps left err "[]"]
      read_loop_collect [of "decoder_new m" xxh3 chunks' ps left err "[]"] p empty assms
    by auto
qed

theorem frame_split_independent_witness:
  "(case read_loop (\<lambda>_. 0) collect (map Inr [[1], [0, 0, 0, 0, 0, 0, 0, 0, 0, 0, 0, 9]]) (decoder_new 4) []
      of (ps, _, why) \<Rightarrow> (ps, why)) =
   (case read_loop (\<lambda>_. 0) collect (map Inr [[1, 0, 0, 0, 0, 0, 0, 0, 0, 0, 0, 0], [9]]) (decoder_new 4) []
      of (ps, _, why) \<Rightarrow> (ps, why))"
  by (rule frame_split_independent) simp_all

text \<open>C17. Framing round trip: payloads framed within the limit, sent back to back and received in
  reads of any sizes are delivered exactly, in order, with nothing left over and the connection
  open.\<close>

theorem frame_round_trip:
  assumes "list_all2 (\<lambda>p f. encode_frame xxh3 p m = Inr f) payloads frames"
    and "concat chunks = concat frames" and "[] \<notin> set chunks"
  shows "\<exists>d. read_loop xxh3 collect (map Inr chunks) (decoder_new m) [] = (payloads, d, None) \<and> is_idle d"
  using read_loop_collect [of "decoder_new m" xxh3 chunks payloads "[]" None "[]"]
    parse_stream_encode [OF assms(1)] assms(2,3)
  by (auto simp: is_idle_def buffered_pending parse_stream.simps [of xxh3 m "[]"] view_frame_def)

theorem frame_round_trip_witness:
  "\<exists>d. read_loop (\<lambda>bs. of_nat (length bs)) collect
      (map Inr [[2, 0, 0, 0, 6, 0, 0], [0, 0, 0, 0, 0, 7, 8, 1, 0, 0, 0, 5, 0, 0, 0, 0, 0, 0, 0, 9]])
      (decoder_new 16) [] = ([[7, 8], [9]], d, None) \<and> is_idle d"
  by (rule frame_round_trip [where frames =
        "[[2, 0, 0, 0, 6, 0, 0, 0, 0, 0, 0, 0, 7, 8], [1, 0, 0, 0, 5, 0, 0, 0, 0, 0, 0, 0, 9]]"])
     (simp_all add: encode_frame_def checksum_def le_bytes_eval)

text \<open>C13. Integrity: a payload is delivered only if the bytes consumed for it are exactly the frame
  that encoding it produces, length and checksum included.\<close>

theorem frame_integrity:
  assumes "decoder_ok d" and "next_frame xxh3 d = (Inr (Some payload), d')"
  shows "\<exists>f. encode_frame xxh3 payload (fd_max_frame_bytes d) = Inr f \<and> pending d = f @ pending d'"
proof -
  have "fd_failed d = None"
    using assms(2) by (auto simp: next_frame_def split: option.splits)
  with assms next_frame_view [OF assms(1), of xxh3] obtain rest where
    "view_frame xxh3 (fd_max_frame_bytes d) (pending d) = GoodFrame payload rest" "pending d' = rest"
    by (auto split: frame_view.splits)
  then show ?thesis using view_frame_sound by blast
qed

theorem frame_integrity_witness:
  "\<exists>f. encode_frame (\<lambda>_. 0) [9] 4 = Inr f \<and> [1, 0, 0, 0, 0, 0, 0, 0, 0, 0, 0, 0, 9, 5] = f @ [5]"
proof -
  let ?d = "\<lparr>fd_buffer = [1, 0, 0, 0, 0, 0, 0, 0, 0, 0, 0, 0, 9, 5], fd_start = 0,
       fd_max_frame_bytes = 4, fd_failed = None\<rparr>"
  have "next_frame (\<lambda>_. 0) ?d = (Inr (Some [9]), ?d\<lparr>fd_start := 13\<rparr>)"
    by (simp add: next_frame_def checksum_def usize_checked_add_def HEADER_LEN_def bslice_def
        le_bytes_eval)
  from frame_integrity [OF _ this] show ?thesis
    by (simp add: decoder_ok_def pending_def)
qed

text \<open>C18. A decoder that lost framing stays lost: whatever is fed afterwards, every call returns the
  same error and delivers nothing.\<close>

theorem frame_failure_permanent:
  assumes "next_frame xxh3 d = (Inl e, d')"
  shows "fst (next_frame xxh3 (fold feed chunks d')) = Inl e"
proof -
  have failed: "fd_failed d' = Some e"
    using assms by (auto simp: next_frame_def Let_def split: option.splits if_splits)
  have "fd_failed (fold feed chunks d') = Some e"
    using failed by (induction chunks arbitrary: d') simp_all
  then show ?thesis by (simp add: next_frame_def)
qed

theorem frame_failure_permanent_witness:
  "fst (next_frame (\<lambda>_. 0) (fold feed [[1, 2], [3]]
     \<lparr>fd_buffer = [9, 0, 0, 0], fd_start = 0, fd_max_frame_bytes = 4,
      fd_failed = Some (FrameTooLarge 9 4)\<rparr>)) = Inl (FrameTooLarge 9 4)"
  by (rule frame_failure_permanent [of _
      "\<lparr>fd_buffer = [9, 0, 0, 0], fd_start = 0, fd_max_frame_bytes = 4, fd_failed = None\<rparr>"])
     (simp add: next_frame_def le_bytes_eval)



end
