(* ===== verification/Rpc_Credit.thy ===== *)
theory Rpc_Credit
  imports Prelude
begin

text \<open>
  Checked stream credit (\<open>crates/moonpool-rpc/src/stream/credit.rs\<close>): the producer's reservations and
  acknowledgement validation (\<open>Credit\<close>) and the consumer's intake (\<open>Intake\<close>). Counters are the 64-bit
  words of the code and every operation keeps the code's order of checks. The two sides are then put
  together over a channel that delivers items in order and may coalesce the cumulative
  acknowledgements, as the transport does: neither side ever accuses the other of a protocol
  violation, and the consumer never buffers more than the window it announced.
\<close>

section \<open>The producer's credit\<close>

datatype refusal = RefusalTooLarge u64 u64 | RefusalWait | RefusalOverflow

datatype ack_outcome = AckAdvanced | AckDuplicate

datatype ack_violation = AckRegressing u64 u64 | AckExcess u64 u64 | AckMisaligned u64

record credit =
  cr_window :: u64
  cr_sent :: u64
  cr_acked :: u64
  cr_boundaries :: "u64 list"
  cr_next_sequence :: u64

definition credit_starting_at :: "u64 \<Rightarrow> u64 \<Rightarrow> u64 \<Rightarrow> credit" where
  "credit_starting_at window start sequence =
     \<lparr>cr_window = window, cr_sent = start, cr_acked = start, cr_boundaries = [],
      cr_next_sequence = sequence\<rparr>"

definition credit_new :: "u64 \<Rightarrow> credit" where
  "credit_new window = credit_starting_at window 0 0"

definition limit_window :: "u64 \<Rightarrow> credit \<Rightarrow> credit" where
  "limit_window limit c = c\<lparr>cr_window := min (cr_window c) limit\<rparr>"

definition in_flight :: "credit \<Rightarrow> u64" where
  "in_flight c = cr_sent c - cr_acked c"

definition credit_items :: "credit \<Rightarrow> u64" where
  "credit_items c = cr_next_sequence c"

definition has_room :: "credit \<Rightarrow> bool" where
  "has_room c = (in_flight c < cr_window c)"

definition reserve :: "u64 \<Rightarrow> credit \<Rightarrow> (refusal + u64) \<times> credit" where
  "reserve sz c =
     (if sz > cr_window c then (Inl (RefusalTooLarge sz (cr_window c)), c)
      else case checked_add (cr_sent c) sz of None \<Rightarrow> (Inl RefusalOverflow, c)
      | Some sent \<Rightarrow>
        (case checked_add (cr_next_sequence c) 1 of None \<Rightarrow> (Inl RefusalOverflow, c)
         | Some seq' \<Rightarrow>
           if sent - cr_acked c > cr_window c then (Inl RefusalWait, c)
           else (Inr (cr_next_sequence c),
                 c\<lparr>cr_sent := sent, cr_next_sequence := seq',
                   cr_boundaries := cr_boundaries c @ [sent]\<rparr>)))"

text \<open>
  \<open>VecDeque::binary_search\<close> on a strictly increasing queue, which \<open>boundaries\<close> always is: the index
  of the value if it occurs.
\<close>

fun binary_search :: "'a \<Rightarrow> 'a list \<Rightarrow> nat option" where
  "binary_search x [] = None"
| "binary_search x (y # ys) = (if x = y then Some 0 else map_option Suc (binary_search x ys))"

definition ack :: "u64 \<Rightarrow> credit \<Rightarrow> (ack_violation + ack_outcome) \<times> credit" where
  "ack consumed c =
     (if consumed = cr_acked c then (Inr AckDuplicate, c)
      else if consumed < cr_acked c then (Inl (AckRegressing (cr_acked c) consumed), c)
      else if consumed > cr_sent c then (Inl (AckExcess (cr_sent c) consumed), c)
      else case binary_search consumed (cr_boundaries c) of
        Some i \<Rightarrow>
          (Inr AckAdvanced,
           c\<lparr>cr_boundaries := drop (Suc i) (cr_boundaries c), cr_acked := consumed\<rparr>)
      | None \<Rightarrow> (Inl (AckMisaligned consumed), c))"

section \<open>The consumer's intake\<close>

datatype intake_violation =
    IntakeGap u64 u64 | IntakeReordered u64 u64 | IntakeOverflow
  | IntakeWindowExceeded u64 u64 | IntakeCountMismatch u64 u64

record intake =
  in_window :: u64
  in_next_sequence :: u64
  in_received :: u64
  in_consumed :: u64

definition intake_starting_at :: "u64 \<Rightarrow> u64 \<Rightarrow> u64 \<Rightarrow> intake" where
  "intake_starting_at window start sequence =
     \<lparr>in_window = window, in_next_sequence = sequence, in_received = start, in_consumed = start\<rparr>"

definition intake_new :: "u64 \<Rightarrow> intake" where
  "intake_new window = intake_starting_at window 0 0"

definition intake_buffered :: "intake \<Rightarrow> u64" where
  "intake_buffered i = in_received i - in_consumed i"

definition intake_items :: "intake \<Rightarrow> u64" where
  "intake_items i = in_next_sequence i"

definition accept :: "u64 \<Rightarrow> u64 \<Rightarrow> intake \<Rightarrow> (intake_violation + unit) \<times> intake" where
  "accept sequence sz i =
     (let expected = in_next_sequence i in
      if sequence > expected then (Inl (IntakeGap expected sequence), i)
      else if sequence < expected then (Inl (IntakeReordered expected sequence), i)
      else case checked_add (in_received i) sz of None \<Rightarrow> (Inl IntakeOverflow, i)
      | Some received \<Rightarrow>
        (case checked_add expected 1 of None \<Rightarrow> (Inl IntakeOverflow, i)
         | Some seq' \<Rightarrow>
           let buffered = received - in_consumed i in
           if buffered > in_window i then (Inl (IntakeWindowExceeded buffered (in_window i)), i)
           else (Inr (), i\<lparr>in_received := received, in_next_sequence := seq'\<rparr>)))"

definition consume :: "u64 \<Rightarrow> intake \<Rightarrow> u64 \<times> intake" where
  "consume sz i =
     (let consumed = min (saturating_add (in_consumed i) sz) (in_received i)
      in (consumed, i\<lparr>in_consumed := consumed\<rparr>))"

definition intake_end :: "u64 \<Rightarrow> intake \<Rightarrow> intake_violation + unit" where
  "intake_end items i =
     (if items = in_next_sequence i then Inr ()
      else Inl (IntakeCountMismatch items (in_next_sequence i)))"

section \<open>Item boundaries\<close>

text \<open>The cumulative counter after each of the items \<open>xs\<close>, starting from \<open>a\<close>.\<close>

fun psums :: "nat \<Rightarrow> nat list \<Rightarrow> nat list" where
  "psums a [] = []"
| "psums a (x # xs) = (a + x) # psums (a + x) xs"

lemma length_psums [simp]: "length (psums a xs) = length xs"
  by (induction xs arbitrary: a) auto

lemma psums_append: "psums a (xs @ ys) = psums a xs @ psums (a + sum_list xs) ys"
  by (induction xs arbitrary: a) (auto simp: add.assoc)

lemma psums_gt: "0 \<notin> set xs \<Longrightarrow> y \<in> set (psums a xs) \<Longrightarrow> a < y \<and> y \<le> a + sum_list xs"
proof (induction xs arbitrary: a)
  case Nil
  then show ?case by simp
next
  case (Cons x xs)
  then have "y = a + x \<or> y \<in> set (psums (a + x) xs)" "0 < x" "0 \<notin> set xs" by auto
  with Cons.IH [of "a + x"] show ?case by auto
qed

lemma psums_split:
  "y \<in> set (psums a xs) \<Longrightarrow> \<exists>us vs. xs = us @ vs \<and> y = a + sum_list us \<and> us \<noteq> []"
proof (induction xs arbitrary: a)
  case Nil
  then show ?case by simp
next
  case (Cons x xs)
  show ?case
  proof (cases "y = a + x")
    case True
    then show ?thesis by (intro exI [of _ "[x]"] exI [of _ xs]) simp
  next
    case False
    with Cons.prems have "y \<in> set (psums (a + x) xs)" by simp
    from Cons.IH [OF this] obtain us vs where "xs = us @ vs" "y = a + x + sum_list us" by blast
    then show ?thesis by (intro exI [of _ "x # us"] exI [of _ vs]) (simp add: add.assoc)
  qed
qed

lemma binary_search_psums:
  "0 \<notin> set us \<Longrightarrow> us \<noteq> [] \<Longrightarrow> map unat bs = psums a (us @ vs) \<Longrightarrow> unat y = a + sum_list us \<Longrightarrow>
   binary_search y bs = Some (length us - 1)" for y :: u64
proof (induction us arbitrary: a bs)
  case Nil
  then show ?case by simp
next
  case (Cons u us)
  from Cons.prems(3) obtain b bs' where bs: "bs = b # bs'" "unat b = a + u" "map unat bs' = psums (a + u) (us @ vs)"
    by (cases bs) auto
  show ?case
  proof (cases "us = []")
    case True
    with Cons.prems(4) bs(2) have "y = b" by (simp add: word_unat_eq_iff)
    with True bs show ?thesis by simp
  next
    case False
    then have "0 < sum_list us" using Cons.prems(1) by (cases us) auto
    moreover have "unat y = unat b + sum_list us" using Cons.prems(4) bs(2) by simp
    ultimately have "y \<noteq> b" by (metis add_cancel_right_right less_irrefl)
    moreover have "binary_search y bs' = Some (length us - 1)"
      using Cons.IH [of bs' "a + u"] False bs Cons.prems(1,4) by (simp add: add.assoc)
    ultimately show ?thesis using False bs by (cases us) auto
  qed
qed

section \<open>A producer and a consumer over one connection\<close>

text \<open>
  The connection delivers item frames in order (\<open>stream/producer.rs\<close> reserves and queues them,
  \<open>stream/consumer.rs\<close> accepts them) and carries back cumulative acknowledgements, of which an older
  one may be replaced by a newer one still waiting to be sent, and of which the consumer may skip one
  while another item is already buffered behind it (\<open>ConsumerCore::poll_next\<close>). Every event is one call of the code; an
  event that is not possible leaves the system as it is. A violation either side would report to its
  peer is recorded.
\<close>

record stream_system =
  ss_credit :: credit
  ss_items :: "(u64 \<times> u64) list"
  ss_intake :: intake
  ss_buffer :: "u64 list"
  ss_acks :: "u64 list"
  ss_violated :: bool

datatype stream_event =
    EvSend u64 | EvDeliver | EvConsume bool | EvAck | EvCoalesce | EvLimit u64

definition stream_start :: "u64 \<Rightarrow> stream_system" where
  "stream_start window =
     \<lparr>ss_credit = credit_new window, ss_items = [], ss_intake = intake_new window, ss_buffer = [],
      ss_acks = [], ss_violated = False\<rparr>"

fun stream_step :: "stream_event \<Rightarrow> stream_system \<Rightarrow> stream_system" where
  "stream_step (EvSend sz) s =
     (if sz = 0 then s
      else case reserve sz (ss_credit s) of
        (Inl _, c) \<Rightarrow> s\<lparr>ss_credit := c\<rparr>
      | (Inr sequence, c) \<Rightarrow> s\<lparr>ss_credit := c, ss_items := ss_items s @ [(sequence, sz)]\<rparr>)"
| "stream_step EvDeliver s =
     (case ss_items s of [] \<Rightarrow> s
      | (sequence, sz) # rest \<Rightarrow>
        (case accept sequence sz (ss_intake s) of
           (Inl _, i) \<Rightarrow> s\<lparr>ss_intake := i, ss_items := rest, ss_violated := True\<rparr>
         | (Inr _, i) \<Rightarrow> s\<lparr>ss_intake := i, ss_items := rest, ss_buffer := ss_buffer s @ [sz]\<rparr>))"
| "stream_step (EvConsume defer) s =
     (case ss_buffer s of [] \<Rightarrow> s
      | sz # rest \<Rightarrow>
        (case consume sz (ss_intake s) of
           (consumed, i) \<Rightarrow>
             s\<lparr>ss_intake := i, ss_buffer := rest,
               ss_acks := (if rest \<noteq> [] \<and> defer then ss_acks s else ss_acks s @ [consumed])\<rparr>))"
| "stream_step EvAck s =
     (case ss_acks s of [] \<Rightarrow> s
      | a # rest \<Rightarrow>
        (case ack a (ss_credit s) of
           (Inl _, c) \<Rightarrow> s\<lparr>ss_credit := c, ss_acks := rest, ss_violated := True\<rparr>
         | (Inr _, c) \<Rightarrow> s\<lparr>ss_credit := c, ss_acks := rest\<rparr>))"
| "stream_step EvCoalesce s =
     (case ss_acks s of a # b # rest \<Rightarrow> s\<lparr>ss_acks := b # rest\<rparr> | _ \<Rightarrow> s)"
| "stream_step (EvLimit limit) s = s\<lparr>ss_credit := limit_window limit (ss_credit s)\<rparr>"

text \<open>
  The invariant. \<open>pre\<close> are the sizes of the items consumed and not yet acknowledged to the producer;
  with the buffered items and those on the wire they are exactly the boundaries the producer keeps.
\<close>

definition acks_ok :: "nat \<Rightarrow> nat list \<Rightarrow> bool \<Rightarrow> u64 list \<Rightarrow> bool" where
  "acks_ok acked pre idle acks =
     (sorted (map unat acks)
      \<and> unat ` set acks \<subseteq> insert acked (set (psums acked pre))
      \<and> (idle \<longrightarrow> last (acked # map unat acks) = acked + sum_list pre))"

definition stream_inv_with :: "u64 \<Rightarrow> nat list \<Rightarrow> stream_system \<Rightarrow> bool" where
  "stream_inv_with w pre s =
     (let c = ss_credit s; i = ss_intake s; acked = unat (cr_acked c);
          buf = map unat (ss_buffer s); wire = map (unat \<circ> snd) (ss_items s)
      in \<not> ss_violated s
       \<and> 0 \<notin> set (pre @ buf @ wire)
       \<and> map unat (cr_boundaries c) = psums acked (pre @ buf @ wire)
       \<and> unat (cr_sent c) = acked + sum_list (pre @ buf @ wire)
       \<and> unat (in_consumed i) = acked + sum_list pre
       \<and> unat (in_received i) = acked + sum_list (pre @ buf)
       \<and> sum_list (pre @ buf @ wire) \<le> unat w
       \<and> cr_window c \<le> w \<and> in_window i = w
       \<and> map (unat \<circ> fst) (ss_items s) = [unat (in_next_sequence i) ..< unat (cr_next_sequence c)]
       \<and> in_next_sequence i \<le> cr_next_sequence c
       \<and> acks_ok acked pre (ss_buffer s = []) (ss_acks s))"

definition stream_inv :: "u64 \<Rightarrow> stream_system \<Rightarrow> bool" where
  "stream_inv w s = (\<exists>pre. stream_inv_with w pre s)"

lemmas stream_inv_defs = stream_inv_def stream_inv_with_def Let_def

lemma acks_ok_deliver: "acks_ok a pre idle acks \<Longrightarrow> acks_ok a pre False acks"
  by (simp add: acks_ok_def)

lemma acks_ok_coalesce: "acks_ok a pre idle (x # y # acks) \<Longrightarrow> acks_ok a pre idle (y # acks)"
  by (simp add: acks_ok_def)

lemma acks_ok_consume:
  assumes "acks_ok a pre idle acks" "0 \<notin> set pre" "unat n = a + (sum_list pre + sz)"
  shows "acks_ok a (pre @ [sz]) idle' (acks @ [n])" "acks_ok a (pre @ [sz]) False acks"
proof -
  have "unat x \<le> a + (sum_list pre + sz)" if "x \<in> set acks" for x
    using that assms(1) psums_gt [OF assms(2), of "unat x" a] by (auto simp: acks_ok_def)
  then show "acks_ok a (pre @ [sz]) idle' (acks @ [n])" "acks_ok a (pre @ [sz]) False acks"
    using assms by (auto simp: acks_ok_def sorted_append psums_append add.assoc)
qed

lemma acks_ok_duplicate: "acks_ok a pre idle (x # acks) \<Longrightarrow> unat x = a \<Longrightarrow> acks_ok a pre idle acks"
  by (auto simp: acks_ok_def)

lemma acks_ok_advance:
  assumes "acks_ok a (us @ vs) idle (x # acks)" "unat x = a + sum_list us" "0 \<notin> set us" "us \<noteq> []"
  shows "acks_ok (unat x) vs idle acks"
proof -
  have "0 < sum_list us" using assms(3,4) by (cases us) auto
  then have "unat y \<in> insert (unat x) (set (psums (unat x) vs))" if "y \<in> set acks" for y
  proof -
    have "unat y \<in> insert a (set (psums a us) \<union> set (psums (unat x) vs))" "unat x \<le> unat y"
      using that assms(1,2) by (auto simp: acks_ok_def psums_append)
    moreover have "a < unat x" using assms(2) \<open>0 < sum_list us\<close> by linarith
    moreover have "z \<le> unat x" if "z \<in> set (psums a us)" for z
      using psums_gt [OF assms(3) that] assms(2) by simp
    ultimately show ?thesis by fastforce
  qed
  then show ?thesis using assms(1,2) by (auto simp: acks_ok_def add.assoc)
qed

lemma stream_inv_start: "stream_inv w (stream_start w)"
  unfolding stream_inv_defs
  by (rule exI [of _ "[]"])
     (simp add: stream_start_def credit_new_def credit_starting_at_def intake_new_def
       intake_starting_at_def acks_ok_def)

lemma stream_inv_limit: "stream_inv w s \<Longrightarrow> stream_inv w (stream_step (EvLimit limit) s)"
  by (auto simp: stream_inv_defs limit_window_def min_def)

lemma stream_inv_coalesce: "stream_inv w s \<Longrightarrow> stream_inv w (stream_step EvCoalesce s)"
proof -
  assume "stream_inv w s"
  then obtain pre where "stream_inv_with w pre s" by (auto simp: stream_inv_def)
  then have "stream_inv_with w pre (stream_step EvCoalesce s)"
    by (auto simp: stream_inv_with_def Let_def dest: acks_ok_coalesce split: list.split)
  then show ?thesis by (auto simp: stream_inv_def)
qed

lemma reserve_ok:
  assumes "reserve sz c = (Inr sequence, c')"
  shows "sequence = cr_next_sequence c \<and> unat (cr_sent c') = unat (cr_sent c) + unat sz \<and>
    unat (cr_next_sequence c') = Suc (unat (cr_next_sequence c)) \<and>
    cr_boundaries c' = cr_boundaries c @ [cr_sent c'] \<and> cr_acked c' = cr_acked c \<and>
    cr_window c' = cr_window c \<and> cr_sent c' - cr_acked c \<le> cr_window c"
  using assms
  by (auto simp: reserve_def checked_add_Some not_less split: if_splits option.splits)

lemma reserve_refused: "reserve sz c = (Inl e, c') \<Longrightarrow> c' = c"
  by (auto simp: reserve_def split: if_splits option.splits)

lemma stream_inv_send: "stream_inv w s \<Longrightarrow> stream_inv w (stream_step (EvSend sz) s)"
proof -
  assume "stream_inv w s"
  then obtain pre where inv: "stream_inv_with w pre s" by (auto simp: stream_inv_def)
  show ?thesis
  proof (cases "sz = 0 \<or> (\<exists>e c. reserve sz (ss_credit s) = (Inl e, c))")
    case True
    then have "stream_step (EvSend sz) s = s" using reserve_refused by fastforce
    with inv show ?thesis by (auto simp: stream_inv_def)
  next
    case False
    then obtain sequence c where r: "reserve sz (ss_credit s) = (Inr sequence, c)" and sz: "sz \<noteq> 0"
      by (cases "reserve sz (ss_credit s)", cases "fst (reserve sz (ss_credit s))") auto
    note c = reserve_ok [OF r]
    have "unat (cr_acked c) \<le> unat (cr_sent c)" using c inv by (simp add: stream_inv_with_def Let_def)
    then have "unat (cr_sent c - cr_acked c) = unat (cr_sent c) - unat (cr_acked c)"
      by (simp add: unat_sub word_le_nat_alt)
    then have fits: "unat (cr_sent c) - unat (cr_acked c) \<le> unat w"
      using c inv by (auto simp: stream_inv_with_def Let_def word_le_nat_alt)
    have "stream_inv_with w pre (s\<lparr>ss_credit := c, ss_items := ss_items s @ [(sequence, sz)]\<rparr>)"
      using inv c sz fits
      by (auto simp: stream_inv_with_def Let_def psums_append word_le_nat_alt unat_eq_0)
    with r sz show ?thesis by (auto simp: stream_inv_def)
  qed
qed

lemma accept_ok:
  assumes "sequence = in_next_sequence i" "unat (in_received i) + unat sz < 2 ^ 64"
    "Suc (unat (in_next_sequence i)) < 2 ^ 64"
    "in_consumed i \<le> in_received i"
    "unat (in_received i) + unat sz \<le> unat (in_consumed i) + unat (in_window i)"
  shows "accept sequence sz i =
    (Inr (), i\<lparr>in_received := in_received i + sz, in_next_sequence := in_next_sequence i + 1\<rparr>)"
    "unat (in_received i + sz) = unat (in_received i) + unat sz"
    "unat (in_next_sequence i + 1) = Suc (unat (in_next_sequence i))"
proof -
  show r: "unat (in_received i + sz) = unat (in_received i) + unat sz"
    and "unat (in_next_sequence i + 1) = Suc (unat (in_next_sequence i))"
    using assms(2,3) by (simp_all add: unat_word_ariths)
  moreover have "in_received i + sz - in_consumed i \<le> in_window i"
    using assms(4,5) r by (simp add: word_le_nat_alt unat_sub)
  ultimately show "accept sequence sz i =
    (Inr (), i\<lparr>in_received := in_received i + sz, in_next_sequence := in_next_sequence i + 1\<rparr>)"
    using assms(1,2,3) by (simp add: accept_def checked_add_def Let_def not_less)
qed

lemma stream_inv_deliver: "stream_inv w s \<Longrightarrow> stream_inv w (stream_step EvDeliver s)"
proof -
  assume "stream_inv w s"
  then obtain pre where inv: "stream_inv_with w pre s" by (auto simp: stream_inv_def)
  show ?thesis
  proof (cases "ss_items s")
    case Nil
    with inv show ?thesis by (auto simp: stream_inv_def)
  next
    case (Cons it rest)
    obtain sequence sz where it: "it = (sequence, sz)" by (cases it)
    let ?i = "ss_intake s" and ?c = "ss_credit s"
    have sq: "unat sequence # map (unat \<circ> fst) rest = [unat (in_next_sequence ?i) ..< unat (cr_next_sequence ?c)]"
      using inv Cons it by (simp add: stream_inv_with_def Let_def)
    then have lt: "unat (in_next_sequence ?i) < unat (cr_next_sequence ?c)"
      by (cases "unat (in_next_sequence ?i) < unat (cr_next_sequence ?c)") auto
    with sq have sq': "unat sequence = unat (in_next_sequence ?i)"
      "map (unat \<circ> fst) rest = [Suc (unat (in_next_sequence ?i)) ..< unat (cr_next_sequence ?c)]"
      by (simp_all add: upt_conv_Cons)
    have num: "unat (in_received ?i) + unat sz \<le> unat (cr_sent ?c)"
      "in_consumed ?i \<le> in_received ?i"
      "unat (in_received ?i) + unat sz \<le> unat (in_consumed ?i) + unat (in_window ?i)"
      using inv Cons it by (simp_all add: stream_inv_with_def Let_def word_le_nat_alt)
    have bounds: "unat (cr_sent ?c) < 2 ^ 64" "unat (cr_next_sequence ?c) < 2 ^ 64"
      using unsigned_less [of "cr_sent ?c", where 'a = nat]
        unsigned_less [of "cr_next_sequence ?c", where 'a = nat] by simp_all
    have "sequence = in_next_sequence ?i" using sq'(1) by (simp add: word_unat_eq_iff)
    note acc = accept_ok [OF this _ _ num(2,3)]
    have lts: "unat (in_received ?i) + unat sz < 2 ^ 64" "Suc (unat (in_next_sequence ?i)) < 2 ^ 64"
      using num(1) bounds lt by linarith+
    have "acks_ok (unat (cr_acked ?c)) pre False (ss_acks s)"
      using inv by (auto simp: stream_inv_with_def Let_def intro: acks_ok_deliver)
    then have "stream_inv_with w pre (stream_step EvDeliver s)"
      using inv Cons it acc [OF lts] sq'(2) lt
      by (simp add: stream_inv_with_def Let_def word_le_nat_alt)
    then show ?thesis by (auto simp: stream_inv_def)
  qed
qed

lemma stream_inv_consume: "stream_inv w s \<Longrightarrow> stream_inv w (stream_step (EvConsume defer) s)"
proof -
  assume "stream_inv w s"
  then obtain pre where inv: "stream_inv_with w pre s" by (auto simp: stream_inv_def)
  show ?thesis
  proof (cases "ss_buffer s")
    case Nil
    with inv show ?thesis by (auto simp: stream_inv_def)
  next
    case (Cons sz rest)
    let ?i = "ss_intake s"
    have le: "unat (in_consumed ?i) + unat sz \<le> unat (in_received ?i)"
      using inv Cons by (simp add: stream_inv_with_def Let_def)
    have bound: "unat (in_received ?i) < 2 ^ 64"
      using unsigned_less [of "in_received ?i", where 'a = nat] by simp
    obtain n where con: "consume sz ?i = (n, ?i\<lparr>in_consumed := n\<rparr>)"
      and n: "unat n = unat (in_consumed ?i) + unat sz"
      using le bound by (auto simp: consume_def Let_def min_def word_le_nat_alt unat_saturating_add)
    have step: "stream_step (EvConsume defer) s = s\<lparr>ss_intake := ?i\<lparr>in_consumed := n\<rparr>, ss_buffer := rest,
        ss_acks := (if rest \<noteq> [] \<and> defer then ss_acks s else ss_acks s @ [n])\<rparr>"
      using Cons con by simp
    have "acks_ok (unat (cr_acked (ss_credit s))) pre False (ss_acks s)" "0 \<notin> set pre"
      "unat n = unat (cr_acked (ss_credit s)) + (sum_list pre + unat sz)"
      using inv Cons n by (simp_all add: stream_inv_with_def Let_def)
    note acks = acks_ok_consume [OF this]
    have "stream_inv_with w (pre @ [unat sz]) (stream_step (EvConsume defer) s)"
      using inv Cons n acks unfolding step
      by (cases "rest \<noteq> [] \<and> defer") (simp_all add: stream_inv_with_def Let_def psums_append add.assoc)
    then show ?thesis by (auto simp: stream_inv_def)
  qed
qed

lemma stream_inv_ack: "stream_inv w s \<Longrightarrow> stream_inv w (stream_step EvAck s)"
proof -
  assume "stream_inv w s"
  then obtain pre where inv: "stream_inv_with w pre s" by (auto simp: stream_inv_def)
  let ?c = "ss_credit s"
  let ?tail = "map unat (ss_buffer s) @ map (unat \<circ> snd) (ss_items s)"
  show ?thesis
  proof (cases "ss_acks s = [] \<or> hd (ss_acks s) = cr_acked ?c")
    case True
    then have "stream_step EvAck s = s\<lparr>ss_acks := tl (ss_acks s)\<rparr>"
      by (cases "ss_acks s") (simp_all add: ack_def)
    moreover have "acks_ok (unat (cr_acked ?c)) pre (ss_buffer s = []) (tl (ss_acks s))"
      using inv True acks_ok_duplicate
      by (cases "ss_acks s") (auto simp: stream_inv_with_def Let_def)
    then have "stream_inv_with w pre (s\<lparr>ss_acks := tl (ss_acks s)\<rparr>)"
      using inv by (simp add: stream_inv_with_def Let_def)
    ultimately show ?thesis by (auto simp: stream_inv_def)
  next
    case False
    then obtain a rest where ar: "ss_acks s = a # rest" "a \<noteq> cr_acked ?c" by (cases "ss_acks s") auto
    have "unat a \<in> set (psums (unat (cr_acked ?c)) pre)"
      using inv ar by (auto simp: stream_inv_with_def Let_def acks_ok_def word_unat_eq_iff)
    then obtain us vs where uv: "pre = us @ vs" "unat a = unat (cr_acked ?c) + sum_list us" "us \<noteq> []"
      using psums_split by blast
    have pos: "0 \<notin> set us" "0 \<notin> set vs" using inv uv by (auto simp: stream_inv_with_def Let_def)
    have bs: "map unat (cr_boundaries ?c) = psums (unat (cr_acked ?c)) (us @ (vs @ ?tail))"
      using inv uv by (simp add: stream_inv_with_def Let_def)
    have idx: "binary_search a (cr_boundaries ?c) = Some (length us - 1)"
      by (rule binary_search_psums [OF pos(1) uv(3) bs uv(2)])
    have "0 < sum_list us" using pos uv(3) by (cases us) auto
    then have gt: "\<not> a < cr_acked ?c" "\<not> cr_sent ?c < a"
      using inv uv by (simp_all add: stream_inv_with_def Let_def word_less_nat_alt)
    have step: "stream_step EvAck s =
      s\<lparr>ss_credit := ?c\<lparr>cr_boundaries := drop (length us) (cr_boundaries ?c), cr_acked := a\<rparr>, ss_acks := rest\<rparr>"
      using ar idx gt uv(3) by (simp add: ack_def)
    have drop: "map unat (drop (length us) (cr_boundaries ?c)) = psums (unat a) (vs @ ?tail)"
      using bs uv(2) by (simp add: drop_map [symmetric] psums_append)
    have "acks_ok (unat (cr_acked ?c)) (us @ vs) (ss_buffer s = []) (a # rest)"
      using inv ar(1) uv(1) by (simp add: stream_inv_with_def Let_def)
    note acks = acks_ok_advance [OF this uv(2) pos(1) uv(3)]
    have "stream_inv_with w vs (stream_step EvAck s)"
      using inv drop acks uv(1,2) unfolding step by (simp add: stream_inv_with_def Let_def)
    then show ?thesis by (auto simp: stream_inv_def)
  qed
qed

lemma stream_inv_step: "stream_inv w s \<Longrightarrow> stream_inv w (stream_step e s)"
  by (cases e) (simp_all only: stream_inv_send stream_inv_deliver stream_inv_consume stream_inv_ack
    stream_inv_coalesce stream_inv_limit)

interpretation stream: invariant_system stream_step "stream_inv w" for w
  by unfold_locales (rule stream_inv_step)

section \<open>Properties\<close>

lemma stream_run_inv: "stream_inv w (run stream_step es (stream_start w))"
  by (rule stream.run_inv [OF stream_inv_start])

text \<open>C7. Flow control is sound end to end: over any interleaving of sends, deliveries, consumptions,
  (coalesced) acknowledgements and window limits, an honest producer and consumer that agree on the
  window never report a violation; the consumer's intake never holds more than the announced window,
  the bytes it has accepted and not consumed are exactly those of the buffered items, and the
  producer's unacknowledged bytes stay within the window.\<close>

theorem stream_flow_control_sound:
  "let s = run stream_step es (stream_start w) in
   \<not> ss_violated s \<and>
   intake_buffered (ss_intake s) \<le> w \<and>
   unat (intake_buffered (ss_intake s)) = sum_list (map unat (ss_buffer s)) \<and>
   in_flight (ss_credit s) \<le> w \<and>
   unat (in_flight (ss_credit s)) \<ge> sum_list (map unat (ss_buffer s)) + sum_list (map (unat \<circ> snd) (ss_items s))"
proof -
  define s where "s = run stream_step es (stream_start w)"
  obtain pre where inv: "stream_inv_with w pre s"
    using stream_run_inv [of w es] by (auto simp: stream_inv_def s_def)
  have "in_consumed (ss_intake s) \<le> in_received (ss_intake s)" "cr_acked (ss_credit s) \<le> cr_sent (ss_credit s)"
    using inv by (simp_all add: stream_inv_with_def Let_def word_le_nat_alt)
  then have "unat (intake_buffered (ss_intake s)) = sum_list (map unat (ss_buffer s))"
    "unat (in_flight (ss_credit s)) =
     sum_list (pre @ map unat (ss_buffer s) @ map (unat \<circ> snd) (ss_items s))"
    using inv by (simp_all add: stream_inv_with_def Let_def intake_buffered_def in_flight_def unat_sub)
  with inv show ?thesis
    by (simp add: s_def [symmetric] stream_inv_with_def Let_def word_le_nat_alt)
qed

text \<open>C21. A clean end is accepted: once every item frame has been delivered, the number of items the
  producer declares (\<open>Credit::items\<close>) is the number the consumer has accepted, so \<open>Intake::end\<close> reports
  no count mismatch.\<close>

theorem stream_end_agrees:
  assumes "ss_items (run stream_step es (stream_start w)) = []"
  shows "intake_end (credit_items (ss_credit (run stream_step es (stream_start w))))
    (ss_intake (run stream_step es (stream_start w))) = Inr ()"
proof -
  define s where "s = run stream_step es (stream_start w)"
  obtain pre where inv: "stream_inv_with w pre s"
    using stream_run_inv [of w es] by (auto simp: stream_inv_def s_def)
  moreover have "ss_items s = []" using assms by (simp add: s_def)
  ultimately have "[] = [unat (in_next_sequence (ss_intake s)) ..< unat (cr_next_sequence (ss_credit s))]"
    "unat (in_next_sequence (ss_intake s)) \<le> unat (cr_next_sequence (ss_credit s))"
    by (simp_all add: stream_inv_with_def Let_def word_le_nat_alt)
  then have "unat (cr_next_sequence (ss_credit s)) = unat (in_next_sequence (ss_intake s))"
    by (metis upt_eq_Nil_conv le_antisym le_zero_eq)
  then show ?thesis
    by (simp add: intake_end_def credit_items_def s_def word_unat_eq_iff)
qed

lemma stream_end_agrees_witness:
  "ss_items (run stream_step [EvSend 40, EvSend 31, EvDeliver, EvConsume False, EvAck, EvDeliver] (stream_start 100)) = []
   \<and> credit_items (ss_credit (run stream_step [EvSend 40, EvSend 31, EvDeliver, EvConsume False, EvAck, EvDeliver] (stream_start 100))) = 2
   \<and> intake_end (credit_items (ss_credit (run stream_step [EvSend 40, EvSend 31, EvDeliver, EvConsume False, EvAck, EvDeliver] (stream_start 100))))
       (ss_intake (run stream_step [EvSend 40, EvSend 31, EvDeliver, EvConsume False, EvAck, EvDeliver] (stream_start 100))) = Inr ()"
  using stream_end_agrees [of "[EvSend 40, EvSend 31, EvDeliver, EvConsume False, EvAck, EvDeliver]" 100]
  by (simp add: stream_start_def credit_new_def credit_starting_at_def intake_new_def intake_starting_at_def
    reserve_def accept_def consume_def ack_def checked_add_def saturating_add_def credit_items_def Let_def)

text \<open>C20. Credit is delayed, never lost: whatever was deferred or coalesced before, once every item has
  been delivered and consumed and the queued acknowledgements are processed, everything the producer
  sent is acknowledged, so any item within its window is reserved at once (unless a 64-bit counter
  is exhausted).\<close>

theorem stream_credit_returns:
  assumes "s = run stream_step es (stream_start w)"
    and "ss_items s = []" "ss_buffer s = []" "ss_acks s = []"
    and "sz \<le> cr_window (ss_credit s)"
    and "unat (cr_sent (ss_credit s)) + unat sz < 2 ^ 64"
    and "unat (credit_items (ss_credit s)) + 1 < 2 ^ 64"
  shows "in_flight (ss_credit s) = 0 \<and> fst (reserve sz (ss_credit s)) = Inr (credit_items (ss_credit s))"
proof -
  obtain pre where inv: "stream_inv_with w pre s"
    using stream_run_inv [of w es] assms(1) by (auto simp: stream_inv_def)
  with assms(2-4) have "cr_acked (ss_credit s) = cr_sent (ss_credit s)"
    by (simp add: stream_inv_with_def Let_def acks_ok_def word_unat_eq_iff)
  with assms(5-7) show ?thesis
    by (simp add: reserve_def checked_add_def credit_items_def in_flight_def not_less)
qed

lemmas stream_run_eval = stream_start_def credit_new_def credit_starting_at_def intake_new_def
  intake_starting_at_def reserve_def accept_def consume_def ack_def checked_add_def
  saturating_add_def credit_items_def in_flight_def limit_window_def Let_def

lemma stream_credit_returns_witness:
  "let s = run stream_step [EvSend 60, EvSend 40, EvSend 1, EvDeliver, EvDeliver, EvConsume True,
      EvConsume False, EvAck] (stream_start 100)
   in ss_items s = [] \<and> ss_buffer s = [] \<and> ss_acks s = [] \<and> cr_sent (ss_credit s) = 100 \<and>
      in_flight (ss_credit s) = 0 \<and> fst (reserve 100 (ss_credit s)) = Inr 2"
  using stream_credit_returns [OF refl, of "[EvSend 60, EvSend 40, EvSend 1, EvDeliver, EvDeliver,
    EvConsume True, EvConsume False, EvAck]" 100 100]
  by (simp add: stream_run_eval)

section \<open>Against an arbitrary peer\<close>

text \<open>Each side alone, driven by whatever the other end chooses to send.\<close>

datatype credit_call = CallReserve u64 | CallAck u64 | CallLimit u64

fun credit_step :: "credit_call \<Rightarrow> credit \<Rightarrow> credit" where
  "credit_step (CallReserve sz) c = snd (reserve sz c)"
| "credit_step (CallAck consumed) c = snd (ack consumed c)"
| "credit_step (CallLimit limit) c = limit_window limit c"

datatype intake_call = CallAccept u64 u64 | CallConsume u64

fun intake_step :: "intake_call \<Rightarrow> intake \<Rightarrow> intake" where
  "intake_step (CallAccept sequence sz) i = snd (accept sequence sz i)"
| "intake_step (CallConsume sz) i = snd (consume sz i)"

definition credit_inv :: "u64 \<Rightarrow> credit \<Rightarrow> bool" where
  "credit_inv w c =
     (cr_acked c \<le> cr_sent c \<and> in_flight c \<le> w \<and> cr_window c \<le> w \<and> sorted (cr_boundaries c) \<and>
      (\<forall>b \<in> set (cr_boundaries c). cr_acked c \<le> b \<and> b \<le> cr_sent c))"

definition intake_inv :: "u64 \<Rightarrow> intake \<Rightarrow> bool" where
  "intake_inv w i = (in_consumed i \<le> in_received i \<and> intake_buffered i \<le> w \<and> in_window i = w)"

lemma binary_search_Some:
  "binary_search x xs = Some i \<Longrightarrow> i < length xs \<and> xs ! i = x"
  by (induction xs arbitrary: i) (auto split: if_splits)

lemma checked_add_le: "checked_add a b = Some c \<Longrightarrow> a \<le> c" for a b c :: "'a::len word"
  unfolding checked_add_Some word_le_nat_alt by linarith

lemma credit_inv_reserve: "credit_inv w c \<Longrightarrow> credit_inv w (snd (reserve sz c))"
  by (auto simp: reserve_def credit_inv_def in_flight_def sorted_append not_less
    dest!: checked_add_le split: option.splits)

lemma ack_advances:
  assumes "ack consumed c = (Inr AckAdvanced, c')"
  shows "\<exists>i < length (cr_boundaries c). cr_boundaries c ! i = consumed \<and>
    cr_acked c < consumed \<and> consumed \<le> cr_sent c \<and>
    c' = c\<lparr>cr_boundaries := drop (Suc i) (cr_boundaries c), cr_acked := consumed\<rparr>"
proof -
  have ord: "consumed \<noteq> cr_acked c \<and> \<not> consumed < cr_acked c \<and> \<not> cr_sent c < consumed"
    using assms by (simp add: ack_def split: if_splits)
  show ?thesis
  proof (cases "binary_search consumed (cr_boundaries c)")
    case None
    with assms ord show ?thesis by (simp add: ack_def)
  next
    case (Some i)
    with assms ord have "c' = c\<lparr>cr_boundaries := drop (Suc i) (cr_boundaries c), cr_acked := consumed\<rparr>"
      by (simp add: ack_def)
    moreover have "cr_acked c < consumed" using ord by (meson linorder_neqE)
    ultimately show ?thesis using binary_search_Some [OF Some] ord by (auto simp: not_less)
  qed
qed

lemma ack_unchanged: "fst (ack consumed c) \<noteq> Inr AckAdvanced \<Longrightarrow> snd (ack consumed c) = c"
  by (auto simp: ack_def split: if_splits option.splits)

lemma credit_inv_ack:
  assumes "credit_inv w c"
  shows "credit_inv w (snd (ack consumed c))"
proof (cases "fst (ack consumed c) = Inr AckAdvanced")
  case False
  with assms show ?thesis by (simp add: ack_unchanged)
next
  case True
  then obtain c' where r: "ack consumed c = (Inr AckAdvanced, c')" by (cases "ack consumed c") auto
  from ack_advances [OF r] obtain i where i: "i < length (cr_boundaries c)" "cr_boundaries c ! i = consumed"
    "cr_acked c < consumed" "consumed \<le> cr_sent c"
    "c' = c\<lparr>cr_boundaries := drop (Suc i) (cr_boundaries c), cr_acked := consumed\<rparr>" by blast
  have "unat (cr_sent c - consumed) \<le> unat (cr_sent c - cr_acked c)"
    using assms i(3,4) by (simp add: credit_inv_def unat_sub word_le_nat_alt word_less_nat_alt)
  moreover have "consumed \<le> b" if "b \<in> set (drop (Suc i) (cr_boundaries c))" for b
  proof -
    have "sorted (drop i (cr_boundaries c))" using assms by (simp add: credit_inv_def sorted_wrt_drop)
    moreover have "drop i (cr_boundaries c) = consumed # drop (Suc i) (cr_boundaries c)"
      using i(1,2) by (metis Cons_nth_drop_Suc)
    ultimately show ?thesis using that by simp
  qed
  ultimately have "\<forall>b \<in> set (drop (Suc i) (cr_boundaries c)). consumed \<le> b \<and> b \<le> cr_sent c"
    "cr_sent c - consumed \<le> w"
    using assms by (auto simp: credit_inv_def in_flight_def word_le_nat_alt dest: in_set_dropD)
  then show ?thesis using assms i(4,5) r
    by (simp add: credit_inv_def in_flight_def)
qed

interpretation credit: invariant_system credit_step "credit_inv w" for w
proof
  fix c call
  assume "credit_inv w c"
  then show "credit_inv w (credit_step call c)"
    by (cases call) (auto simp: credit_inv_reserve credit_inv_ack limit_window_def, auto simp: credit_inv_def in_flight_def min_def)
qed

lemma intake_inv_accept: "intake_inv w i \<Longrightarrow> intake_inv w (snd (accept sequence sz i))"
  by (auto simp: accept_def Let_def intake_inv_def intake_buffered_def not_less
    dest!: checked_add_le split: option.splits)

lemma intake_inv_consume: "intake_inv w i \<Longrightarrow> intake_inv w (snd (consume sz i))"
proof -
  assume inv: "intake_inv w i"
  have "in_consumed i \<le> saturating_add (in_consumed i) sz"
    using unsigned_less [of "in_consumed i", where 'a = nat]
    by (simp add: word_le_nat_alt unat_saturating_add)
  with inv obtain n where n: "consume sz i = (n, i\<lparr>in_consumed := n\<rparr>)" "in_consumed i \<le> n" "n \<le> in_received i"
    by (simp add: consume_def Let_def intake_inv_def)
  with inv show ?thesis
    by (auto simp: intake_inv_def intake_buffered_def word_le_nat_alt unat_sub)
qed

interpretation intake: invariant_system intake_step "intake_inv w" for w
proof
  fix i call
  assume "intake_inv w i"
  then show "intake_inv w (intake_step call i)"
    by (cases call) (simp_all add: intake_inv_accept intake_inv_consume)
qed



end
