(* ===== verification/Rpc_Registry.thy ===== *)
theory Rpc_Registry
  imports Rpc_Endpoint "HOL-Library.Multiset"
begin

text \<open>
  The dynamic endpoint registry (\<open>crates/moonpool-rpc/src/endpoint/registry.rs\<close>): slots with a free
  list and generations that never wrap. Its contract is a finite map from tokens to values in which a
  token that was removed never resolves again; the theory shows that the slot vector implements it,
  that its \<open>assert!\<close> never fires and that its live count is exact.
\<close>

section \<open>The registry\<close>

datatype registry_error = RegistryFull | RegistrySlotOccupied

record 'a slot =
  sl_generation :: u32
  sl_value :: "'a option"

record 'a registry =
  rg_slots :: "'a slot list"
  rg_free :: "u64 list"
  rg_live :: nat
  rg_max_live :: nat

definition registry_new :: "nat \<Rightarrow> 'a registry" where
  "registry_new max_live = \<lparr>rg_slots = [], rg_free = [], rg_live = 0, rg_max_live = max_live\<rparr>"

definition slot_at :: "'a slot list \<Rightarrow> u64 \<Rightarrow> 'a slot option" where
  "slot_at slots index = (if unat index < length slots then Some (slots ! unat index) else None)"

text \<open>
  \<open>insert\<close>: the index comes from the free list, or from a new slot if its number is not one of the
  well-known tokens (\<open>registry_alloc\<close>). The code asserts that the slot is empty; the failed assertion
  is the branch \<open>RegistrySlotOccupied\<close>.
\<close>

definition registry_alloc :: "'a registry \<Rightarrow> (u64 \<times> 'a registry) option" where
  "registry_alloc r =
     (if rg_free r \<noteq> [] then Some (last (rg_free r), r\<lparr>rg_free := butlast (rg_free r)\<rparr>)
      else if length (rg_slots r) < 2 ^ 64 \<and> \<not> is_well_known (from_parts (of_nat (length (rg_slots r))) 0)
      then Some (of_nat (length (rg_slots r)),
                 r\<lparr>rg_slots := rg_slots r @ [\<lparr>sl_generation = 0, sl_value = None\<rparr>]\<rparr>)
      else None)"

definition registry_insert :: "'a \<Rightarrow> 'a registry \<Rightarrow> (registry_error + endpoint_token) \<times> 'a registry" where
  "registry_insert v r =
     (if rg_live r \<ge> rg_max_live r then (Inl RegistryFull, r)
      else case registry_alloc r of None \<Rightarrow> (Inl RegistryFull, r)
      | Some (index, r) \<Rightarrow>
        (case slot_at (rg_slots r) index of None \<Rightarrow> (Inl RegistryFull, r)
         | Some slot \<Rightarrow>
           if sl_value slot \<noteq> None then (Inl RegistrySlotOccupied, r)
           else (Inr (from_parts index (sl_generation slot)),
                 r\<lparr>rg_slots := (rg_slots r)[unat index := slot\<lparr>sl_value := Some v\<rparr>],
                   rg_live := rg_live r + 1\<rparr>)))"

definition registry_get :: "'a registry \<Rightarrow> endpoint_token \<Rightarrow> 'a option" where
  "registry_get r t =
     (case slot_at (rg_slots r) (tok_index t) of None \<Rightarrow> None
      | Some slot \<Rightarrow> if sl_generation slot = tok_generation t then sl_value slot else None)"

text \<open>\<open>get_mut\<close> with the update \<open>f\<close> the caller makes through the reference.\<close>

definition registry_update :: "endpoint_token \<Rightarrow> ('a \<Rightarrow> 'a) \<Rightarrow> 'a registry \<Rightarrow> 'a registry" where
  "registry_update t f r =
     (case slot_at (rg_slots r) (tok_index t) of None \<Rightarrow> r
      | Some slot \<Rightarrow>
        if sl_generation slot = tok_generation t
        then r\<lparr>rg_slots := (rg_slots r)[unat (tok_index t) := slot\<lparr>sl_value := map_option f (sl_value slot)\<rparr>]\<rparr>
        else r)"

definition registry_remove :: "endpoint_token \<Rightarrow> 'a registry \<Rightarrow> 'a option \<times> 'a registry" where
  "registry_remove t r =
     (case slot_at (rg_slots r) (tok_index t) of None \<Rightarrow> (None, r)
      | Some slot \<Rightarrow>
        if sl_generation slot \<noteq> tok_generation t \<or> sl_value slot = None then (None, r)
        else
          let slot' = slot\<lparr>sl_value := None\<rparr>; live = rg_live r - 1 in
          (case checked_add (sl_generation slot) 1 of
             Some g \<Rightarrow>
               (sl_value slot,
                r\<lparr>rg_slots := (rg_slots r)[unat (tok_index t) := slot'\<lparr>sl_generation := g\<rparr>],
                  rg_live := live, rg_free := rg_free r @ [tok_index t]\<rparr>)
           | None \<Rightarrow>
               (sl_value slot,
                r\<lparr>rg_slots := (rg_slots r)[unat (tok_index t) := slot'], rg_live := live\<rparr>)))"

fun remove_all :: "endpoint_token list \<Rightarrow> 'a registry \<Rightarrow> 'a list \<times> 'a registry" where
  "remove_all [] r = ([], r)"
| "remove_all (t # ts) r =
     (case registry_remove t r of (removed, r) \<Rightarrow>
      case remove_all ts r of (values, r) \<Rightarrow>
        ((case removed of Some v \<Rightarrow> v # values | None \<Rightarrow> values), r))"

definition live_tokens :: "'a registry \<Rightarrow> endpoint_token list" where
  "live_tokens r =
     map (\<lambda>(index, slot). from_parts (of_nat index) (sl_generation slot))
       (filter (\<lambda>(index, slot). sl_value slot \<noteq> None) (enumerate 0 (rg_slots r)))"

definition registry_drain :: "'a registry \<Rightarrow> 'a list \<times> 'a registry" where
  "registry_drain r = remove_all (live_tokens r) r"

section \<open>Invariant\<close>

definition live_count :: "'a slot list \<Rightarrow> nat" where
  "live_count slots = length (filter (\<lambda>slot. sl_value slot \<noteq> None) slots)"

definition registry_ok :: "'a registry \<Rightarrow> bool" where
  "registry_ok r =
     (length (rg_slots r) \<le> 2 ^ 63 \<and> distinct (rg_free r)
      \<and> (\<forall>i \<in> set (rg_free r). unat i < length (rg_slots r) \<and> sl_value (rg_slots r ! unat i) = None)
      \<and> rg_live r = live_count (rg_slots r) \<and> rg_live r \<le> rg_max_live r)"

text \<open>
  A dead token: its slot has moved on to a later generation, or is retired (empty and off the free
  list for good).
\<close>

definition dead :: "endpoint_token \<Rightarrow> 'a registry \<Rightarrow> bool" where
  "dead t r =
     (let i = unat (tok_index t) in
      i < length (rg_slots r)
      \<and> (tok_generation t < sl_generation (rg_slots r ! i)
         \<or> tok_generation t = sl_generation (rg_slots r ! i) \<and> sl_value (rg_slots r ! i) = None
           \<and> tok_index t \<notin> set (rg_free r)))"

lemma live_count_update:
  "i < length slots \<Longrightarrow>
   live_count (slots[i := slot]) =
     live_count slots - (if sl_value (slots ! i) \<noteq> None then 1 else 0) + (if sl_value slot \<noteq> None then 1 else 0)"
proof (induction slots arbitrary: i)
  case Nil
  then show ?case by simp
next
  case (Cons s slots)
  show ?case
  proof (cases i)
    case 0
    then show ?thesis by (simp add: live_count_def)
  next
    case (Suc j)
    have "0 < live_count slots" if "sl_value (slots ! j) \<noteq> None"
      using that Cons.prems Suc by (auto simp: live_count_def filter_empty_conv)
    with Suc Cons.IH [of j] Cons.prems show ?thesis
      by (auto simp: live_count_def)
  qed
qed

lemma live_count_pos: "i < length slots \<Longrightarrow> sl_value (slots ! i) \<noteq> None \<Longrightarrow> 0 < live_count slots"
  by (auto simp: live_count_def filter_empty_conv)

lemma live_count_snoc: "sl_value slot = None \<Longrightarrow> live_count (slots @ [slot]) = live_count slots"
  by (simp add: live_count_def)

lemma registry_ok_new: "registry_ok (registry_new n)"
  by (simp add: registry_ok_def registry_new_def live_count_def)

lemma alloc_None: "registry_ok r \<Longrightarrow> registry_alloc r = None \<longleftrightarrow> rg_free r = [] \<and> length (rg_slots r) = 2 ^ 63"
  by (auto simp: registry_alloc_def registry_ok_def index_well_known)

lemma alloc_Some:
  assumes "registry_ok r" "registry_alloc r = Some (index, r')"
  shows "registry_ok r'" "unat index < length (rg_slots r')" "sl_value (rg_slots r' ! unat index) = None"
    "index \<notin> set (rg_free r')" "rg_live r' = rg_live r" "rg_max_live r' = rg_max_live r"
    "registry_get r' t = registry_get r t" "dead t r \<Longrightarrow> dead t r'"
    "\<not> dead (from_parts index (sl_generation (rg_slots r' ! unat index))) r"
proof -
  have "registry_ok r' \<and> unat index < length (rg_slots r') \<and> sl_value (rg_slots r' ! unat index) = None \<and>
    index \<notin> set (rg_free r') \<and> rg_live r' = rg_live r \<and> rg_max_live r' = rg_max_live r \<and>
    registry_get r' t = registry_get r t \<and> (dead t r \<longrightarrow> dead t r') \<and>
    \<not> dead (from_parts index (sl_generation (rg_slots r' ! unat index))) r"
  proof (cases "rg_free r = []")
    case True
    with assms have n: "length (rg_slots r) < 2 ^ 63" "index = of_nat (length (rg_slots r))"
      and r': "r' = r\<lparr>rg_slots := rg_slots r @ [\<lparr>sl_generation = 0, sl_value = None\<rparr>]\<rparr>"
      by (auto simp: registry_alloc_def registry_ok_def index_well_known split: if_splits)
    have "unat index = length (rg_slots r)" using n by (simp add: unat_of_nat)
    with True n(1) r' assms(1) show ?thesis
      by (auto simp: registry_ok_def live_count_snoc registry_get_def slot_at_def dead_def Let_def
        from_parts_def nth_append less_Suc_eq)
  next
    case False
    then obtain fs where fs: "rg_free r = fs @ [index]"
      using assms(2) by (auto simp: registry_alloc_def intro: append_butlast_last_id [symmetric])
    then have r': "r' = r\<lparr>rg_free := fs\<rparr>" using assms(2) by (simp add: registry_alloc_def)
    then show ?thesis using assms(1) fs
      by (auto simp: registry_ok_def registry_get_def dead_def Let_def from_parts_def)
  qed
  then show "registry_ok r'" "unat index < length (rg_slots r')" "sl_value (rg_slots r' ! unat index) = None"
    "index \<notin> set (rg_free r')" "rg_live r' = rg_live r" "rg_max_live r' = rg_max_live r"
    "registry_get r' t = registry_get r t" "dead t r \<Longrightarrow> dead t r'"
    "\<not> dead (from_parts index (sl_generation (rg_slots r' ! unat index))) r" by simp_all
qed

lemma token_eq_iff: "t = t' \<longleftrightarrow> tok_index t = tok_index t' \<and> tok_generation t = tok_generation t'"
  for t t' :: endpoint_token
  by (cases t; cases t') simp

lemma fill_slot:
  assumes ok: "registry_ok r" and i: "unat index < length (rg_slots r)"
    and empty: "sl_value (rg_slots r ! unat index) = None" and nfree: "index \<notin> set (rg_free r)"
    and room: "rg_live r < rg_max_live r"
    and r': "r' = r\<lparr>rg_slots := (rg_slots r)[unat index := (rg_slots r ! unat index)\<lparr>sl_value := Some v\<rparr>],
                    rg_live := rg_live r + 1\<rparr>"
    and tok: "tok = from_parts index (sl_generation (rg_slots r ! unat index))"
  shows "registry_ok r'" "registry_get r tok = None"
    "registry_get r' = (registry_get r)(tok \<mapsto> v)" "dead t r \<Longrightarrow> t \<noteq> tok \<Longrightarrow> dead t r'"
proof -
  have ne: "\<forall>j \<in> set (rg_free r). unat index \<noteq> unat j"
    using nfree by (auto simp: word_unat_eq_iff [symmetric])
  show "registry_ok r'" unfolding r' using ok i empty ne room
    by (auto simp: registry_ok_def live_count_update nth_list_update)
  show "registry_get r tok = None" using i empty tok by (simp add: registry_get_def slot_at_def from_parts_def)
  show "registry_get r' = (registry_get r)(tok \<mapsto> v)"
    unfolding r' tok using i empty
    by (auto simp: fun_eq_iff registry_get_def slot_at_def from_parts_def token_eq_iff nth_list_update word_unat_eq_iff)
  show "dead t r \<Longrightarrow> t \<noteq> tok \<Longrightarrow> dead t r'"
    unfolding r' tok using i empty
    by (auto simp: dead_def Let_def from_parts_def token_eq_iff nth_list_update word_unat_eq_iff)
qed

lemma insert_cases:
  assumes "registry_ok r"
  obtains (full) "registry_insert v r = (Inl RegistryFull, r)"
      "rg_live r = rg_max_live r \<or> rg_free r = [] \<and> length (rg_slots r) = 2 ^ 63"
  | (inserted) tok r' where "registry_insert v r = (Inr tok, r')" "registry_ok r'" "\<not> dead tok r"
      "registry_get r tok = None" "registry_get r' = (registry_get r)(tok \<mapsto> v)" "\<not> is_well_known tok"
      "\<And>t. dead t r \<Longrightarrow> dead t r'" "rg_live r < rg_max_live r"
proof (cases "rg_live r < rg_max_live r \<and> registry_alloc r \<noteq> None")
  case False
  then have "registry_insert v r = (Inl RegistryFull, r)"
    by (cases "registry_alloc r") (auto simp: registry_insert_def)
  moreover have "rg_live r = rg_max_live r \<or> rg_free r = [] \<and> length (rg_slots r) = 2 ^ 63"
    using False assms alloc_None [OF assms] by (auto simp: registry_ok_def)
  ultimately show thesis by (rule full)
next
  case True
  then obtain index r1 where al: "registry_alloc r = Some (index, r1)" and room: "rg_live r < rg_max_live r" by auto
  note a = alloc_Some [OF assms al]
  define tok where "tok = from_parts index (sl_generation (rg_slots r1 ! unat index))"
  define r' where "r' = r1\<lparr>rg_slots := (rg_slots r1)[unat index := (rg_slots r1 ! unat index)\<lparr>sl_value := Some v\<rparr>],
                    rg_live := rg_live r1 + 1\<rparr>"
  have "rg_live r1 < rg_max_live r1" using room a(5,6) by simp
  note f = fill_slot [OF a(1-4) this r'_def tok_def]
  have "registry_insert v r = (Inr tok, r')"
    using al room a(2,3) by (simp add: registry_insert_def slot_at_def tok_def r'_def)
  moreover have "\<not> dead tok r" unfolding tok_def by (rule a(9))
  moreover have "registry_get r1 = registry_get r" using a(7) by (simp add: fun_eq_iff)
  moreover have "\<not> is_well_known tok"
    using a(1,2) index_well_known [of "unat index"]
      unsigned_less [of index, where 'a = nat]
    by (simp add: tok_def registry_ok_def)
  ultimately show thesis using f a(8) room \<open>\<not> dead tok r\<close> by (intro inserted [of tok r']) auto
qed

lemma checked_add_one_less: "checked_add g 1 = Some g' \<Longrightarrow> g < g'" for g g' :: u32
  unfolding checked_add_Some word_less_nat_alt unat_1 by linarith

lemma slot_cleared:
  "s\<lparr>sl_value := None\<rparr> = \<lparr>sl_generation = sl_generation s, sl_value = None\<rparr>"
  "s\<lparr>sl_value := None, sl_generation := g\<rparr> = \<lparr>sl_generation = g, sl_value = None\<rparr>"
  for s :: "'a slot"
  by (cases s; simp)+

lemma remove_None:
  "registry_get r t = None \<longleftrightarrow> registry_remove t r = (None, r)"
  by (auto simp: registry_get_def registry_remove_def slot_at_def Let_def split: option.splits)

lemma remove_Some:
  assumes ok: "registry_ok r" and v: "registry_get r t = Some v"
  obtains r' where "registry_remove t r = (Some v, r')" "registry_ok r'" "dead t r'"
    "registry_get r' = (registry_get r)(t := None)" "\<And>t'. dead t' r \<Longrightarrow> dead t' r'"
    "rg_live r = Suc (rg_live r')"
proof -
  let ?i = "unat (tok_index t)"
  let ?slot = "rg_slots r ! ?i"
  have i: "?i < length (rg_slots r)" "sl_generation ?slot = tok_generation t" "sl_value ?slot = Some v"
    using v by (auto simp: registry_get_def slot_at_def split: if_splits)
  have pos: "0 < live_count (rg_slots r)" using live_count_pos i by blast
  have nfree: "tok_index t \<notin> set (rg_free r)" using ok i by (auto simp: registry_ok_def)
  have ne: "\<forall>j \<in> set (rg_free r). ?i \<noteq> unat j"
    using nfree by (auto simp: word_unat_eq_iff [symmetric])
  define g where "g = (case checked_add (sl_generation ?slot) 1 of Some g \<Rightarrow> g | None \<Rightarrow> sl_generation ?slot)"
  define r' where "r' = snd (registry_remove t r)"
  have rem: "registry_remove t r = (Some v, r')"
    using i by (auto simp: registry_remove_def slot_at_def r'_def Let_def split: option.splits)
  have slots: "rg_slots r' = (rg_slots r)[?i := \<lparr>sl_generation = g, sl_value = None\<rparr>]"
    "rg_live r' = rg_live r - 1" "rg_max_live r' = rg_max_live r"
    using i by (auto simp: registry_remove_def slot_at_def r'_def Let_def g_def slot_cleared split: option.splits)
  have gen: "rg_free r' = rg_free r @ [tok_index t] \<and> tok_generation t < g \<or>
      rg_free r' = rg_free r \<and> g = tok_generation t"
    using i
    by (cases "checked_add (tok_generation t) 1")
      (auto simp: registry_remove_def slot_at_def r'_def Let_def g_def dest: checked_add_one_less)
  have "registry_ok r'" using ok i slots gen pos ne nfree
    by (auto simp: registry_ok_def live_count_update nth_list_update)
  moreover have "dead t r'" using i slots gen nfree by (auto simp: dead_def Let_def)
  moreover have "registry_get r' = (registry_get r)(t := None)"
  proof
    fix t'
    show "registry_get r' t' = ((registry_get r)(t := None)) t'"
      using i slots
      by (auto simp: registry_get_def slot_at_def nth_list_update token_eq_iff word_unat_eq_iff)
  qed
  moreover have "dead t' r'" if "dead t' r" for t'
  proof (cases "tok_index t' = tok_index t")
    case True
    with that i slots gen show ?thesis by (auto simp: dead_def Let_def)
  next
    case False
    then have "unat (tok_index t') \<noteq> ?i" by (simp add: word_unat_eq_iff)
    with that False slots gen show ?thesis by (auto simp: dead_def Let_def nth_list_update)
  qed
  moreover have "rg_live r = Suc (rg_live r')" using slots(2) pos ok by (simp add: registry_ok_def)
  ultimately show thesis using rem by (intro that)
qed

section \<open>The registry as a map\<close>

text \<open>
  The contract of a token registry: \<open>lookup\<close> is a partial map, \<open>add\<close> extends it at an unused token that
  was never issued and removed before, \<open>del\<close> takes a token out for good.
\<close>

locale token_registry =
  fixes valid :: "'r \<Rightarrow> bool" and lookup :: "'r \<Rightarrow> 't \<Rightarrow> 'v option"
    and add :: "'v \<Rightarrow> 'r \<Rightarrow> ('e + 't) \<times> 'r" and del :: "'t \<Rightarrow> 'r \<Rightarrow> 'v option \<times> 'r"
    and gone :: "'t \<Rightarrow> 'r \<Rightarrow> bool"
  assumes gone_lookup: "gone t r \<Longrightarrow> lookup r t = None"
    and add_law: "valid r \<Longrightarrow> case add v r of
        (Inl _, r') \<Rightarrow> r' = r
      | (Inr t, r') \<Rightarrow> valid r' \<and> lookup r t = None \<and> \<not> gone t r \<and> lookup r' = (lookup r)(t \<mapsto> v)
          \<and> (\<forall>t'. gone t' r \<longrightarrow> gone t' r')"
    and del_law: "valid r \<Longrightarrow> case del t r of
        (removed, r') \<Rightarrow> valid r' \<and> removed = lookup r t \<and> lookup r' = (lookup r)(t := None)
          \<and> (removed \<noteq> None \<longrightarrow> gone t r') \<and> (\<forall>t'. gone t' r \<longrightarrow> gone t' r')"
begin

fun step :: "'v + 't \<Rightarrow> 'r \<Rightarrow> 'r" where
  "step (Inl v) r = snd (add v r)"
| "step (Inr t) r = snd (del t r)"

lemma step_valid: "valid r \<Longrightarrow> valid (step op r)"
proof (cases op)
  case (Inl v)
  moreover assume "valid r"
  ultimately show ?thesis using add_law [of r v] by (auto split: prod.splits sum.splits)
next
  case (Inr t)
  moreover assume "valid r"
  ultimately show ?thesis using del_law [of r t] by (auto split: prod.splits)
qed

lemma step_gone: "valid r \<Longrightarrow> gone t r \<Longrightarrow> gone t (step op r)"
proof (cases op)
  case (Inl v)
  moreover assume "valid r" "gone t r"
  ultimately show ?thesis using add_law [of r v] by (auto split: prod.splits sum.splits)
next
  case (Inr t')
  moreover assume "valid r" "gone t r"
  ultimately show ?thesis using del_law [of r t'] by (auto split: prod.splits)
qed

lemma run_gone: "valid r \<Longrightarrow> gone t r \<Longrightarrow> valid (run step ops r) \<and> gone t (run step ops r)"
  by (induction ops arbitrary: r) (simp_all add: step_valid step_gone)

lemma never_again:
  assumes "valid r" "lookup r t \<noteq> None"
  shows "lookup (run step ops (snd (del t r))) t = None"
proof -
  obtain removed r' where d: "del t r = (removed, r')" by (cases "del t r")
  then have "valid r'" "gone t r'" using del_law [OF assms(1), of t] assms(2) by auto
  then show ?thesis using run_gone gone_lookup d by simp
qed

lemma never_reissued:
  assumes "valid r" "lookup r t \<noteq> None"
  shows "fst (add v (run step ops (snd (del t r)))) \<noteq> Inr t"
proof -
  obtain removed r' where d: "del t r = (removed, r')" by (cases "del t r")
  then have "valid r'" "gone t r'" using del_law [OF assms(1), of t] assms(2) by auto
  then have "valid (run step ops r') \<and> gone t (run step ops r')" by (rule run_gone)
  then show ?thesis using d add_law [of "run step ops r'" v] by (auto split: prod.splits sum.splits)
qed

end

lemma dead_get: "dead t r \<Longrightarrow> registry_get r t = None"
  by (auto simp: dead_def Let_def registry_get_def slot_at_def)

interpretation slots: token_registry registry_ok registry_get registry_insert registry_remove dead
proof
  fix t and r :: "'a registry"
  show "dead t r \<Longrightarrow> registry_get r t = None" by (rule dead_get)
next
  fix r :: "'a registry" and v
  assume "registry_ok r"
  then show "case registry_insert v r of (Inl _, r') \<Rightarrow> r' = r
    | (Inr t, r') \<Rightarrow> registry_ok r' \<and> registry_get r t = None \<and> \<not> dead t r \<and>
        registry_get r' = (registry_get r)(t \<mapsto> v) \<and> (\<forall>t'. dead t' r \<longrightarrow> dead t' r')"
    by (cases rule: insert_cases [where v = v]) auto
next
  fix r :: "'a registry" and t
  assume ok: "registry_ok r"
  show "case registry_remove t r of (removed, r') \<Rightarrow> registry_ok r' \<and> removed = registry_get r t \<and>
    registry_get r' = (registry_get r)(t := None) \<and> (removed \<noteq> None \<longrightarrow> dead t r') \<and>
    (\<forall>t'. dead t' r \<longrightarrow> dead t' r')"
  proof (cases "registry_get r t")
    case None
    then show ?thesis using ok remove_None [of r t] by (auto simp: fun_upd_idem)
  next
    case (Some v)
    show ?thesis by (rule remove_Some [OF ok Some]) (auto simp: Some)
  qed
qed

section \<open>Draining\<close>

lemma remove_all_spec:
  assumes "registry_ok r" "distinct ts" "\<forall>t \<in> set ts. registry_get r t \<noteq> None"
  shows "case remove_all ts r of (values, r') \<Rightarrow>
    registry_ok r' \<and> map Some values = map (registry_get r) ts \<and>
    registry_get r' = (\<lambda>t. if t \<in> set ts then None else registry_get r t) \<and>
    (\<forall>t \<in> set ts. dead t r') \<and> (\<forall>t. dead t r \<longrightarrow> dead t r') \<and> rg_live r = length ts + rg_live r'"
  using assms
proof (induction ts arbitrary: r)
  case Nil
  then show ?case by simp
next
  case (Cons t ts)
  from Cons.prems(3) obtain v where v: "registry_get r t = Some v" by auto
  obtain r1 where r1: "registry_remove t r = (Some v, r1)"
    "registry_ok r1" "dead t r1" "registry_get r1 = (registry_get r)(t := None)"
    "\<And>t'. dead t' r \<Longrightarrow> dead t' r1" "rg_live r = Suc (rg_live r1)"
    by (rule remove_Some [OF Cons.prems(1) v]) blast
  have live: "\<forall>t' \<in> set ts. registry_get r1 t' \<noteq> None"
    using Cons.prems(2,3) r1(4) by auto
  obtain vs r2 where r2: "remove_all ts r1 = (vs, r2)" by (cases "remove_all ts r1")
  have eq: "map (registry_get r1) ts = map (registry_get r) ts"
    using Cons.prems(2) r1(4) by auto
  have *: "registry_ok r2 \<and> map Some vs = map (registry_get r1) ts \<and>
    registry_get r2 = (\<lambda>t. if t \<in> set ts then None else registry_get r1 t) \<and>
    (\<forall>t \<in> set ts. dead t r2) \<and> (\<forall>t. dead t r1 \<longrightarrow> dead t r2) \<and> rg_live r1 = length ts + rg_live r2"
    using Cons.IH [OF r1(2) _ live] Cons.prems(2) r2 by simp
  then show ?case using r1 r2 v eq by (auto simp: fun_eq_iff)
qed

lemma live_tokens_spec:
  assumes "registry_ok r"
  shows "distinct (live_tokens r)" "set (live_tokens r) = {t. registry_get r t \<noteq> None}"
    "length (live_tokens r) = rg_live r"
proof -
  have len: "length (rg_slots r) < 2 ^ 64" using assms by (simp add: registry_ok_def)
  have idx: "unat (of_nat i :: u64) = i" if "i < length (rg_slots r)" for i
    using that len by (simp add: unat_of_nat)
  have inj: "inj_on (\<lambda>(index, slot). from_parts (of_nat index) (sl_generation slot)) (set (enumerate 0 (rg_slots r)))"
  proof (rule inj_onI, clarify)
    fix i s j s'
    assume "(i, s) \<in> set (enumerate 0 (rg_slots r))" "(j, s') \<in> set (enumerate 0 (rg_slots r))"
      and eq: "from_parts (of_nat i) (sl_generation s) = from_parts (of_nat j) (sl_generation s')"
    then have "i < length (rg_slots r)" "s = rg_slots r ! i" "j < length (rg_slots r)" "s' = rg_slots r ! j"
      by (auto simp: in_set_enumerate_eq)
    moreover from eq have "(of_nat i :: u64) = of_nat j" by (simp add: from_parts_def)
    ultimately show "i = j \<and> s = s'" using idx by metis
  qed
  then show "distinct (live_tokens r)"
    by (auto simp: live_tokens_def distinct_map distinct_enumerate intro: inj_on_subset)
  show "set (live_tokens r) = {t. registry_get r t \<noteq> None}"
  proof (intro set_eqI iffI)
    fix t assume "t \<in> set (live_tokens r)"
    then obtain i where "i < length (rg_slots r)" "sl_value (rg_slots r ! i) \<noteq> None"
      "t = from_parts (of_nat i) (sl_generation (rg_slots r ! i))"
      by (auto simp: live_tokens_def in_set_enumerate_eq)
    then show "t \<in> {t. registry_get r t \<noteq> None}"
      by (simp add: registry_get_def slot_at_def from_parts_def idx)
  next
    fix t assume "t \<in> {t. registry_get r t \<noteq> None}"
    then have "unat (tok_index t) < length (rg_slots r)"
      "sl_value (rg_slots r ! unat (tok_index t)) \<noteq> None"
      "t = from_parts (of_nat (unat (tok_index t))) (sl_generation (rg_slots r ! unat (tok_index t)))"
      by (auto simp: registry_get_def slot_at_def from_parts_def token_eq_iff split: if_splits)
    then show "t \<in> set (live_tokens r)"
      by (auto simp: live_tokens_def in_set_enumerate_eq intro!: image_eqI [of _ _ "(unat (tok_index t), rg_slots r ! unat (tok_index t))"])
  qed
  have "length (filter (\<lambda>(index, slot). sl_value slot \<noteq> None) (enumerate n xs)) = live_count xs"
    for n and xs :: "'a slot list"
    by (induction xs arbitrary: n) (auto simp: live_count_def)
  then show "length (live_tokens r) = rg_live r"
    using assms by (simp add: live_tokens_def registry_ok_def)
qed

section \<open>Properties\<close>

datatype 'a registry_op = OpInsert 'a | OpRemove endpoint_token | OpUpdate endpoint_token "'a \<Rightarrow> 'a" | OpDrain

fun registry_step :: "'a registry_op \<Rightarrow> 'a registry \<Rightarrow> 'a registry" where
  "registry_step (OpInsert v) r = snd (registry_insert v r)"
| "registry_step (OpRemove t) r = snd (registry_remove t r)"
| "registry_step (OpUpdate t f) r = registry_update t f r"
| "registry_step OpDrain r = snd (registry_drain r)"

lemma update_spec:
  assumes "registry_ok r"
  shows "registry_ok (registry_update t f r)" "dead t' r \<Longrightarrow> dead t' (registry_update t f r)"
    "registry_get (registry_update t f r) = (registry_get r)(t := map_option f (registry_get r t))"
proof -
  let ?i = "unat (tok_index t)"
  show "registry_ok (registry_update t f r)"
    using assms by (auto simp: registry_update_def slot_at_def registry_ok_def live_count_update live_count_pos nth_list_update)
  show "dead t' r \<Longrightarrow> dead t' (registry_update t f r)"
    by (auto simp: registry_update_def slot_at_def dead_def Let_def nth_list_update)
  show "registry_get (registry_update t f r) = (registry_get r)(t := map_option f (registry_get r t))"
    by (auto simp: fun_eq_iff registry_update_def slot_at_def registry_get_def nth_list_update token_eq_iff word_unat_eq_iff)
qed

lemma drain_spec:
  assumes "registry_ok r"
  shows "case registry_drain r of (values, r') \<Rightarrow>
    registry_ok r' \<and> map Some values = map (registry_get r) (live_tokens r) \<and> registry_get r' = Map.empty \<and>
    rg_live r' = 0 \<and> (\<forall>t. dead t r \<longrightarrow> dead t r') \<and> length values = rg_live r"
proof -
  note l = live_tokens_spec [OF assms]
  obtain vs r' where d: "remove_all (live_tokens r) r = (vs, r')" by (cases "remove_all (live_tokens r) r")
  have len: "length vs = length (live_tokens r)" if "map Some vs = map (registry_get r) (live_tokens r)"
    using that by (metis length_map)
  show ?thesis
    using remove_all_spec [OF assms l(1)] l(2,3) d len by (auto simp: registry_drain_def fun_eq_iff)
qed

lemma registry_step_ok: "registry_ok r \<Longrightarrow> registry_ok (registry_step op r)"
proof (cases op)
  case (OpInsert v)
  moreover assume "registry_ok r"
  ultimately show ?thesis using insert_cases [of r v] by (metis registry_step.simps(1) snd_conv)
next
  case (OpRemove t)
  moreover assume "registry_ok r"
  ultimately show ?thesis using slots.del_law [of r t] by (auto split: prod.splits)
next
  case (OpUpdate t f)
  moreover assume "registry_ok r"
  ultimately show ?thesis by (simp add: update_spec)
next
  case OpDrain
  moreover assume "registry_ok r"
  ultimately show ?thesis using drain_spec [of r] by (auto split: prod.splits)
qed

lemma registry_step_dead: "registry_ok r \<Longrightarrow> dead t r \<Longrightarrow> dead t (registry_step op r)"
proof (cases op)
  case (OpInsert v)
  moreover assume "registry_ok r" "dead t r"
  ultimately show ?thesis using slots.add_law [of r v] by (auto split: prod.splits sum.splits)
next
  case (OpRemove t')
  moreover assume "registry_ok r" "dead t r"
  ultimately show ?thesis using slots.del_law [of r t'] by (auto split: prod.splits)
next
  case (OpUpdate t' f)
  moreover assume "registry_ok r" "dead t r"
  ultimately show ?thesis by (simp add: update_spec)
next
  case OpDrain
  moreover assume "registry_ok r" "dead t r"
  ultimately show ?thesis using drain_spec [of r] by (auto split: prod.splits)
qed

lemma max_live_insert: "rg_max_live (snd (registry_insert v r)) = rg_max_live r"
  by (auto simp: registry_insert_def registry_alloc_def split: option.splits)

lemma max_live_remove: "rg_max_live (snd (registry_remove t r)) = rg_max_live r"
  by (auto simp: registry_remove_def Let_def split: option.splits)

lemma max_live_remove_all: "rg_max_live (snd (remove_all ts r)) = rg_max_live r"
proof (induction ts arbitrary: r)
  case (Cons t ts)
  then show ?case using max_live_remove [of t r] by (auto split: prod.split) (metis snd_conv)
qed simp

lemma registry_step_max: "rg_max_live (registry_step op r) = rg_max_live r"
  by (cases op) (simp_all add: max_live_insert max_live_remove registry_drain_def max_live_remove_all,
    simp add: registry_update_def split: option.split)

interpretation registry_max: invariant_system registry_step "\<lambda>r. rg_max_live r = n" for n
  by unfold_locales (simp add: registry_step_max)

interpretation registry: invariant_system registry_step registry_ok
  by unfold_locales (rule registry_step_ok)

interpretation registry_dead: invariant_system registry_step "\<lambda>r. registry_ok r \<and> dead t r" for t
  by unfold_locales (simp add: registry_step_ok registry_step_dead)

lemma registry_run_ok: "registry_ok (run registry_step ops (registry_new n))"
  by (rule registry.run_inv [OF registry_ok_new])

text \<open>C9. A removed endpoint never comes back: once the value of a token has been removed, no sequence of
  registrations, removals, updates and drains ever makes that token resolve again, and no registration
  hands the same token out again (a slot whose 32-bit generation is exhausted is retired, not
  wrapped).\<close>

theorem removed_token_never_resolves:
  assumes "r = run registry_step before (registry_new n)" and "registry_get r t = Some v"
    and "r' = run registry_step after (snd (registry_remove t r))"
  shows "registry_get r' t = None \<and> fst (registry_insert w r') \<noteq> Inr t"
proof -
  have ok: "registry_ok r" using assms(1) registry_run_ok by blast
  obtain r1 where r1: "registry_remove t r = (Some v, r1)" "registry_ok r1" "dead t r1"
    by (rule remove_Some [OF ok assms(2)]) blast
  then have "registry_ok r' \<and> dead t r'"
    unfolding assms(3) r1(1) snd_conv by (intro registry_dead.run_inv conjI)
  then show ?thesis using dead_get slots.add_law [of r' w] by (auto split: prod.splits sum.splits)
qed

lemmas registry_eval = registry_new_def registry_insert_def registry_alloc_def registry_get_def
  registry_remove_def registry_update_def registry_drain_def live_tokens_def slot_at_def
  from_parts_def is_well_known_def WELL_KNOWN_BIT_def checked_add_def Let_def

lemma removed_token_never_resolves_witness:
  "registry_get (run registry_step [OpInsert ''a''] (registry_new 1)) (from_parts 0 0) = Some ''a''
   \<and> registry_get (run registry_step [OpInsert ''b'', OpUpdate (from_parts 0 1) rev]
        (snd (registry_remove (from_parts 0 0) (run registry_step [OpInsert ''a''] (registry_new 1)))))
       (from_parts 0 0) = None
   \<and> registry_get (run registry_step [OpInsert ''b'', OpUpdate (from_parts 0 1) rev]
        (snd (registry_remove (from_parts 0 0) (run registry_step [OpInsert ''a''] (registry_new 1)))))
       (from_parts 0 1) = Some ''b''"
  using removed_token_never_resolves [OF refl _ refl, of "[OpInsert ''a'']" 1 "from_parts 0 0" "''a''"
    "[OpInsert ''b'', OpUpdate (from_parts 0 1) rev]"]
  by (simp add: registry_eval)

text \<open>C23. The slot vector implements a map from tokens to values: in every reachable state a registration
  is refused, without effect, only when the budget is used up or the index space is exhausted, and
  otherwise binds a fresh token that is never a well-known one; a removal returns exactly what the token
  resolved to and unbinds only it; a drain returns every value and leaves nothing; the \<open>assert!\<close> of
  \<open>insert\<close> never fires and the live count is the number of bound tokens, within the budget.\<close>

theorem registry_implements_map:
  fixes r :: "'a registry"
  assumes "r = run registry_step ops (registry_new n)"
  shows "(case registry_insert v r of
        (Inl e, r') \<Rightarrow> e = RegistryFull \<and> r' = r \<and>
          (card (dom (registry_get r)) = n \<or> length (rg_slots r) = 2 ^ 63)
      | (Inr t, r') \<Rightarrow> registry_get r t = None \<and> \<not> is_well_known t \<and>
          registry_get r' = (registry_get r)(t \<mapsto> v))
    \<and> (case registry_remove t r of (removed, r') \<Rightarrow>
          removed = registry_get r t \<and> registry_get r' = (registry_get r)(t := None))
    \<and> registry_get (registry_update t f r) = (registry_get r)(t := map_option f (registry_get r t))
    \<and> (case registry_drain r of (values, r') \<Rightarrow>
          registry_get r' = Map.empty \<and> mset (map Some values) = image_mset (registry_get r) (mset_set (dom (registry_get r))))
    \<and> rg_live r = card (dom (registry_get r)) \<and> rg_live r \<le> n"
proof -
  have ok: "registry_ok r" using assms registry_run_ok by blast
  have max: "rg_max_live r = n"
    unfolding assms by (rule registry_max.run_inv) (simp add: registry_new_def)
  note l = live_tokens_spec [OF ok]
  have dom: "set (live_tokens r) = dom (registry_get r)" using l(2) by (simp add: dom_def)
  have card: "rg_live r = card (dom (registry_get r))"
    using l(1,3) dom by (metis distinct_card)
  have live: "rg_live r \<le> n" using ok max by (simp add: registry_ok_def)
  have ins: "case registry_insert v r of
        (Inl e, r') \<Rightarrow> e = RegistryFull \<and> r' = r \<and>
          (card (dom (registry_get r)) = n \<or> length (rg_slots r) = 2 ^ 63)
      | (Inr t, r') \<Rightarrow> registry_get r t = None \<and> \<not> is_well_known t \<and>
          registry_get r' = (registry_get r)(t \<mapsto> v)"
    by (rule insert_cases [OF ok, of v]) (use card max in auto)
  have "mset (live_tokens r) = mset_set (dom (registry_get r))"
    using l(1) dom by (metis mset_set_set)
  then have "mset (map (registry_get r) (live_tokens r)) = image_mset (registry_get r) (mset_set (dom (registry_get r)))"
    by (metis mset_map)
  then have dr: "case registry_drain r of (values, r') \<Rightarrow>
      registry_get r' = Map.empty \<and> mset (map Some values) = image_mset (registry_get r) (mset_set (dom (registry_get r)))"
    using drain_spec [OF ok] by (auto simp del: mset_map)
  show ?thesis using ins dr slots.del_law [OF ok, of t] update_spec(3) [OF ok, of t f] card live by auto
qed

lemma registry_implements_map_witness:
  "registry_insert ''b'' (run registry_step [OpInsert ''a''] (registry_new 1)) =
     (Inl RegistryFull, run registry_step [OpInsert ''a''] (registry_new 1))
   \<and> rg_live (run registry_step [OpInsert ''a''] (registry_new 1)) = 1
   \<and> card (dom (registry_get (run registry_step [OpInsert ''a''] (registry_new 1)))) = 1"
  using registry_implements_map [OF refl, of "[OpInsert ''a'']" 1 "''b''"]
  by (simp add: registry_eval)

end
