(* ===== verification/Journal_Format.thy ===== *)
theory Journal_Format
  imports Prelude
begin

text \<open>
  The journal's on-disk formats (\<open>crates/moonpool-journal/src/format.rs\<close>): the segment geometry, the
  segment header, the persist record, the entry header and the metainfo copy. CRC32C is the external
  crate \<open>crc32c\<close>, so the two functions the code calls are parameters, bundled in \<open>crc_lib\<close>. Sizes and
  file offsets, which the code computes in \<open>u64\<close> from \<open>u32\<close> block counts without reaching \<open>2^64\<close>, are
  natural numbers. Encoders start from a zero-filled buffer, so they are functions of the structure
  alone; the theory shows that each decodes back to its input, which is the postcondition
  \<open>check_round_trip\<close> that the code asserts on every write.
\<close>

section \<open>Fields at fixed offsets\<close>

record crc_lib =
  crc_of :: "bytes \<Rightarrow> u32"
  crc_append :: "u32 \<Rightarrow> bytes \<Rightarrow> u32"

definition put_u16 :: "nat \<Rightarrow> u16 \<Rightarrow> nat \<times> bytes" where "put_u16 at v = (at, to_le_bytes 2 v)"
definition put_u32 :: "nat \<Rightarrow> u32 \<Rightarrow> nat \<times> bytes" where "put_u32 at v = (at, to_le_bytes 4 v)"
definition put_u64 :: "nat \<Rightarrow> u64 \<Rightarrow> nat \<times> bytes" where "put_u64 at v = (at, to_le_bytes 8 v)"
definition put_u128 :: "nat \<Rightarrow> u128 \<Rightarrow> nat \<times> bytes" where "put_u128 at v = (at, to_le_bytes 16 v)"

definition get_u16 :: "bytes \<Rightarrow> nat \<Rightarrow> u16" where "get_u16 buf at = from_le_bytes (bslice at 2 buf)"
definition get_u32 :: "bytes \<Rightarrow> nat \<Rightarrow> u32" where "get_u32 buf at = from_le_bytes (bslice at 4 buf)"
definition get_u64 :: "bytes \<Rightarrow> nat \<Rightarrow> u64" where "get_u64 buf at = from_le_bytes (bslice at 8 buf)"
definition get_u128 :: "bytes \<Rightarrow> nat \<Rightarrow> u128" where "get_u128 buf at = from_le_bytes (bslice at 16 buf)"

text \<open>A sequence of writes into one buffer, in the order the encoder makes them.\<close>

fun puts :: "(nat \<times> bytes) list \<Rightarrow> bytes \<Rightarrow> bytes" where
  "puts [] buf = buf"
| "puts ((at, bs) # ps) buf = puts ps (put_at at bs buf)"

text \<open>The fields lie inside the buffer, in ascending order and without overlap.\<close>

fun layout_ok :: "nat \<Rightarrow> nat \<Rightarrow> (nat \<times> bytes) list \<Rightarrow> bool" where
  "layout_ok lo n [] = (lo \<le> n)"
| "layout_ok lo n ((at, bs) # ps) = (lo \<le> at \<and> layout_ok (at + length bs) n ps)"

lemma layout_ok_le: "layout_ok lo n ps \<Longrightarrow> lo \<le> n"
  by (induction lo n ps rule: layout_ok.induct) auto

lemma length_puts: "layout_ok lo (length buf) ps \<Longrightarrow> length (puts ps buf) = length buf"
proof (induction ps arbitrary: buf lo)
  case (Cons p ps)
  obtain a bs where p: "p = (a, bs)" by (cases p)
  then have "layout_ok (a + length bs) (length buf) ps" using Cons.prems by simp
  moreover from this have "a + length bs \<le> length buf" by (rule layout_ok_le)
  ultimately show ?case using Cons.IH [of "a + length bs" "put_at a bs buf"] p by simp
qed simp

lemma length_puts_replicate:
  "layout_ok 0 n ps \<Longrightarrow> length (puts ps (replicate n x)) = n"
  using length_puts [of 0 "replicate n x" ps] by simp

lemma bslice_puts_before:
  "layout_ok lo (length buf) ps \<Longrightarrow> at + n \<le> lo \<Longrightarrow> bslice at n (puts ps buf) = bslice at n buf"
proof (induction ps arbitrary: buf lo)
  case Nil
  then show ?case by simp
next
  case (Cons p ps)
  obtain a bs where p: "p = (a, bs)" by (cases p)
  then have len: "a + length bs \<le> length buf" using Cons.prems(1) layout_ok_le by auto
  then show ?case using Cons.IH [of "a + length bs" "put_at a bs buf"] Cons.prems p
    by (simp add: bslice_put_at_before)
qed

lemma map_of_layout:
  "layout_ok lo n ps \<Longrightarrow> map_of ps at = Some bs \<Longrightarrow> lo \<le> at \<and> at + length bs \<le> n"
  by (induction lo n ps rule: layout_ok.induct) (auto split: if_splits dest: layout_ok_le)

lemma bslice_puts:
  assumes "layout_ok lo (length buf) ps" "map_of ps at \<noteq> None" "n = length (the (map_of ps at))"
  shows "bslice at n (puts ps buf) = the (map_of ps at)"
  using assms
proof (induction ps arbitrary: buf lo)
  case Nil
  then show ?case by simp
next
  case (Cons p ps)
  obtain a bs where p: "p = (a, bs)" by (cases p)
  have ok: "layout_ok (a + length bs) (length buf) ps" using Cons.prems(1) p by simp
  then have len: "a + length bs \<le> length buf" by (rule layout_ok_le)
  show ?case
  proof (cases "at = a")
    case True
    then show ?thesis using Cons.prems(3) p len ok
      by (simp add: bslice_puts_before bslice_put_at_same)
  next
    case False
    then show ?thesis using Cons.IH [of "a + length bs" "put_at a bs buf"] Cons.prems p ok len by simp
  qed
qed

lemma bslice_puts_replicate [codec_simps]:
  "layout_ok 0 m ps \<Longrightarrow> map_of ps at \<noteq> None \<Longrightarrow> n = length (the (map_of ps at)) \<Longrightarrow>
   bslice at n (puts ps (replicate m x)) = the (map_of ps at)"
  by (rule bslice_puts [of 0]) simp_all

lemma nth_eq_bslice: "at < length buf \<Longrightarrow> buf ! at = hd (bslice at 1 buf)"
  by (simp add: bslice_def hd_drop_conv_nth take_Suc flip: One_nat_def)

lemmas put_defs = put_u16_def put_u32_def put_u64_def put_u128_def
lemmas get_defs = get_u16_def get_u32_def get_u64_def get_u128_def

lemma from_to_le [codec_simps]:
  "from_le_bytes (to_le_bytes 2 a) = (a :: u16)" "from_le_bytes (to_le_bytes 4 b) = (b :: u32)"
  "from_le_bytes (to_le_bytes 8 c) = (c :: u64)" "from_le_bytes (to_le_bytes 16 d) = (d :: u128)"
  by (simp_all add: from_le_to_le)

section \<open>Constants and geometry\<close>

definition BLOCK :: nat where "BLOCK = 4096"
definition ID_SIZE :: nat where "ID_SIZE = 24"
definition RECORD_SIZE :: nat where "RECORD_SIZE = 64"
definition RECORDS_PER_BLOCK :: nat where "RECORDS_PER_BLOCK = BLOCK div RECORD_SIZE"
definition MAX_BATCH_RECORDS :: nat where "MAX_BATCH_RECORDS = 65535"
definition META_BYTES_AT :: nat where "META_BYTES_AT = 80"
definition META_CRC_AT :: nat where "META_CRC_AT = BLOCK - 4"
definition META_MAX :: nat where "META_MAX = META_CRC_AT - META_BYTES_AT"
definition META_COPY_B_AT :: nat where "META_COPY_B_AT = 16 * BLOCK"
definition META_FILE_BLOCKS :: nat where "META_FILE_BLOCKS = 17"

text \<open>The magic numbers: the little-endian words of \<open>MPJS\<close>, \<open>MPJE\<close> and \<open>MPJM\<close>.\<close>

definition SEGMENT_MAGIC :: u32 where "SEGMENT_MAGIC = from_le_bytes [0x4d, 0x50, 0x4a, 0x53]"
definition ENTRY_MAGIC :: u32 where "ENTRY_MAGIC = from_le_bytes [0x4d, 0x50, 0x4a, 0x45]"
definition META_MAGIC :: u32 where "META_MAGIC = from_le_bytes [0x4d, 0x50, 0x4a, 0x4d]"
definition VERSION :: u16 where "VERSION = 3"

type_synonym ident = bytes

type_synonym journal_id = u128

definition align_up :: "nat \<Rightarrow> nat \<Rightarrow> nat" where
  "align_up v to = (v + to - 1) div to * to"

definition journal_tag :: "crc_lib \<Rightarrow> journal_id \<Rightarrow> u32" where
  "journal_tag C journal = crc_of C (to_le_bytes 16 journal)"

record geometry =
  persist_blocks :: u32
  gap_blocks :: u32
  entry_blocks :: u32

definition geometry_default :: geometry where
  "geometry_default = \<lparr>persist_blocks = 7936, gap_blocks = 512, entry_blocks = 7936\<rparr>"

definition geometry_small :: geometry where
  "geometry_small = \<lparr>persist_blocks = 8, gap_blocks = 0, entry_blocks = 16\<rparr>"

definition total_blocks :: "geometry \<Rightarrow> nat" where
  "total_blocks g = 2 + unat (persist_blocks g) + unat (gap_blocks g) + unat (entry_blocks g)"

definition is_valid :: "geometry \<Rightarrow> bool" where
  "is_valid g = (persist_blocks g \<ge> 1 \<and> entry_blocks g \<ge> 1 \<and> total_blocks g * BLOCK < 2 ^ 32)"

definition PERSIST_START :: nat where "PERSIST_START = 2 * BLOCK"

definition persist_end :: "geometry \<Rightarrow> nat" where
  "persist_end g = PERSIST_START + unat (persist_blocks g) * BLOCK"

definition entry_start :: "geometry \<Rightarrow> nat" where
  "entry_start g = persist_end g + unat (gap_blocks g) * BLOCK"

definition entry_end :: "geometry \<Rightarrow> nat" where
  "entry_end g = entry_start g + unat (entry_blocks g) * BLOCK"

lemmas geometry_defs = total_blocks_def PERSIST_START_def persist_end_def entry_start_def entry_end_def

lemma entry_end_total: "entry_end g = total_blocks g * BLOCK"
  by (simp add: geometry_defs algebra_simps)

lemma align_up_ge: "0 < to \<Longrightarrow> v \<le> align_up v to"
proof -
  assume "0 < to"
  then have "(v + to - 1) mod to < to" by simp
  moreover have "align_up v to = v + to - 1 - (v + to - 1) mod to"
    by (simp add: align_up_def minus_mod_eq_div_mult)
  ultimately show ?thesis by linarith
qed

lemma align_up_dvd: "to dvd align_up v to"
  by (simp add: align_up_def)

lemma align_up_least: "0 < to \<Longrightarrow> to dvd m \<Longrightarrow> v \<le> m \<Longrightarrow> align_up v to \<le> m"
proof -
  assume to: "0 < to" and "to dvd m" "v \<le> m"
  then obtain k where k: "m = to * k" by (auto elim: dvdE)
  then have "v + to - 1 < (k + 1) * to" using to \<open>v \<le> m\<close> by (simp add: algebra_simps)
  then have "(v + to - 1) div to < k + 1" by (rule less_mult_imp_div_less)
  then have "(v + to - 1) div to * to \<le> k * to" by simp
  then show ?thesis by (simp add: align_up_def k mult.commute)
qed

lemma align_up_id: "0 < to \<Longrightarrow> to dvd v \<Longrightarrow> align_up v to = v"
  by (rule le_antisym) (simp_all add: align_up_ge align_up_least)

lemma align_up_mono: "0 < to \<Longrightarrow> v \<le> w \<Longrightarrow> align_up v to \<le> align_up w to"
  by (simp add: align_up_def div_le_mono)

section \<open>Checksummed structures\<close>

text \<open>
  Every structure but the entry is encoded the same way: the buffer is zero-filled, the fields are
  put, then the CRC of everything before it.
\<close>

definition seal :: "crc_lib \<Rightarrow> nat \<Rightarrow> nat \<Rightarrow> (nat \<times> bytes) list \<Rightarrow> bytes" where
  "seal C n at ps =
     (let buf = puts ps (replicate n 0)
      in puts [put_u32 at (crc_of C (bslice 0 at buf))] buf)"

lemma layout_ok_mono: "layout_ok lo m ps \<Longrightarrow> m \<le> n \<Longrightarrow> layout_ok lo n ps"
  by (induction lo m ps rule: layout_ok.induct) auto

lemma length_seal [simp]: "layout_ok 0 at ps \<Longrightarrow> at + 4 \<le> n \<Longrightarrow> length (seal C n at ps) = n"
  using length_puts_replicate [OF layout_ok_mono, of at ps n] by (simp add: seal_def put_u32_def Let_def)

lemma seal_prefix:
  assumes "layout_ok 0 at ps" "at + 4 \<le> n" "i + m \<le> at"
  shows "bslice i m (seal C n at ps) = bslice i m (puts ps (replicate n 0))"
  using length_puts_replicate [OF layout_ok_mono, of at ps n] assms
  by (simp add: seal_def put_u32_def Let_def bslice_put_at_before)

lemma seal_field:
  assumes "layout_ok 0 at ps" "at + 4 \<le> n" "map_of ps i \<noteq> None" "m = length (the (map_of ps i))"
  shows "bslice i m (seal C n at ps) = the (map_of ps i)"
proof -
  have "i + m \<le> at" using assms map_of_layout by force
  then have "bslice i m (seal C n at ps) = bslice i m (puts ps (replicate n 0))"
    using seal_prefix assms(1,2) by blast
  also have "\<dots> = the (map_of ps i)"
    using layout_ok_mono [OF assms(1), of n] assms(2-4) by (intro bslice_puts_replicate) simp_all
  finally show ?thesis .
qed

lemma seal_crc:
  assumes "layout_ok 0 at ps" "at + 4 \<le> n"
  shows "get_u32 (seal C n at ps) at = crc_of C (bslice 0 at (seal C n at ps))"
proof -
  have len: "length (puts ps (replicate n 0)) = n"
    using assms by (intro length_puts_replicate layout_ok_mono [OF assms(1)]) simp
  have "bslice 0 at (seal C n at ps) = bslice 0 at (puts ps (replicate n 0))"
    using seal_prefix [OF assms, of 0 at] by simp
  then show ?thesis using len assms(2)
    by (simp add: get_u32_def seal_def put_u32_def Let_def bslice_put_at_same from_to_le)
qed

section \<open>The segment header\<close>

record segment_header =
  sh_journal :: journal_id
  sh_first_batch :: u64
  sh_prev_batch :: u64
  sh_geometry :: geometry

definition segment_header_encode :: "crc_lib \<Rightarrow> segment_header \<Rightarrow> bytes" where
  "segment_header_encode C h =
     seal C BLOCK 52
       [put_u32 0 SEGMENT_MAGIC, put_u16 4 VERSION, put_u128 8 (sh_journal h),
        put_u64 24 (sh_first_batch h), put_u32 32 (persist_blocks (sh_geometry h)),
        put_u32 36 (gap_blocks (sh_geometry h)), put_u32 40 (entry_blocks (sh_geometry h)),
        put_u64 44 (sh_prev_batch h)]"

definition segment_header_decode :: "crc_lib \<Rightarrow> bytes \<Rightarrow> segment_header option" where
  "segment_header_decode C block =
     (if get_u32 block 0 \<noteq> SEGMENT_MAGIC \<or> get_u16 block 4 \<noteq> VERSION
         \<or> get_u32 block 52 \<noteq> crc_of C (bslice 0 52 block)
      then None
      else Some \<lparr>sh_journal = get_u128 block 8, sh_first_batch = get_u64 block 24,
        sh_prev_batch = get_u64 block 44,
        sh_geometry = \<lparr>persist_blocks = get_u32 block 32, gap_blocks = get_u32 block 36,
          entry_blocks = get_u32 block 40\<rparr>\<rparr>)"

lemma segment_header_round_trip:
  "segment_header_decode C (segment_header_encode C h) = Some h"
proof -
  define ps where "ps = [put_u32 0 SEGMENT_MAGIC, put_u16 4 VERSION, put_u128 8 (sh_journal h),
        put_u64 24 (sh_first_batch h), put_u32 32 (persist_blocks (sh_geometry h)),
        put_u32 36 (gap_blocks (sh_geometry h)), put_u32 40 (entry_blocks (sh_geometry h)),
        put_u64 44 (sh_prev_batch h)]"
  have ok: "layout_ok 0 52 ps" "52 + 4 \<le> BLOCK" by (simp_all add: ps_def put_defs BLOCK_def)
  have m: "map_of ps 0 = Some (to_le_bytes 4 SEGMENT_MAGIC)" "map_of ps 4 = Some (to_le_bytes 2 VERSION)"
    "map_of ps 8 = Some (to_le_bytes 16 (sh_journal h))" "map_of ps 24 = Some (to_le_bytes 8 (sh_first_batch h))"
    "map_of ps 32 = Some (to_le_bytes 4 (persist_blocks (sh_geometry h)))"
    "map_of ps 36 = Some (to_le_bytes 4 (gap_blocks (sh_geometry h)))"
    "map_of ps 40 = Some (to_le_bytes 4 (entry_blocks (sh_geometry h)))"
    "map_of ps 44 = Some (to_le_bytes 8 (sh_prev_batch h))"
    by (simp_all add: ps_def put_defs)
  show ?thesis
    unfolding segment_header_encode_def ps_def [symmetric] segment_header_decode_def seal_crc [OF ok]
    by (simp add: get_defs seal_field [OF ok] m from_to_le)
qed

section \<open>Persist records\<close>

datatype kind = Put | Clear | Void

fun kind_byte :: "kind \<Rightarrow> u8" where
  "kind_byte Put = 1" | "kind_byte Clear = 2" | "kind_byte Void = 3"

definition kind_from_byte :: "u8 \<Rightarrow> kind option" where
  "kind_from_byte b = (if b = 1 then Some Put else if b = 2 then Some Clear
     else if b = 3 then Some Void else None)"

definition FLAG_ORDERED :: u8 where "FLAG_ORDERED = 1"

record precord =
  pr_kind :: kind
  pr_flags :: u8
  pr_index :: u16
  pr_count :: u16
  pr_batch :: u64
  pr_position :: u64
  pr_id :: ident
  pr_offset :: u32
  pr_len :: u32
  pr_entry_crc :: u32

datatype pslot = SlotZero | SlotDamaged | SlotValid precord

definition record_encode :: "crc_lib \<Rightarrow> precord \<Rightarrow> bytes" where
  "record_encode C r =
     seal C RECORD_SIZE 60
       [(0, [kind_byte (pr_kind r)]), (1, [pr_flags r]), put_u16 2 (pr_index r), put_u32 4 (pr_len r),
        put_u64 8 (pr_batch r), put_u64 16 (pr_position r), put_u32 24 (pr_offset r),
        put_u32 28 (pr_entry_crc r), (32, pr_id r), put_u16 56 (pr_count r)]"

definition record_decode :: "crc_lib \<Rightarrow> bytes \<Rightarrow> pslot" where
  "record_decode C buf =
     (let bs = bslice 0 RECORD_SIZE buf in
      if \<forall>b \<in> set bs. b = 0 then SlotZero
      else if get_u32 bs 60 \<noteq> crc_of C (bslice 0 60 bs) then SlotDamaged
      else case kind_from_byte (bs ! 0) of None \<Rightarrow> SlotDamaged
      | Some k \<Rightarrow>
        let r = \<lparr>pr_kind = k, pr_flags = bs ! 1, pr_index = get_u16 bs 2, pr_count = get_u16 bs 56,
                 pr_batch = get_u64 bs 8, pr_position = get_u64 bs 16, pr_id = bslice 32 24 bs,
                 pr_offset = get_u32 bs 24, pr_len = get_u32 bs 4, pr_entry_crc = get_u32 bs 28\<rparr>
        in if pr_index r \<ge> pr_count r then SlotDamaged else SlotValid r)"

definition clear_end :: "precord \<Rightarrow> u64" where
  "clear_end r = get_u64 (pr_id r) 0"

definition clear_id :: "u64 \<Rightarrow> ident" where
  "clear_id e = put_at 0 (to_le_bytes 8 e) (replicate ID_SIZE 0)"

definition slot_offset :: "u16 \<Rightarrow> nat" where
  "slot_offset index = unat index * RECORD_SIZE"

definition blocks_for :: "nat \<Rightarrow> nat" where
  "blocks_for count = align_up (count * RECORD_SIZE) BLOCK div BLOCK"

text \<open>A record the code may write: its index lies within its batch and its identity has 24 bytes.\<close>

definition record_ok :: "precord \<Rightarrow> bool" where
  "record_ok r = (pr_index r < pr_count r \<and> length (pr_id r) = ID_SIZE)"

lemma kind_byte_round_trip [simp]: "kind_from_byte (kind_byte k) = Some k"
  by (cases k) (simp_all add: kind_from_byte_def)

lemma kind_byte_nonzero [simp]: "kind_byte k \<noteq> 0"
  by (cases k) simp_all

lemma length_record_encode [simp]: "length (pr_id r) = ID_SIZE \<Longrightarrow> length (record_encode C r) = RECORD_SIZE"
  by (simp add: record_encode_def put_defs ID_SIZE_def RECORD_SIZE_def)

lemma nth_field:
  assumes "layout_ok 0 at ps" "at + 4 \<le> n" "map_of ps i = Some [b]"
  shows "seal C n at ps ! i = b"
proof -
  have "i + 1 \<le> at" using assms map_of_layout by force
  then show ?thesis using seal_field [OF assms(1,2), of i 1] assms
    by (subst nth_eq_bslice) auto
qed

lemma record_round_trip:
  assumes "record_ok r"
  shows "record_decode C (record_encode C r @ rest) = SlotValid r"
proof -
  define ps where "ps = [(0, [kind_byte (pr_kind r)]), (1, [pr_flags r]), put_u16 2 (pr_index r), put_u32 4 (pr_len r),
        put_u64 8 (pr_batch r), put_u64 16 (pr_position r), put_u32 24 (pr_offset r),
        put_u32 28 (pr_entry_crc r), (32, pr_id r), put_u16 56 (pr_count r)]"
  have len: "length (pr_id r) = 24" and idx: "\<not> pr_count r \<le> pr_index r"
    using assms by (simp_all add: record_ok_def ID_SIZE_def not_le)
  have ok: "layout_ok 0 60 ps" "60 + 4 \<le> RECORD_SIZE" by (simp_all add: ps_def put_defs len RECORD_SIZE_def)
  have m: "map_of ps 2 = Some (to_le_bytes 2 (pr_index r))" "map_of ps 4 = Some (to_le_bytes 4 (pr_len r))"
    "map_of ps 8 = Some (to_le_bytes 8 (pr_batch r))" "map_of ps 16 = Some (to_le_bytes 8 (pr_position r))"
    "map_of ps 24 = Some (to_le_bytes 4 (pr_offset r))" "map_of ps 28 = Some (to_le_bytes 4 (pr_entry_crc r))"
    "map_of ps 32 = Some (pr_id r)" "map_of ps 56 = Some (to_le_bytes 2 (pr_count r))"
    by (simp_all add: ps_def put_defs)
  have buf: "bslice 0 RECORD_SIZE (record_encode C r @ rest) = seal C RECORD_SIZE 60 ps"
    unfolding record_encode_def ps_def [symmetric] using ok by (simp add: bslice_def)
  have b: "seal C RECORD_SIZE 60 ps ! 0 = kind_byte (pr_kind r)" "seal C RECORD_SIZE 60 ps ! 1 = pr_flags r"
    by (rule nth_field [OF ok], simp add: ps_def put_defs)+
  then have nz: "\<not> (\<forall>b \<in> set (seal C RECORD_SIZE 60 ps). b = 0)"
    using nth_mem [of 0 "seal C RECORD_SIZE 60 ps"] ok
    by (auto simp: RECORD_SIZE_def intro!: bexI [of _ "kind_byte (pr_kind r)"])
  show ?thesis
    unfolding record_decode_def buf Let_def seal_crc [OF ok]
    using idx nz b by (simp add: get_defs seal_field [OF ok] m from_to_le len)
qed

lemma record_decode_zero: "record_decode C (replicate RECORD_SIZE 0 @ rest) = SlotZero"
  by (simp add: record_decode_def bslice_def)

lemma record_decode_ok: "record_decode C buf = SlotValid r \<Longrightarrow> RECORD_SIZE \<le> length buf \<Longrightarrow> record_ok r"
  by (auto simp: record_decode_def record_ok_def Let_def ID_SIZE_def RECORD_SIZE_def split: if_splits option.splits)

lemma clear_end_clear_id: "pr_id r = clear_id e \<Longrightarrow> clear_end r = e"
  by (simp add: clear_end_def clear_id_def get_u64_def bslice_put_at_same ID_SIZE_def from_to_le)

section \<open>Entries\<close>

record entry_header =
  eh_kind :: kind
  eh_flags :: u8
  eh_index :: u16
  eh_count :: u16
  eh_batch :: u64
  eh_position :: u64
  eh_id :: ident
  eh_len :: u32
  eh_tag :: u32

definition footprint :: "u32 \<Rightarrow> nat" where
  "footprint len = align_up (RECORD_SIZE + unat len) 8"

text \<open>\<open>entry_crc\<close> clears the CRC field of the header, then covers header and payload.\<close>

definition entry_crc :: "crc_lib \<Rightarrow> bytes \<Rightarrow> bytes \<Rightarrow> u32" where
  "entry_crc C header payload =
     crc_append C (crc_of C (puts [put_u32 60 0] (bslice 0 RECORD_SIZE header))) payload"

definition entry_fields :: "entry_header \<Rightarrow> (nat \<times> bytes) list" where
  "entry_fields h =
     [put_u32 0 ENTRY_MAGIC, put_u32 4 (eh_len h), put_u64 8 (eh_batch h), put_u64 16 (eh_position h),
      put_u16 24 (eh_index h), put_u16 26 (eh_count h), (28, [kind_byte (eh_kind h)]),
      (29, [eh_flags h]), (32, eh_id h), put_u32 56 (eh_tag h)]"

text \<open>The header and payload, with the CRC it returns.\<close>

definition entry_encode :: "crc_lib \<Rightarrow> entry_header \<Rightarrow> bytes \<Rightarrow> u32 \<times> bytes" where
  "entry_encode C h payload =
     (let head = puts (entry_fields h) (replicate RECORD_SIZE 0);
          csum = entry_crc C head payload
      in (csum, puts [put_u32 60 csum] head @ payload))"

definition entry_parse :: "bytes \<Rightarrow> (entry_header \<times> u32) option" where
  "entry_parse bs =
     (if length bs < RECORD_SIZE \<or> get_u32 bs 0 \<noteq> ENTRY_MAGIC then None
      else case kind_from_byte (bs ! 28) of None \<Rightarrow> None
      | Some k \<Rightarrow>
        let h = \<lparr>eh_kind = k, eh_flags = bs ! 29, eh_index = get_u16 bs 24, eh_count = get_u16 bs 26,
                 eh_batch = get_u64 bs 8, eh_position = get_u64 bs 16, eh_id = bslice 32 24 bs,
                 eh_len = get_u32 bs 4, eh_tag = get_u32 bs 56\<rparr>
        in if eh_index h < eh_count h then Some (h, get_u32 bs 60) else None)"

definition header_ok :: "entry_header \<Rightarrow> bool" where
  "header_ok h = (eh_index h < eh_count h \<and> length (eh_id h) = ID_SIZE)"

lemma entry_layout: "header_ok h \<Longrightarrow> layout_ok 0 60 (entry_fields h)"
  by (simp add: header_ok_def entry_fields_def put_defs ID_SIZE_def)

lemma entry_head:
  assumes "header_ok h"
  defines "head \<equiv> puts (entry_fields h) (replicate RECORD_SIZE 0)"
  shows "length (puts [put_u32 60 v] head) = RECORD_SIZE"
    "bslice 0 RECORD_SIZE (puts [put_u32 60 v] head @ payload) = puts [put_u32 60 v] head"
    "puts [put_u32 60 0] (puts [put_u32 60 v] head) = puts [put_u32 60 0] head"
    "i + m \<le> 60 \<Longrightarrow> bslice i m (puts [put_u32 60 v] head @ payload) = bslice i m head"
    "get_u32 (puts [put_u32 60 v] head @ payload) 60 = v"
proof -
  have len: "length head = 64"
    using length_puts_replicate [OF layout_ok_mono [OF entry_layout [OF assms(1)], of 64], of 0]
    by (simp add: head_def RECORD_SIZE_def)
  then show l2: "length (puts [put_u32 60 v] head) = RECORD_SIZE" for v
    by (simp add: put_u32_def RECORD_SIZE_def)
  then show "bslice 0 RECORD_SIZE (puts [put_u32 60 v] head @ payload) = puts [put_u32 60 v] head"
    by (simp add: bslice_def)
  show "puts [put_u32 60 0] (puts [put_u32 60 v] head) = puts [put_u32 60 0] head"
    using len by (simp add: put_u32_def put_at_def)
  have app: "bslice i m (puts [put_u32 60 v] head @ payload) = bslice i m (puts [put_u32 60 v] head)"
    if "i + m \<le> 64" for i m
    using that l2 [of v] by (simp add: bslice_def RECORD_SIZE_def)
  show "i + m \<le> 60 \<Longrightarrow> bslice i m (puts [put_u32 60 v] head @ payload) = bslice i m head"
    using app [of i m] len by (simp add: put_u32_def bslice_put_at_before)
  show "get_u32 (puts [put_u32 60 v] head @ payload) 60 = v"
    using app [of 60 4] len by (simp add: get_u32_def put_u32_def bslice_put_at_same from_to_le)
qed

lemma entry_round_trip:
  assumes ok: "header_ok h" and enc: "entry_encode C h payload = (csum, bs)"
  shows "length bs = RECORD_SIZE + length payload" "entry_parse (bs @ rest) = Some (h, csum)"
    "entry_crc C (bslice 0 RECORD_SIZE (bs @ rest)) payload = csum"
    "bslice RECORD_SIZE (length payload) (bs @ rest) = payload"
proof -
  define head where "head = puts (entry_fields h) (replicate RECORD_SIZE 0)"
  have csum: "csum = entry_crc C head payload" and bs: "bs = puts [put_u32 60 csum] head @ payload"
    using enc by (auto simp: entry_encode_def Let_def head_def)
  note eh = entry_head [OF ok, folded head_def]
  show len: "length bs = RECORD_SIZE + length payload" using eh(1) bs by simp
  show "bslice RECORD_SIZE (length payload) (bs @ rest) = payload"
    using eh(1) bs by (simp add: bslice_def)
  have first: "bslice 0 RECORD_SIZE (bs @ rest) = puts [put_u32 60 csum] head"
    using eh(2) [of csum "payload @ rest"] bs by simp
  have "bslice 0 RECORD_SIZE head = head"
    using eh(1) by (simp add: put_u32_def RECORD_SIZE_def bslice_def put_at_def)
  with eh(2) [of csum "[]"] eh(3) show "entry_crc C (bslice 0 RECORD_SIZE (bs @ rest)) payload = csum"
    unfolding first csum entry_crc_def by simp
  have lid: "length (eh_id h) = 24" using ok by (simp add: header_ok_def ID_SIZE_def)
  have f: "bslice i m (bs @ rest) = the (map_of (entry_fields h) i)"
    if "map_of (entry_fields h) i \<noteq> None" "m = length (the (map_of (entry_fields h) i))" for i m
  proof -
    have "i + m \<le> 60" using map_of_layout [OF entry_layout [OF ok]] that by force
    then have "bslice i m (bs @ rest) = bslice i m head" using eh(4) [of i m csum "payload @ rest"] bs by simp
    also have "\<dots> = the (map_of (entry_fields h) i)"
      unfolding head_def using that layout_ok_mono [OF entry_layout [OF ok]]
      by (intro bslice_puts_replicate) (simp_all add: RECORD_SIZE_def)
    finally show ?thesis .
  qed
  have m: "map_of (entry_fields h) 0 = Some (to_le_bytes 4 ENTRY_MAGIC)" "map_of (entry_fields h) 4 = Some (to_le_bytes 4 (eh_len h))"
    "map_of (entry_fields h) 8 = Some (to_le_bytes 8 (eh_batch h))" "map_of (entry_fields h) 16 = Some (to_le_bytes 8 (eh_position h))"
    "map_of (entry_fields h) 24 = Some (to_le_bytes 2 (eh_index h))" "map_of (entry_fields h) 26 = Some (to_le_bytes 2 (eh_count h))"
    "map_of (entry_fields h) 28 = Some [kind_byte (eh_kind h)]" "map_of (entry_fields h) 29 = Some [eh_flags h]"
    "map_of (entry_fields h) 32 = Some (eh_id h)" "map_of (entry_fields h) 56 = Some (to_le_bytes 4 (eh_tag h))"
    by (simp_all add: entry_fields_def put_defs)
  have long: "64 \<le> length (bs @ rest)" using len by (simp add: RECORD_SIZE_def)
  have b: "(bs @ rest) ! 28 = kind_byte (eh_kind h)" "(bs @ rest) ! 29 = eh_flags h"
    using f [of 28 1] f [of 29 1] m long nth_eq_bslice [of 28 "bs @ rest"] nth_eq_bslice [of 29 "bs @ rest"] by simp_all
  have "get_u32 (bs @ rest) 60 = csum" using eh(5) [of csum "payload @ rest"] bs by simp
  then show "entry_parse (bs @ rest) = Some (h, csum)"
    using b ok long f m unfolding entry_parse_def
    by (simp add: RECORD_SIZE_def header_ok_def get_u16_def get_u64_def get_u32_def [of _ 0] get_u32_def [of _ 4]
      get_u32_def [of _ 56] f m from_to_le lid Let_def)
qed

lemma entry_parse_ok: "entry_parse bs = Some (h, csum) \<Longrightarrow> header_ok h"
  by (auto simp: entry_parse_def header_ok_def Let_def ID_SIZE_def RECORD_SIZE_def split: if_splits option.splits)

lemma entry_parse_zero: "ENTRY_MAGIC \<noteq> get_u32 bs 0 \<Longrightarrow> entry_parse bs = None"
  by (simp add: entry_parse_def)

section \<open>Generations\<close>

definition GENERATION_SHIFT :: nat where "GENERATION_SHIFT = 40"

definition generation_of :: "u64 \<Rightarrow> u64" where
  "generation_of batch = drop_bit GENERATION_SHIFT batch"

definition first_batch_of :: "u64 \<Rightarrow> u64" where
  "first_batch_of generation = push_bit GENERATION_SHIFT generation + 1"

lemma unat_first_batch_of: "unat g < 2 ^ 24 \<Longrightarrow> unat (first_batch_of g) = unat g * 2 ^ 40 + 1"
proof -
  assume g: "unat g < 2 ^ 24"
  have "unat (push_bit 40 g) = unat g * 2 ^ 40"
    using g by (simp add: push_bit_eq_mult unat_word_ariths)
  then show ?thesis using g
    by (simp add: first_batch_of_def GENERATION_SHIFT_def unat_word_ariths)
qed

lemma unat_generation_of: "unat (generation_of b) = unat b div 2 ^ 40"
  by (simp add: generation_of_def GENERATION_SHIFT_def drop_bit_eq_div unat_div)

section \<open>Metainfo\<close>

record meta =
  mt_seq :: u64
  mt_journal :: journal_id
  mt_floor :: u64
  mt_last_batch :: u64
  mt_open_generation :: u32
  mt_open_last :: u64
  mt_geometry :: geometry
  mt_bytes :: bytes

definition meta_encode :: "crc_lib \<Rightarrow> u8 \<Rightarrow> meta \<Rightarrow> bytes" where
  "meta_encode C copy m =
     seal C BLOCK META_CRC_AT
       [put_u32 0 META_MAGIC, put_u16 4 VERSION, (6, [copy]), put_u128 8 (mt_journal m),
        put_u64 24 (mt_seq m), put_u64 32 (mt_floor m), put_u64 40 (mt_last_batch m),
        put_u32 48 (persist_blocks (mt_geometry m)), put_u32 52 (gap_blocks (mt_geometry m)),
        put_u32 56 (entry_blocks (mt_geometry m)), put_u64 64 (mt_open_last m),
        put_u32 72 (mt_open_generation m), put_u32 76 (of_nat (length (mt_bytes m))),
        (META_BYTES_AT, mt_bytes m)]"

definition meta_decode :: "crc_lib \<Rightarrow> u8 \<Rightarrow> bytes \<Rightarrow> meta option" where
  "meta_decode C copy block =
     (if get_u32 block 0 \<noteq> META_MAGIC \<or> get_u16 block 4 \<noteq> VERSION \<or> block ! 6 \<noteq> copy
         \<or> get_u32 block META_CRC_AT \<noteq> crc_of C (bslice 0 META_CRC_AT block)
      then None
      else let len = unat (get_u32 block 76) in
        if len > META_MAX then None
        else Some \<lparr>mt_seq = get_u64 block 24, mt_journal = get_u128 block 8, mt_floor = get_u64 block 32,
          mt_last_batch = get_u64 block 40, mt_open_generation = get_u32 block 72,
          mt_open_last = get_u64 block 64,
          mt_geometry = \<lparr>persist_blocks = get_u32 block 48, gap_blocks = get_u32 block 52,
            entry_blocks = get_u32 block 56\<rparr>,
          mt_bytes = bslice META_BYTES_AT len block\<rparr>)"

lemma meta_encoded:
  fixes m :: meta
  assumes "length (mt_bytes m) \<le> META_MAX"
  shows "length (meta_encode C copy m) = BLOCK" "meta_encode C copy m ! 6 = copy"
    "meta_decode C copy (meta_encode C copy m) = Some m"
proof -
  define ps where "ps = [put_u32 0 META_MAGIC, put_u16 4 VERSION, (6, [copy]), put_u128 8 (mt_journal m),
        put_u64 24 (mt_seq m), put_u64 32 (mt_floor m), put_u64 40 (mt_last_batch m),
        put_u32 48 (persist_blocks (mt_geometry m)), put_u32 52 (gap_blocks (mt_geometry m)),
        put_u32 56 (entry_blocks (mt_geometry m)), put_u64 64 (mt_open_last m),
        put_u32 72 (mt_open_generation m), put_u32 76 (of_nat (length (mt_bytes m))),
        (META_BYTES_AT, mt_bytes m)]"
  have len: "length (mt_bytes m) \<le> 4012"
    using assms by (simp add: META_MAX_def META_CRC_AT_def META_BYTES_AT_def BLOCK_def)
  have ok: "layout_ok 0 4092 ps" "4092 + 4 \<le> BLOCK"
    using len by (simp_all add: ps_def put_defs META_BYTES_AT_def BLOCK_def)
  have mp: "map_of ps 0 = Some (to_le_bytes 4 META_MAGIC)" "map_of ps 4 = Some (to_le_bytes 2 VERSION)"
    "map_of ps 8 = Some (to_le_bytes 16 (mt_journal m))" "map_of ps 24 = Some (to_le_bytes 8 (mt_seq m))"
    "map_of ps 32 = Some (to_le_bytes 8 (mt_floor m))" "map_of ps 40 = Some (to_le_bytes 8 (mt_last_batch m))"
    "map_of ps 48 = Some (to_le_bytes 4 (persist_blocks (mt_geometry m)))"
    "map_of ps 52 = Some (to_le_bytes 4 (gap_blocks (mt_geometry m)))"
    "map_of ps 56 = Some (to_le_bytes 4 (entry_blocks (mt_geometry m)))"
    "map_of ps 64 = Some (to_le_bytes 8 (mt_open_last m))" "map_of ps 72 = Some (to_le_bytes 4 (mt_open_generation m))"
    "map_of ps 76 = Some (to_le_bytes 4 (of_nat (length (mt_bytes m)) :: u32))" "map_of ps 80 = Some (mt_bytes m)"
    by (simp_all add: ps_def put_defs META_BYTES_AT_def)
  have enc: "meta_encode C copy m = seal C BLOCK 4092 ps"
    by (simp add: meta_encode_def ps_def META_CRC_AT_def BLOCK_def)
  show "length (meta_encode C copy m) = BLOCK" using ok by (simp add: enc)
  show c: "meta_encode C copy m ! 6 = copy"
    unfolding enc by (rule nth_field [OF ok]) (simp add: ps_def put_defs)
  have cnt: "unat (of_nat (length (mt_bytes m)) :: u32) = length (mt_bytes m)"
    using len by (simp add: unat_of_nat)
  have crc: "get_u32 (meta_encode C copy m) META_CRC_AT = crc_of C (bslice 0 META_CRC_AT (meta_encode C copy m))"
    using seal_crc [OF ok] by (simp add: enc META_CRC_AT_def BLOCK_def)
  have fields: "bslice i n (meta_encode C copy m) = the (map_of ps i)"
    if "map_of ps i \<noteq> None" "n = length (the (map_of ps i))" for i n
    unfolding enc using seal_field [OF ok that] .
  show "meta_decode C copy (meta_encode C copy m) = Some m"
    unfolding meta_decode_def crc c META_BYTES_AT_def using assms
    by (simp add: get_defs fields mp from_to_le cnt Let_def)
qed

text \<open>A copy decodes only in its own place.\<close>

lemma meta_decode_place:
  "length (mt_bytes m) \<le> META_MAX \<Longrightarrow> copy \<noteq> copy' \<Longrightarrow> meta_decode C copy' (meta_encode C copy m) = None"
  by (simp add: meta_decode_def meta_encoded)

section \<open>Properties\<close>

text \<open>A small instance of the CRC parameter and of the structures, for concrete evaluation.\<close>

definition sum_crc :: crc_lib where
  "sum_crc = \<lparr>crc_of = (\<lambda>bs. sum_list (map ucast bs)), crc_append = (\<lambda>c bs. c + sum_list (map ucast bs))\<rparr>"

definition sample_record :: precord where
  "sample_record = \<lparr>pr_kind = Put, pr_flags = FLAG_ORDERED, pr_index = 3, pr_count = 9, pr_batch = 42,
     pr_position = 7, pr_id = replicate 24 5, pr_offset = 8192, pr_len = 100, pr_entry_crc = 0xDEADBEEF\<rparr>"

definition sample_header :: entry_header where
  "sample_header = \<lparr>eh_kind = Put, eh_flags = 0, eh_index = 0, eh_count = 1, eh_batch = 1,
     eh_position = 9, eh_id = replicate 24 1, eh_len = 5, eh_tag = 77\<rparr>"

definition sample_meta :: meta where
  "sample_meta = \<lparr>mt_seq = 3, mt_journal = 9, mt_floor = 4, mt_last_batch = 2, mt_open_generation = 3,
     mt_open_last = 2, mt_geometry = geometry_small, mt_bytes = [115, 116, 97, 116, 101]\<rparr>"

lemma sample_ok:
  "record_ok sample_record" "header_ok sample_header" "length (mt_bytes sample_meta) \<le> META_MAX"
  by (simp_all add: record_ok_def sample_record_def header_ok_def sample_header_def sample_meta_def
    ID_SIZE_def META_MAX_def META_CRC_AT_def META_BYTES_AT_def BLOCK_def)

text \<open>C24. The postcondition the encoders assert always holds: a segment header, a persist record (with its
  index inside its batch), a metainfo copy of at most \<open>META_MAX\<close> bytes and an entry all decode back to
  what was encoded; the entry's stored CRC is the CRC of what was written, whatever bytes follow; and a
  metainfo copy never decodes in its twin's place.\<close>

theorem formats_round_trip:
  assumes "record_ok r" and "header_ok h" and "length (mt_bytes m) \<le> META_MAX" and "copy \<noteq> copy'"
  shows "segment_header_decode C (segment_header_encode C sh) = Some sh \<and>
    record_decode C (record_encode C r @ rest) = SlotValid r \<and>
    meta_decode C copy (meta_encode C copy m) = Some m \<and> meta_decode C copy' (meta_encode C copy m) = None \<and>
    (case entry_encode C h payload of (csum, bs) \<Rightarrow>
       entry_parse (bs @ rest) = Some (h, csum) \<and>
       entry_crc C (bslice 0 RECORD_SIZE (bs @ rest)) (bslice RECORD_SIZE (length payload) (bs @ rest)) = csum \<and>
       bslice RECORD_SIZE (length payload) (bs @ rest) = payload)"
  using assms entry_round_trip [OF assms(2), of C payload]
  by (auto simp: segment_header_round_trip record_round_trip meta_encoded meta_decode_place split: prod.split)

lemma formats_round_trip_witness:
  "record_ok sample_record \<and> header_ok sample_header \<and>
   record_decode sum_crc (record_encode sum_crc sample_record @ []) = SlotValid sample_record \<and>
   meta_decode sum_crc 0 (meta_encode sum_crc 0 sample_meta) = Some sample_meta \<and>
   meta_decode sum_crc 1 (meta_encode sum_crc 0 sample_meta) = None"
  using formats_round_trip [OF sample_ok, of 0 1 sum_crc _ "[]"] sample_ok by simp

text \<open>C25. Batch numbers carry their open generation: for every generation below \<open>2^24\<close> (the bits above
  \<open>GENERATION_SHIFT\<close>), the first batch of a generation belongs to it and is greater than every batch of
  an earlier one. The bound is sharp: generation \<open>2^24\<close>, which the \<open>u32\<close> counter of the metainfo admits,
  starts over at batch 1.\<close>

theorem generations_order_batches:
  "(unat g < 2 ^ 24 \<longrightarrow>
     generation_of (first_batch_of g) = g \<and>
     (\<forall>b. generation_of b < g \<longrightarrow> b < first_batch_of g)) \<and>
   first_batch_of (2 ^ 24) = 1"
proof (intro conjI impI allI)
  assume g: "unat g < 2 ^ 24"
  then show "generation_of (first_batch_of g) = g"
    by (simp add: word_unat_eq_iff unat_generation_of unat_first_batch_of)
  fix b assume "generation_of b < g"
  then have "unat b div 2 ^ 40 < unat g" by (simp add: word_less_nat_alt unat_generation_of)
  then have "unat b < unat g * 2 ^ 40" by (simp add: div_less_iff_less_mult)
  then show "b < first_batch_of g" using g by (simp add: word_less_nat_alt unat_first_batch_of)
next
  show "first_batch_of (2 ^ 24) = 1" by (simp add: first_batch_of_def GENERATION_SHIFT_def push_bit_eq_mult)
qed

lemma generations_order_batches_witness:
  "unat (7 :: u64) < 2 ^ 24 \<and> generation_of (first_batch_of 7) = 7 \<and> first_batch_of 7 = 0x70000000001 \<and>
   generation_of 0x6ffffffffff < 7 \<and> (0x6ffffffffff :: u64) < first_batch_of 7"
  using generations_order_batches [of 7]
  by (simp add: generation_of_def first_batch_of_def GENERATION_SHIFT_def push_bit_eq_mult drop_bit_eq_div)

end
