(* ===== verification/Journal_Batch.thy ===== *)
theory Journal_Batch
  imports Journal_Format
begin

text \<open>
  A batch and how a commit lays it out (\<open>crates/moonpool-journal/src/batch.rs\<close>, and \<open>prepare\<close> and
  \<open>place\<close> of \<open>journal.rs\<close>): the writes are staged in order, the batch is admitted if it fits one empty
  segment, its entries are packed back to back in one buffer, and its persist records are encoded once
  a place in a segment is known. The theory shows that \<open>Batch::fits\<close> is exactly what makes the layout
  succeed: none of its assertions fires.
\<close>

section \<open>Batches\<close>

datatype jwrite = WPut u64 ident bytes | WClear u64 u64

record batch =
  bt_writes :: "jwrite list"
  bt_floor :: "u64 option"
  bt_meta :: "bytes option"

definition batch_new :: batch where
  "batch_new = \<lparr>bt_writes = [], bt_floor = None, bt_meta = None\<rparr>"

definition batch_put :: "u64 \<Rightarrow> ident \<Rightarrow> bytes \<Rightarrow> batch \<Rightarrow> batch" where
  "batch_put position i payload b = b\<lparr>bt_writes := bt_writes b @ [WPut position i payload]\<rparr>"

definition batch_clear :: "u64 \<Rightarrow> u64 \<Rightarrow> batch \<Rightarrow> batch" where
  "batch_clear start stop b =
     (if start < stop then b\<lparr>bt_writes := bt_writes b @ [WClear start stop]\<rparr> else b)"

definition truncate_prefix :: "u64 \<Rightarrow> batch \<Rightarrow> batch" where
  "truncate_prefix floor b =
     b\<lparr>bt_floor := Some (case bt_floor b of None \<Rightarrow> floor | Some f \<Rightarrow> max f floor)\<rparr>"

definition set_meta :: "bytes \<Rightarrow> batch \<Rightarrow> batch" where
  "set_meta m b = b\<lparr>bt_meta := Some m\<rparr>"

fun payload_of :: "jwrite \<Rightarrow> bytes" where
  "payload_of (WPut _ _ payload) = payload"
| "payload_of (WClear _ _) = []"

fun footprints :: "nat list \<Rightarrow> nat option" where
  "footprints [] = Some 0"
| "footprints (len # lens) =
     (if len < 2 ^ 32
      then map_option (\<lambda>n. footprint (of_nat len) + n) (footprints lens)
      else None)"

definition fits_with :: "geometry \<Rightarrow> nat option \<Rightarrow> batch \<Rightarrow> bool" where
  "fits_with g another b =
     (let count = length (bt_writes b) + (if another \<noteq> None then 1 else 0) in
      if count > MAX_BATCH_RECORDS then False
      else case footprints (map (\<lambda>w. length (payload_of w)) (bt_writes b) @
              (case another of None \<Rightarrow> [] | Some len \<Rightarrow> [len])) of
        None \<Rightarrow> False
      | Some entry_bytes \<Rightarrow>
          blocks_for count \<le> unat (persist_blocks g)
          \<and> align_up entry_bytes BLOCK \<le> unat (entry_blocks g) * BLOCK)"

definition fits :: "geometry \<Rightarrow> batch \<Rightarrow> bool" where
  "fits g b = fits_with g None b"

definition fits_another :: "geometry \<Rightarrow> nat \<Rightarrow> batch \<Rightarrow> bool" where
  "fits_another g payload_len b = fits_with g (Some payload_len) b"

definition batch_is_empty :: "batch \<Rightarrow> bool" where
  "batch_is_empty b = (bt_writes b = [] \<and> bt_floor b = None \<and> bt_meta b = None)"

section \<open>Laying out a batch\<close>

datatype durable = DurableNo | DurableUnknown

text \<open>
  The errors of \<open>commit\<close>; an assertion of the code that would fail is the value \<open>AssertionFailed\<close>, and
  the provider's own error is not distinguished further.
\<close>

datatype commit_error =
    BelowFloor u64 u64 | MetaTooLarge nat | BatchTooLarge | CommitIo durable | Poisoned | AssertionFailed

datatype durability = Batched | Ordered

record prepared =
  pp_seq :: u64
  pp_entries :: bytes
  pp_records :: bytes
  pp_decoded :: "precord list"
  pp_persist_at :: nat
  pp_entry_at :: nat

fun write_parts :: "jwrite \<Rightarrow> kind \<times> u64 \<times> ident \<times> bytes" where
  "write_parts (WPut position i payload) = (Put, position, i, payload)"
| "write_parts (WClear start stop) = (Clear, start, clear_id stop, [])"

definition write_header :: "u8 \<Rightarrow> u16 \<Rightarrow> u64 \<Rightarrow> u32 \<Rightarrow> u16 \<Rightarrow> jwrite \<Rightarrow> entry_header" where
  "write_header flags count seq tag index w =
     (case write_parts w of (k, position, i, payload) \<Rightarrow>
        \<lparr>eh_kind = k, eh_flags = flags, eh_index = index, eh_count = count, eh_batch = seq,
          eh_position = position, eh_id = i, eh_len = of_nat (length payload), eh_tag = tag\<rparr>)"

definition record_for :: "entry_header \<Rightarrow> u32 \<Rightarrow> u32 \<Rightarrow> precord" where
  "record_for h offset crc =
     \<lparr>pr_kind = eh_kind h, pr_flags = eh_flags h, pr_index = eh_index h, pr_count = eh_count h,
      pr_batch = eh_batch h, pr_position = eh_position h, pr_id = eh_id h, pr_offset = offset,
      pr_len = eh_len h, pr_entry_crc = crc\<rparr>"

text \<open>The encoding loop of \<open>prepare\<close>: each entry goes at the running offset of the zeroed buffer.\<close>

fun prepare_entries ::
  "crc_lib \<Rightarrow> u8 \<Rightarrow> u16 \<Rightarrow> u64 \<Rightarrow> u32 \<Rightarrow> u16 \<Rightarrow> nat \<Rightarrow> jwrite list \<Rightarrow> bytes \<Rightarrow>
   commit_error + (precord list \<times> bytes \<times> nat)" where
  "prepare_entries C flags count seq tag index start [] buf = Inr ([], buf, start)"
| "prepare_entries C flags count seq tag index start (w # ws) buf =
     (let payload = payload_of w; h = write_header flags count seq tag index w in
      if length payload \<ge> 2 ^ 32 then Inl BatchTooLarge
      else case entry_encode C h payload of (crc, bs) \<Rightarrow>
        if start \<ge> 2 ^ 32 then Inl BatchTooLarge
        else and_then
          (prepare_entries C flags count seq tag (index + 1) (start + footprint (eh_len h)) ws
            (put_at start bs buf))
          (\<lambda>(rs, buf, stop). Inr (record_for h (of_nat start) crc # rs, buf, stop)))"

definition flags_of :: "durability \<Rightarrow> u8" where
  "flags_of d = (case d of Ordered \<Rightarrow> FLAG_ORDERED | Batched \<Rightarrow> 0)"

definition next_seq :: "u32 \<Rightarrow> u64 \<Rightarrow> u64" where
  "next_seq generation last_batch =
     (if generation_of last_batch = ucast generation then last_batch + 1
      else first_batch_of (ucast generation))"

definition prepare ::
  "crc_lib \<Rightarrow> geometry \<Rightarrow> durability \<Rightarrow> u32 \<Rightarrow> u32 \<Rightarrow> u64 \<Rightarrow> batch \<Rightarrow> commit_error + prepared" where
  "prepare C g d tag generation last_batch b =
     (let seq = next_seq generation last_batch in
      if \<not> seq > last_batch then Inl AssertionFailed
      else if length (bt_writes b) \<ge> 2 ^ 16 then Inl BatchTooLarge
      else case footprints (map (\<lambda>w. length (payload_of w)) (bt_writes b)) of None \<Rightarrow> Inl BatchTooLarge
      | Some total_bytes \<Rightarrow>
        and_then (prepare_entries C (flags_of d) (of_nat (length (bt_writes b))) seq tag 0 0
            (bt_writes b) (replicate (align_up total_bytes BLOCK) 0))
          (\<lambda>(decoded, entries, stop).
             if stop \<noteq> total_bytes
                \<or> \<not> blocks_for (length decoded) \<le> unat (persist_blocks g)
                \<or> \<not> length entries \<le> unat (entry_blocks g) * BLOCK
             then Inl AssertionFailed
             else Inr \<lparr>pp_seq = seq, pp_entries = entries,
               pp_records = replicate (blocks_for (length decoded) * BLOCK) 0,
               pp_decoded = decoded, pp_persist_at = 0, pp_entry_at = 0\<rparr>))"

text \<open>\<open>place\<close> fixes the offsets and encodes the records, slot by slot.\<close>

definition place_record :: "nat \<Rightarrow> precord \<Rightarrow> precord" where
  "place_record entry_at r = r\<lparr>pr_offset := of_nat (entry_at + unat (pr_offset r))\<rparr>"

fun encode_slots :: "crc_lib \<Rightarrow> nat \<Rightarrow> precord list \<Rightarrow> bytes \<Rightarrow> bytes" where
  "encode_slots C slot [] buf = buf"
| "encode_slots C slot (r # rs) buf =
     encode_slots C (Suc slot) rs (put_at (slot * RECORD_SIZE) (record_encode C r) buf)"

definition place :: "crc_lib \<Rightarrow> nat \<Rightarrow> nat \<Rightarrow> prepared \<Rightarrow> commit_error + prepared" where
  "place C persist_at entry_at p =
     (if \<not> (BLOCK dvd persist_at \<and> BLOCK dvd entry_at)
         \<or> (\<exists>r \<in> set (pp_decoded p). entry_at + unat (pr_offset r) \<ge> 2 ^ 32)
      then Inl AssertionFailed
      else let decoded = map (place_record entry_at) (pp_decoded p) in
        Inr (p\<lparr>pp_persist_at := persist_at, pp_entry_at := entry_at, pp_decoded := decoded,
               pp_records := encode_slots C 0 decoded (pp_records p)\<rparr>))"

section \<open>The layout of a prepared batch\<close>

lemma footprint_eq: "footprint len = 8 * ((unat len + 71) div 8)"
  by (simp add: footprint_def align_up_def RECORD_SIZE_def algebra_simps)

lemma footprint_ge: "RECORD_SIZE + unat len \<le> footprint len"
  by (simp add: footprint_eq RECORD_SIZE_def)

lemma unat_len: "n < 2 ^ 32 \<Longrightarrow> unat (of_nat n :: u32) = n"
  by (simp add: unat_of_nat)

lemma footprints_Cons:
  "footprints (len # lens) = Some n \<longleftrightarrow>
   len < 2 ^ 32 \<and> (\<exists>m. footprints lens = Some m \<and> n = footprint (of_nat len) + m)"
  by auto

lemma write_header_simps [simp]:
  "eh_flags (write_header f c s t i w) = f" "eh_count (write_header f c s t i w) = c"
  "eh_batch (write_header f c s t i w) = s" "eh_tag (write_header f c s t i w) = t"
  "eh_index (write_header f c s t i w) = i"
  "eh_len (write_header f c s t i w) = of_nat (length (payload_of w))"
  "eh_kind (write_header f c s t i w) \<noteq> Void"
  by (cases w; simp add: write_header_def)+

definition ids_ok :: "jwrite list \<Rightarrow> bool" where
  "ids_ok ws = (\<forall>w \<in> set ws. case w of WPut _ i _ \<Rightarrow> length i = ID_SIZE | WClear _ _ \<Rightarrow> True)"

lemma length_clear_id [simp]: "length (clear_id e) = ID_SIZE"
  by (simp add: clear_id_def ID_SIZE_def)

lemma header_ok_write: "ids_ok (w # ws) \<Longrightarrow> i < c \<Longrightarrow> header_ok (write_header f c s t i w)"
  by (cases w) (auto simp: header_ok_def write_header_def ids_ok_def)

text \<open>The header an entry has beside the record that names it.\<close>

definition header_of :: "u32 \<Rightarrow> precord \<Rightarrow> entry_header" where
  "header_of tag r =
     \<lparr>eh_kind = pr_kind r, eh_flags = pr_flags r, eh_index = pr_index r, eh_count = pr_count r,
      eh_batch = pr_batch r, eh_position = pr_position r, eh_id = pr_id r, eh_len = pr_len r, eh_tag = tag\<rparr>"

lemma header_of_record_for: "eh_tag h = tag \<Longrightarrow> header_of tag (record_for h off crc) = h"
  by (simp add: header_of_def record_for_def)

text \<open>Records and payloads packed back to back in \<open>img\<close> from \<open>off\<close> on.\<close>

fun packed :: "crc_lib \<Rightarrow> u32 \<Rightarrow> bytes \<Rightarrow> nat \<Rightarrow> (precord \<times> bytes) list \<Rightarrow> bool" where
  "packed C tag img off [] = True"
| "packed C tag img off ((r, payload) # rs) =
     (unat (pr_offset r) = off \<and> unat (pr_len r) = length payload \<and>
      (case entry_encode C (header_of tag r) payload of (crc, bs) \<Rightarrow>
         crc = pr_entry_crc r \<and> bslice off (RECORD_SIZE + length payload) img = bs) \<and>
      packed C tag img (off + footprint (pr_len r)) rs)"

fun extent :: "(precord \<times> bytes) list \<Rightarrow> nat" where
  "extent [] = 0"
| "extent ((r, _) # rs) = footprint (pr_len r) + extent rs"

text \<open>The records of one batch, in order, and the writes they stand for.\<close>

fun records_for :: "u8 \<Rightarrow> u16 \<Rightarrow> u64 \<Rightarrow> nat \<Rightarrow> jwrite list \<Rightarrow> precord list \<Rightarrow> bool" where
  "records_for f c s i [] [] = True"
| "records_for f c s i (w # ws) (r # rs) =
     ((pr_kind r, pr_position r, pr_id r, pr_flags r, pr_count r, pr_batch r) =
        (case write_parts w of (k, position, d, _) \<Rightarrow> (k, position, d, f, c, s)) \<and>
      unat (pr_index r) = i \<and> records_for f c s (Suc i) ws rs)"
| "records_for f c s i _ _ = False"

lemma prepare_entries_spec:
  assumes "footprints (map (\<lambda>w. length (payload_of w)) ws) = Some n" "start + n \<le> length buf"
    "start + n \<le> 2 ^ 32" "ids_ok ws" "unat index + length ws \<le> unat count"
  shows "\<exists>rs buf'. prepare_entries C f count seq tag index start ws buf = Inr (rs, buf', start + n) \<and>
    length buf' = length buf \<and> packed C tag buf' start (zip rs (map payload_of ws)) \<and>
    records_for f count seq (unat index) ws rs \<and> extent (zip rs (map payload_of ws)) = n \<and>
    length rs = length ws \<and>
    (\<forall>i m. i + m \<le> start \<longrightarrow> bslice i m buf' = bslice i m buf)"
  using assms
proof (induction ws arbitrary: index start buf n)
  case Nil
  then show ?case by simp
next
  case (Cons w ws)
  define h where "h = write_header f count seq tag index w"
  define payload where "payload = payload_of w"
  from Cons.prems(1) obtain m where len: "length payload < 2 ^ 32" and m: "footprints (map (\<lambda>w. length (payload_of w)) ws) = Some m"
    and n: "n = footprint (of_nat (length payload)) + m"
    by (auto simp: payload_def split: if_splits)
  obtain crc bs where enc: "entry_encode C h payload = (crc, bs)" by (cases "entry_encode C h payload")
  have idx: "index < count" using Cons.prems(5) by (simp add: word_less_nat_alt)
  have hok: "header_ok h" unfolding h_def using Cons.prems(4) idx by (rule header_ok_write)
  have lbs: "length bs = RECORD_SIZE + length payload" by (rule entry_round_trip(1) [OF hok enc])
  have fp: "RECORD_SIZE + length payload \<le> footprint (of_nat (length payload))"
    using footprint_ge [of "of_nat (length payload)"] len by (simp add: unat_len)
  let ?start = "start + footprint (of_nat (length payload))"
  have fit: "start + length bs \<le> length buf" using Cons.prems(2) n fp lbs by simp
  have st: "start < 2 ^ 32" using Cons.prems(3) n fp by (simp add: RECORD_SIZE_def)
  have ui: "unat (index + 1) = Suc (unat index)"
    using Cons.prems(5) unsigned_less [of count, where 'a = nat] by (simp add: unat_word_ariths)
  have "?start + m \<le> length (put_at start bs buf)" "?start + m \<le> 2 ^ 32" "ids_ok ws"
    "unat (index + 1) + length ws \<le> unat count"
    using Cons.prems fit n ui by (auto simp: ids_ok_def)
  from Cons.IH [OF m this] obtain rs buf' where
    rec: "prepare_entries C f count seq tag (index + 1) ?start ws (put_at start bs buf) = Inr (rs, buf', ?start + m)"
    and l: "length buf' = length (put_at start bs buf)" "length rs = length ws"
    and pk: "packed C tag buf' ?start (zip rs (map payload_of ws))"
    and rf: "records_for f count seq (unat (index + 1)) ws rs"
    and ex: "extent (zip rs (map payload_of ws)) = m"
    and low: "\<forall>i m. i + m \<le> ?start \<longrightarrow> bslice i m buf' = bslice i m (put_at start bs buf)" by blast
  define r where "r = record_for h (of_nat start) crc"
  have run: "prepare_entries C f count seq tag index start (w # ws) buf = Inr (r # rs, buf', start + n)"
    using enc rec len st n by (simp add: Let_def h_def payload_def r_def [unfolded h_def] add.assoc not_le)
  have here: "bslice start (RECORD_SIZE + length payload) buf' = bs"
    using low fp fit lbs by (simp add: bslice_put_at_same)
  have hr: "header_of tag r = h" unfolding r_def by (rule header_of_record_for) (simp add: h_def)
  have off: "unat (pr_offset r) = start" using st by (simp add: r_def record_for_def unat_len)
  have plen: "pr_len r = of_nat (length payload)" by (simp add: r_def record_for_def h_def payload_def)
  have "packed C tag buf' start ((r, payload) # zip rs (map payload_of ws))"
    using enc hr off here pk plen len by (simp add: unat_len r_def record_for_def)
  moreover have "records_for f count seq (unat index) (w # ws) (r # rs)"
    using rf ui by (cases w) (simp_all add: r_def record_for_def h_def write_header_def)
  moreover have "\<forall>i m. i + m \<le> start \<longrightarrow> bslice i m buf' = bslice i m buf"
    using low fit by (auto simp: bslice_put_at_before)
  ultimately show ?case using run l fit ex n plen payload_def
    by (intro exI [of _ "r # rs"] exI [of _ buf']) simp
qed

lemma blocks_for_bound: "count * RECORD_SIZE \<le> blocks_for count * BLOCK"
proof -
  have "BLOCK dvd align_up (count * RECORD_SIZE) BLOCK" by (rule align_up_dvd)
  then have "blocks_for count * BLOCK = align_up (count * RECORD_SIZE) BLOCK" by (simp add: blocks_for_def)
  then show ?thesis using align_up_ge [of BLOCK "count * RECORD_SIZE"] by (simp add: BLOCK_def)
qed

lemma blocks_for_pos: "0 < count \<Longrightarrow> 0 < blocks_for count"
  using blocks_for_bound [of count] by (cases "blocks_for count") (auto simp: RECORD_SIZE_def)

lemma prepare_ok:
  assumes fit: "fits g b" and valid: "is_valid g" and ids: "ids_ok (bt_writes b)"
    and seq: "last_batch < next_seq generation last_batch"
  obtains p where "prepare C g d tag generation last_batch b = Inr p"
    "pp_seq p = next_seq generation last_batch"
    "packed C tag (pp_entries p) 0 (zip (pp_decoded p) (map payload_of (bt_writes b)))"
    "records_for (flags_of d) (of_nat (length (bt_writes b))) (pp_seq p) 0 (bt_writes b) (pp_decoded p)"
    "length (pp_decoded p) = length (bt_writes b)"
    "length (pp_entries p) = align_up (extent (zip (pp_decoded p) (map payload_of (bt_writes b)))) BLOCK"
    "length (pp_entries p) \<le> unat (entry_blocks g) * BLOCK"
    "pp_records p = replicate (blocks_for (length (bt_writes b)) * BLOCK) 0"
    "blocks_for (length (bt_writes b)) \<le> unat (persist_blocks g)"
proof -
  let ?ws = "bt_writes b"
  from fit obtain n where n: "footprints (map (\<lambda>w. length (payload_of w)) ?ws) = Some n"
    and cnt: "length ?ws \<le> 65535" and pb: "blocks_for (length ?ws) \<le> unat (persist_blocks g)"
    and eb: "align_up n BLOCK \<le> unat (entry_blocks g) * BLOCK"
    by (auto simp: fits_def fits_with_def Let_def MAX_BATCH_RECORDS_def not_less split: if_splits option.splits)
  have "n \<le> align_up n BLOCK" by (rule align_up_ge) (simp add: BLOCK_def)
  moreover have "unat (entry_blocks g) * BLOCK \<le> total_blocks g * BLOCK"
    by (simp add: total_blocks_def BLOCK_def)
  ultimately have n32: "n \<le> 2 ^ 32" using eb valid unfolding is_valid_def by linarith
  have uc: "unat (of_nat (length ?ws) :: u16) = length ?ws" using cnt by (simp add: unat_of_nat)
  have "\<exists>rs buf'. prepare_entries C (flags_of d) (of_nat (length ?ws)) (next_seq generation last_batch) tag 0 0 ?ws
      (replicate (align_up n BLOCK) 0) = Inr (rs, buf', 0 + n) \<and>
    length buf' = length (replicate (align_up n BLOCK) (0::u8)) \<and> packed C tag buf' 0 (zip rs (map payload_of ?ws)) \<and>
    records_for (flags_of d) (of_nat (length ?ws)) (next_seq generation last_batch) (unat (0::u16)) ?ws rs \<and>
    extent (zip rs (map payload_of ?ws)) = n \<and> length rs = length ?ws \<and>
    (\<forall>i m. i + m \<le> 0 \<longrightarrow> bslice i m buf' = bslice i m (replicate (align_up n BLOCK) 0))"
    using n32 ids uc \<open>n \<le> align_up n BLOCK\<close> by (intro prepare_entries_spec [OF n]) simp_all
  then obtain rs buf' where r: "prepare_entries C (flags_of d) (of_nat (length ?ws)) (next_seq generation last_batch) tag 0 0 ?ws
      (replicate (align_up n BLOCK) 0) = Inr (rs, buf', n)"
    "length buf' = align_up n BLOCK" "packed C tag buf' 0 (zip rs (map payload_of ?ws))"
    "records_for (flags_of d) (of_nat (length ?ws)) (next_seq generation last_batch) 0 ?ws rs"
    "extent (zip rs (map payload_of ?ws)) = n" "length rs = length ?ws" by auto
  define p where "p = \<lparr>pp_seq = next_seq generation last_batch, pp_entries = buf',
     pp_records = replicate (blocks_for (length ?ws) * BLOCK) 0, pp_decoded = rs,
     pp_persist_at = 0, pp_entry_at = 0\<rparr>"
  have "prepare C g d tag generation last_batch b = Inr p"
    using seq cnt n r pb eb by (simp add: prepare_def Let_def p_def)
  then show thesis using r pb eb by (intro that [of p]) (simp_all add: p_def)
qed

lemma encode_slots_spec:
  assumes "(slot + length rs) * RECORD_SIZE \<le> length buf" "\<forall>r \<in> set rs. record_ok r"
  shows "length (encode_slots C slot rs buf) = length buf \<and>
    (\<forall>i < length rs. bslice ((slot + i) * RECORD_SIZE) RECORD_SIZE (encode_slots C slot rs buf) = record_encode C (rs ! i)) \<and>
    (\<forall>i m. i + m \<le> slot * RECORD_SIZE \<or> (slot + length rs) * RECORD_SIZE \<le> i \<longrightarrow>
       bslice i m (encode_slots C slot rs buf) = bslice i m buf)"
  using assms
proof (induction rs arbitrary: slot buf)
  case Nil
  then show ?case by simp
next
  case (Cons r rs)
  let ?buf = "put_at (slot * RECORD_SIZE) (record_encode C r) buf"
  have len: "length (record_encode C r) = RECORD_SIZE" using Cons.prems(2) by (simp add: record_ok_def)
  have fit: "slot * RECORD_SIZE + RECORD_SIZE \<le> length buf"
    using Cons.prems(1) by (simp add: add_mult_distrib)
  have IH: "length (encode_slots C (Suc slot) rs ?buf) = length ?buf \<and>
    (\<forall>i < length rs. bslice ((Suc slot + i) * RECORD_SIZE) RECORD_SIZE (encode_slots C (Suc slot) rs ?buf) = record_encode C (rs ! i)) \<and>
    (\<forall>i m. i + m \<le> Suc slot * RECORD_SIZE \<or> (Suc slot + length rs) * RECORD_SIZE \<le> i \<longrightarrow>
       bslice i m (encode_slots C (Suc slot) rs ?buf) = bslice i m ?buf)"
    using Cons.prems len fit by (intro Cons.IH) simp_all
  show ?case
  proof (intro conjI allI impI)
    show "length (encode_slots C slot (r # rs) buf) = length buf" using IH len fit by simp
  next
    fix i assume i: "i < length (r # rs)"
    show "bslice ((slot + i) * RECORD_SIZE) RECORD_SIZE (encode_slots C slot (r # rs) buf) = record_encode C ((r # rs) ! i)"
    proof (cases i)
      case 0
      then show ?thesis using IH len fit by (simp add: bslice_put_at_same)
    next
      case (Suc j)
      then show ?thesis using IH i by simp
    qed
  next
    fix i m assume "i + m \<le> slot * RECORD_SIZE \<or> (slot + length (r # rs)) * RECORD_SIZE \<le> i"
    then show "bslice i m (encode_slots C slot (r # rs) buf) = bslice i m buf"
      using IH len fit by (auto simp: bslice_put_at_before bslice_put_at_after add_mult_distrib)
  qed
qed

lemma records_for_length: "records_for f c s i ws rs \<Longrightarrow> length rs = length ws"
  by (induction f c s i ws rs rule: records_for.induct) auto

lemma records_for_nth:
  "records_for f c s i ws rs \<Longrightarrow> k < length rs \<Longrightarrow>
   unat (pr_index (rs ! k)) = i + k \<and> pr_count (rs ! k) = c \<and> pr_batch (rs ! k) = s \<and>
   pr_flags (rs ! k) = f \<and> pr_kind (rs ! k) \<noteq> Void \<and>
   (pr_kind (rs ! k), pr_position (rs ! k), pr_id (rs ! k)) =
     (case write_parts (ws ! k) of (a, b, d, _) \<Rightarrow> (a, b, d))"
proof (induction f c s i ws rs arbitrary: k rule: records_for.induct)
  case (2 f c s i w ws r rs)
  then show ?case by (cases k; cases w) auto
qed auto

lemma records_for_ok:
  assumes "records_for f c s 0 ws rs" "ids_ok ws" "unat c = length ws"
  shows "\<forall>r \<in> set rs. record_ok r"
proof
  fix r assume "r \<in> set rs"
  then obtain k where k: "k < length rs" "r = rs ! k" by (metis in_set_conv_nth)
  note n = records_for_nth [OF assms(1) k(1)]
  have "k < length ws" using k(1) records_for_length [OF assms(1)] by simp
  moreover from this have "ws ! k \<in> set ws" by simp
  ultimately show "record_ok r" using n k assms(2,3)
    by (cases "ws ! k") (auto simp: record_ok_def ids_ok_def word_less_nat_alt)
qed

lemma records_for_place: "records_for f c s i ws rs \<Longrightarrow> records_for f c s i ws (map (place_record e) rs)"
  by (induction f c s i ws rs rule: records_for.induct) (auto simp: place_record_def)

lemma place_record_simps [simp]:
  "pr_len (place_record e r) = pr_len r" "pr_entry_crc (place_record e r) = pr_entry_crc r"
  "pr_kind (place_record e r) = pr_kind r" "pr_batch (place_record e r) = pr_batch r"
  "pr_index (place_record e r) = pr_index r" "pr_count (place_record e r) = pr_count r"
  "pr_position (place_record e r) = pr_position r" "pr_id (place_record e r) = pr_id r"
  "pr_flags (place_record e r) = pr_flags r" "header_of tag (place_record e r) = header_of tag r"
  "pr_offset (place_record e r) = of_nat (e + unat (pr_offset r))"
  by (simp_all add: place_record_def header_of_def)

lemma packed_place:
  assumes "packed C tag buf off (zip rs ps)" "e + length buf \<le> length img"
    "off + extent (zip rs ps) \<le> length buf" "e + off + extent (zip rs ps) \<le> 2 ^ 32"
  shows "packed C tag (put_at e buf img) (e + off) (zip (map (place_record e) rs) ps)"
  using assms
proof (induction rs arbitrary: off ps)
  case Nil
  then show ?case by simp
next
  case (Cons r rs)
  show ?case
  proof (cases ps)
    case Nil
    then show ?thesis by simp
  next
    case (Cons payload ps')
    have fp: "64 \<le> footprint (pr_len r)" "RECORD_SIZE + length payload \<le> footprint (pr_len r)"
      using footprint_ge [of "pr_len r"] Cons.prems(1) Cons by (auto simp: RECORD_SIZE_def)
    have "bslice (e + off) (RECORD_SIZE + length payload) (put_at e buf img) = bslice off (RECORD_SIZE + length payload) buf"
      using Cons.prems(2,3) Cons fp by (subst bslice_put_at_inside) auto
    moreover have "unat (of_nat (e + unat (pr_offset r)) :: u32) = e + off"
      using Cons.prems(1,4) Cons fp by (subst unat_len) auto
    moreover have "packed C tag (put_at e buf img) (e + (off + footprint (pr_len r))) (zip (map (place_record e) rs) ps')"
      using Cons.prems Cons by (intro Cons.IH) auto
    ultimately show ?thesis using Cons.prems(1) Cons
      by (auto simp: add.assoc simp del: of_nat_add)
  qed
qed

lemma packed_prefix:
  assumes "packed C tag img off prs" "\<forall>i m. off \<le> i \<and> i + m \<le> off + extent prs \<longrightarrow> bslice i m img' = bslice i m img"
  shows "packed C tag img' off prs"
  using assms
proof (induction prs arbitrary: off)
  case Nil
  then show ?case by simp
next
  case (Cons p prs)
  obtain r payload where p: "p = (r, payload)" by (cases p)
  have fp: "RECORD_SIZE + length payload \<le> footprint (pr_len r)"
    using footprint_ge [of "pr_len r"] Cons.prems(1) p by simp
  have "packed C tag img' (off + footprint (pr_len r)) prs"
    using Cons.prems p by (intro Cons.IH) auto
  moreover have "bslice off (RECORD_SIZE + length payload) img' = bslice off (RECORD_SIZE + length payload) img"
    using Cons.prems(2) p fp by auto
  ultimately show ?case using Cons.prems(1) p by auto
qed

section \<open>A batch in a segment\<close>

text \<open>The two writes of the commit protocol into a segment image.\<close>

definition write_batch :: "prepared \<Rightarrow> bytes \<Rightarrow> bytes" where
  "write_batch p img =
     put_at (pp_persist_at p) (pp_records p) (put_at (pp_entry_at p) (pp_entries p) img)"

text \<open>
  A batch that lies intact at \<open>p\<close> in the persist log and \<open>e\<close> in the entry log: each record in its slot,
  the rest of its last persist block zero, the entries packed from \<open>e\<close> on.
\<close>

definition batch_at :: "crc_lib \<Rightarrow> u32 \<Rightarrow> bytes \<Rightarrow> nat \<Rightarrow> nat \<Rightarrow> (precord \<times> bytes) list \<Rightarrow> bool" where
  "batch_at C tag img p e prs =
     (prs \<noteq> [] \<and> length prs < 2 ^ 16
      \<and> (\<forall>k < length prs. record_ok (fst (prs ! k)) \<and> unat (pr_index (fst (prs ! k))) = k
           \<and> unat (pr_count (fst (prs ! k))) = length prs
           \<and> pr_batch (fst (prs ! k)) = pr_batch (fst (hd prs)) \<and> pr_kind (fst (prs ! k)) \<noteq> Void
           \<and> bslice (p + k * RECORD_SIZE) RECORD_SIZE img = record_encode C (fst (prs ! k)))
      \<and> (\<forall>k. length prs \<le> k \<longrightarrow> k < blocks_for (length prs) * RECORDS_PER_BLOCK \<longrightarrow>
           bslice (p + k * RECORD_SIZE) RECORD_SIZE img = replicate RECORD_SIZE 0)
      \<and> packed C tag img e prs)"

lemma extent_place: "extent (zip (map (place_record e) rs) ps) = extent (zip rs ps)"
proof (induction rs arbitrary: ps)
  case (Cons r rs)
  then show ?case by (cases ps) auto
qed simp

lemma packed_offsets:
  "packed C tag img off (zip rs ps) \<Longrightarrow> length ps = length rs \<Longrightarrow> r \<in> set rs \<Longrightarrow>
   unat (pr_offset r) + 64 \<le> off + extent (zip rs ps)"
proof (induction rs arbitrary: off ps)
  case (Cons a rs)
  then obtain q qs where ps: "ps = q # qs" by (cases ps) auto
  have fp: "64 \<le> footprint (pr_len a)" using footprint_ge [of "pr_len a"] by (simp add: RECORD_SIZE_def)
  show ?case
  proof (cases "r = a")
    case True
    then show ?thesis using Cons.prems ps fp by simp
  next
    case False
    then show ?thesis using Cons.IH [of "off + footprint (pr_len a)" qs] Cons.prems ps by auto
  qed
qed simp

text \<open>
  Laying out a batch that fits and writing it at block-aligned cursors leaves it intact there and
  touches nothing else.
\<close>

lemma committed_batch:
  assumes fit: "fits g b" and valid: "is_valid g" and ids: "ids_ok (bt_writes b)"
    and seq: "last_batch < next_seq generation last_batch" and ne: "bt_writes b \<noteq> []"
    and len: "length img = total_blocks g * BLOCK"
    and pa: "BLOCK dvd p" "p + blocks_for (length (bt_writes b)) * BLOCK \<le> e"
    and ea: "BLOCK dvd e"
  obtains pre post prs where "prepare C g d tag generation last_batch b = Inr pre"
    "e + length (pp_entries pre) \<le> length img \<Longrightarrow> place C p e pre = Inr post"
    "e + length (pp_entries pre) \<le> length img \<Longrightarrow> batch_at C tag (write_batch post img) p e prs"
    "e + length (pp_entries pre) \<le> length img \<Longrightarrow> length (write_batch post img) = length img"
    "e + length (pp_entries pre) \<le> length img \<Longrightarrow>
       (\<forall>i m. i + m \<le> p \<or> p + blocks_for (length (bt_writes b)) * BLOCK \<le> i \<and> i + m \<le> e
          \<or> e + length (pp_entries pre) \<le> i \<longrightarrow> bslice i m (write_batch post img) = bslice i m img)"
    "records_for (flags_of d) (of_nat (length (bt_writes b))) (next_seq generation last_batch) 0 (bt_writes b) (map fst prs)"
    "length prs = length (bt_writes b)" "length (pp_entries pre) = align_up (extent prs) BLOCK"
    "length (pp_records pre) = blocks_for (length (bt_writes b)) * BLOCK"
    "pp_decoded post = map fst prs" "map snd prs = map payload_of (bt_writes b)"
    "length (pp_records post) = blocks_for (length (bt_writes b)) * BLOCK"
proof -
  let ?ws = "bt_writes b" and ?pl = "map payload_of (bt_writes b)"
  obtain pre where pre: "prepare C g d tag generation last_batch b = Inr pre"
    "pp_seq pre = next_seq generation last_batch"
    "packed C tag (pp_entries pre) 0 (zip (pp_decoded pre) ?pl)"
    "records_for (flags_of d) (of_nat (length ?ws)) (pp_seq pre) 0 ?ws (pp_decoded pre)"
    "length (pp_decoded pre) = length ?ws"
    "length (pp_entries pre) = align_up (extent (zip (pp_decoded pre) ?pl)) BLOCK"
    "pp_records pre = replicate (blocks_for (length ?ws) * BLOCK) 0"
    by (rule prepare_ok [OF fit valid ids seq]) blast
  define rs where "rs = map (place_record e) (pp_decoded pre)"
  define prs where "prs = zip rs ?pl"
  define post where "post = pre\<lparr>pp_persist_at := p, pp_entry_at := e, pp_decoded := rs,
    pp_records := encode_slots C 0 rs (pp_records pre)\<rparr>"
  have lrs: "length rs = length ?ws" using pre(5) by (simp add: rs_def)
  have fst: "map fst prs = rs" and snd: "map snd prs = ?pl" using lrs by (simp_all add: prs_def)
  have rf: "records_for (flags_of d) (of_nat (length ?ws)) (next_seq generation last_batch) 0 ?ws rs"
    using records_for_place [OF pre(4), of e] pre(2) by (simp add: rs_def)
  have ext: "extent prs = extent (zip (pp_decoded pre) ?pl)" by (simp add: prs_def rs_def extent_place)
  have le: "extent prs \<le> length (pp_entries pre)"
    using pre(6) ext align_up_ge [of BLOCK "extent prs"] by (simp add: BLOCK_def)
  have cnt: "length ?ws \<le> 65535"
    using fit by (auto simp: fits_def fits_with_def Let_def MAX_BATCH_RECORDS_def split: if_splits)
  have uc: "unat (of_nat (length ?ws) :: u16) = length ?ws" using cnt by (simp add: unat_of_nat)
  have rok: "\<forall>r \<in> set rs. record_ok r" by (rule records_for_ok [OF rf ids uc])
  have small: "length img < 2 ^ 32" using len valid by (simp add: is_valid_def)
  have bf: "length ?ws * RECORD_SIZE \<le> blocks_for (length ?ws) * BLOCK" by (rule blocks_for_bound)
  have es: "length (encode_slots C 0 rs (pp_records pre)) = length (pp_records pre) \<and>
    (\<forall>i < length rs. bslice ((0 + i) * RECORD_SIZE) RECORD_SIZE (encode_slots C 0 rs (pp_records pre)) = record_encode C (rs ! i)) \<and>
    (\<forall>i m. i + m \<le> 0 * RECORD_SIZE \<or> (0 + length rs) * RECORD_SIZE \<le> i \<longrightarrow>
       bslice i m (encode_slots C 0 rs (pp_records pre)) = bslice i m (pp_records pre))"
    using bf pre(7) lrs rok by (intro encode_slots_spec) simp_all
  have lrec: "length (pp_records post) = blocks_for (length ?ws) * BLOCK"
    using es pre(7) by (simp add: post_def)
  have rpb: "BLOCK = RECORDS_PER_BLOCK * RECORD_SIZE" by (simp add: RECORDS_PER_BLOCK_def BLOCK_def RECORD_SIZE_def)
  show thesis
  proof (rule that [OF pre(1), of post prs])
    assume room: "e + length (pp_entries pre) \<le> length img"
    have "\<forall>r \<in> set (pp_decoded pre). e + unat (pr_offset r) < 2 ^ 32"
    proof
      fix r assume "r \<in> set (pp_decoded pre)"
      from packed_offsets [OF pre(3) _ this] have "unat (pr_offset r) + 64 \<le> extent prs"
        using pre(5) ext by simp
      then show "e + unat (pr_offset r) < 2 ^ 32" using room le small by simp
    qed
    then show "place C p e pre = Inr post"
      using pa(1) ea by (auto simp: place_def Let_def post_def rs_def not_le)
    let ?img1 = "put_at e (pp_entries pre) img"
    have img': "write_batch post img = put_at p (pp_records post) ?img1"
      by (simp add: write_batch_def post_def)
    have l1: "length ?img1 = length img" using room by simp
    have room2: "p + length (pp_records post) \<le> length ?img1" using pa(2) lrec room l1 by simp
    show l2: "length (write_batch post img) = length img" using img' room2 l1 by simp
    show same: "\<forall>i m. i + m \<le> p \<or> p + blocks_for (length ?ws) * BLOCK \<le> i \<and> i + m \<le> e
          \<or> e + length (pp_entries pre) \<le> i \<longrightarrow> bslice i m (write_batch post img) = bslice i m img"
      using room room2 lrec pa(2) unfolding img'
      by (auto simp: bslice_put_at_before bslice_put_at_after)
    have pk1: "packed C tag ?img1 e prs"
      using packed_place [OF pre(3), of e img] room le ext small by (simp add: prs_def rs_def)
    have pk: "packed C tag (write_batch post img) e prs"
      by (rule packed_prefix [OF pk1]) (use room2 lrec pa(2) in \<open>auto simp: img' bslice_put_at_after\<close>)
    have slots: "bslice (p + k * RECORD_SIZE) RECORD_SIZE (write_batch post img) = bslice (k * RECORD_SIZE) RECORD_SIZE (pp_records post)"
      if "k < blocks_for (length ?ws) * RECORDS_PER_BLOCK" for k
    proof -
      have "Suc k \<le> blocks_for (length ?ws) * RECORDS_PER_BLOCK" using that by simp
      then have "Suc k * RECORD_SIZE \<le> blocks_for (length ?ws) * RECORDS_PER_BLOCK * RECORD_SIZE"
        by (rule mult_le_mono1)
      then have "k * RECORD_SIZE + RECORD_SIZE \<le> length (pp_records post)"
        by (simp add: lrec rpb mult.assoc)
      then show ?thesis unfolding img' using room2 by (subst bslice_put_at_inside) auto
    qed
    have inb: "k < blocks_for (length ?ws) * RECORDS_PER_BLOCK" if "k < length ?ws" for k
    proof -
      have "k * RECORD_SIZE < blocks_for (length ?ws) * RECORDS_PER_BLOCK * RECORD_SIZE"
        using that bf by (simp add: rpb mult.assoc [symmetric] RECORD_SIZE_def)
      then show ?thesis by (simp add: RECORD_SIZE_def)
    qed
    have nth: "fst (prs ! k) = rs ! k" if "k < length ?ws" for k using that lrs by (simp add: prs_def)
    have "prs \<noteq> []" using ne lrs by (cases ?ws; cases rs) (auto simp: prs_def)
    then have hd: "pr_batch (fst (hd prs)) = next_seq generation last_batch"
      using records_for_nth [OF rf, of 0] lrs ne nth [of 0] by (simp add: hd_conv_nth)
    show "batch_at C tag (write_batch post img) p e prs"
      unfolding batch_at_def
    proof (intro conjI allI impI)
      show "prs \<noteq> []" by fact
      show "length prs < 2 ^ 16" using cnt lrs by (simp add: prs_def)
      show "packed C tag (write_batch post img) e prs" by (rule pk)
    next
      fix k assume "length prs \<le> k" and k: "k < blocks_for (length prs) * RECORDS_PER_BLOCK"
      then have k': "length ?ws \<le> k" "k < blocks_for (length ?ws) * RECORDS_PER_BLOCK" using lrs by (simp_all add: prs_def)
      have "length ?ws * RECORD_SIZE \<le> k * RECORD_SIZE" using k'(1) by (rule mult_le_mono1)
      moreover have "k * RECORD_SIZE + RECORD_SIZE \<le> blocks_for (length ?ws) * BLOCK"
        using mult_le_mono1 [of "Suc k" "blocks_for (length ?ws) * RECORDS_PER_BLOCK" RECORD_SIZE] k'(2)
        by (simp add: rpb mult.assoc)
      ultimately show "bslice (p + k * RECORD_SIZE) RECORD_SIZE (write_batch post img) = replicate RECORD_SIZE 0"
        using slots [OF k'(2)] es lrs pre(7) by (simp add: post_def)
    next
      fix k assume "k < length prs"
      then have k: "k < length ?ws" "k < length rs" using lrs by (simp_all add: prs_def)
      note n = records_for_nth [OF rf k(2)]
      show "record_ok (fst (prs ! k))" using rok k nth by simp
      show "unat (pr_index (fst (prs ! k))) = k" using n k nth by simp
      show "unat (pr_count (fst (prs ! k))) = length prs" using n k nth uc lrs by (simp add: prs_def)
      show "pr_batch (fst (prs ! k)) = pr_batch (fst (hd prs))" using n k nth hd by simp
      show "pr_kind (fst (prs ! k)) \<noteq> Void" using n k nth by simp
      show "bslice (p + k * RECORD_SIZE) RECORD_SIZE (write_batch post img) = record_encode C (fst (prs ! k))"
        using slots [OF inb [OF k(1)]] es k nth by (simp add: post_def)
    qed
  next
    show "records_for (flags_of d) (of_nat (length ?ws)) (next_seq generation last_batch) 0 ?ws (map fst prs)"
      using rf fst by simp
    show "length prs = length ?ws" using lrs by (simp add: prs_def)
    show "length (pp_entries pre) = align_up (extent prs) BLOCK" using pre(6) ext by simp
    show "length (pp_records pre) = blocks_for (length ?ws) * BLOCK" using pre(7) by simp
    show "pp_decoded post = map fst prs" by (simp add: post_def fst)
    show "map snd prs = ?pl" by (rule snd)
    show "length (pp_records post) = blocks_for (length ?ws) * BLOCK" by (rule lrec)
  qed
qed

section \<open>Properties\<close>


definition sample_batch :: batch where
  "sample_batch = batch_clear 2 5 (batch_put 9 (replicate 24 3) [1, 2, 3] batch_new)"

lemma sample_batch_ok:
  "fits geometry_small sample_batch" "is_valid geometry_small" "ids_ok (bt_writes sample_batch)"
  "(0 :: u64) < next_seq 1 0"
  by (simp_all add: sample_batch_def batch_clear_def batch_put_def batch_new_def fits_def fits_with_def
    Let_def MAX_BATCH_RECORDS_def footprint_eq blocks_for_def align_up_def BLOCK_def RECORD_SIZE_def
    geometry_small_def is_valid_def total_blocks_def ids_ok_def ID_SIZE_def next_seq_def
    generation_of_def first_batch_of_def GENERATION_SHIFT_def push_bit_eq_mult)


text \<open>C27. \<open>fits_another\<close> is \<open>fits\<close> of the batch with one more put of that length, so a caller that packs
  writes with it never builds a batch the commit refuses.\<close>

theorem fits_another_is_fits_of_put:
  "fits_another g (length payload) b = fits g (batch_put position i payload b)"
  by (simp add: fits_another_def fits_def fits_with_def batch_put_def Let_def)

end
