(* ===== verification/Journal_Recover.thy ===== *)
theory Journal_Recover
  imports Journal_Batch
begin

text \<open>
  Opening's scan (\<open>crates/moonpool-journal/src/recover.rs\<close>): pass 1 parses each segment's persist log
  batch by batch, falling back on the entry log for damaged records; pass 2 judges every record. A
  segment's file is its bytes as read, damaged blocks zero-filled (\<open>io.rs\<close>), so an I/O error that is not
  the medium's does not appear.
\<close>

section \<open>Segments and entries as read\<close>

record segment =
  sg_first_batch :: u64
  sg_prev_batch :: u64
  sg_geometry :: geometry
  sg_persist_next :: nat
  sg_entry_next :: nat
  sg_live :: nat
  sg_image :: bytes

datatype open_error =
    InvalidConfig | AlreadyExists | DoubleFault u64 nat | LostBatch u64 | MetaLost
  | BadSegment | WrongJournal u128 | OpenIo | OpenPanic

record located =
  lo_segment :: u64
  lo_record_at :: nat
  lo_offset :: u32
  lo_len :: u32
  lo_entry_crc :: u32
  lo_id :: ident
  lo_batch :: u64
  lo_index :: u16
  lo_count :: u16
  lo_flags :: u8
  lo_damaged :: bool

datatype jop = JPut u64 located | JClear u64 u64

datatype found = FoundRecord precord | FoundRebuilt precord | FoundLost

record batch_scan =
  bs_seq :: u64
  bs_count :: u16
  bs_persist_at :: nat
  bs_slots :: "found list"

definition read_persist_log :: "segment \<Rightarrow> bytes" where
  "read_persist_log s =
     bslice PERSIST_START (persist_end (sg_geometry s) - PERSIST_START) (sg_image s)"

definition read_at :: "segment \<Rightarrow> nat \<Rightarrow> nat \<Rightarrow> bytes" where
  "read_at s offset len = bslice offset len (sg_image s)"

definition read_entry :: "crc_lib \<Rightarrow> segment \<Rightarrow> nat \<Rightarrow> u32 \<Rightarrow> (entry_header \<times> u32 \<times> bytes) option" where
  "read_entry C s offset tag =
     (let g = sg_geometry s in
      if offset < entry_start g \<or> offset + RECORD_SIZE > entry_end g then None
      else case entry_parse (read_at s offset RECORD_SIZE) of None \<Rightarrow> None
      | Some (h, stored) \<Rightarrow>
        if eh_tag h \<noteq> tag \<or> offset + footprint (eh_len h) > entry_end g then None
        else let whole = read_at s offset (RECORD_SIZE + unat (eh_len h));
                 payload = drop RECORD_SIZE whole
          in if entry_crc C (bslice 0 RECORD_SIZE whole) payload \<noteq> stored then None
             else Some (h, stored, payload))"

definition entry_matches :: "precord \<Rightarrow> entry_header \<Rightarrow> u32 \<Rightarrow> bool" where
  "entry_matches r h stored =
     (eh_kind h = pr_kind r \<and> eh_flags h = pr_flags r \<and> eh_index h = pr_index r
      \<and> eh_count h = pr_count r \<and> eh_batch h = pr_batch r \<and> eh_position h = pr_position r
      \<and> eh_id h = pr_id r \<and> eh_len h = pr_len r \<and> stored = pr_entry_crc r)"

definition rebuild :: "entry_header \<Rightarrow> u32 \<Rightarrow> nat \<Rightarrow> precord" where
  "rebuild h stored offset =
     \<lparr>pr_kind = eh_kind h, pr_flags = eh_flags h, pr_index = eh_index h, pr_count = eh_count h,
      pr_batch = eh_batch h, pr_position = eh_position h, pr_id = eh_id h,
      pr_offset = of_nat offset, pr_len = eh_len h, pr_entry_crc = stored\<rparr>"

record stale =
  st_generation :: u32
  st_last :: u64

definition is_stale :: "stale \<Rightarrow> u64 \<Rightarrow> bool" where
  "is_stale st b = (generation_of b < ucast (st_generation st) \<and> b > st_last st)"

definition is_stale_in :: "stale \<Rightarrow> u64 \<Rightarrow> u64 \<Rightarrow> bool" where
  "is_stale_in st first b = (b < first \<or> is_stale st b)"

section \<open>Pass 1: structure\<close>

text \<open>How slot \<open>at\<close> of the persist log reads: a stale record is damage.\<close>

definition log_slot :: "crc_lib \<Rightarrow> stale \<Rightarrow> segment \<Rightarrow> nat \<Rightarrow> pslot" where
  "log_slot C st s at =
     (case record_decode C (drop (at * RECORD_SIZE) (read_persist_log s)) of
        SlotValid r \<Rightarrow> if is_stale_in st (sg_first_batch s) (pr_batch r) then SlotDamaged else SlotValid r
      | slot \<Rightarrow> slot)"

fun find_valid :: "(nat \<Rightarrow> pslot) \<Rightarrow> nat list \<Rightarrow> (nat \<times> precord) option" where
  "find_valid slot [] = None"
| "find_valid slot (j # js) =
     (case slot j of SlotValid r \<Rightarrow> Some (j, r) | _ \<Rightarrow> find_valid slot js)"

text \<open>
  The batch at the boundary \<open>at\<close>: from the first valid record, if it belongs here; else from the first
  entry. \<open>Inr None\<close> is the end of the log. The code compares \<open>j - index\<close> with \<open>at\<close>.
\<close>

definition batch_shape ::
  "crc_lib \<Rightarrow> u32 \<Rightarrow> stale \<Rightarrow> segment \<Rightarrow> nat \<Rightarrow> u64 \<Rightarrow> nat \<Rightarrow> nat \<Rightarrow> open_error + (u64 \<times> u16) option" where
  "batch_shape C tag st s slots prev at entry_cursor =
     (let first_valid = find_valid (log_slot C st s) [at ..< slots];
          from_record =
            (case first_valid of
               Some (j, r) \<Rightarrow>
                 if j = at + unat (pr_index r)
                 then if pr_batch r \<le> prev \<or> pr_batch r < sg_first_batch s then Inl (LostBatch (prev + 1))
                      else Inr (Some (pr_batch r, pr_count r))
                 else Inr None
             | None \<Rightarrow> Inr None)
      in and_then from_record (\<lambda>from_record.
         let shape =
           (case from_record of Some shape \<Rightarrow> Some shape
            | None \<Rightarrow>
              (case read_entry C s entry_cursor tag of
                 Some (h, _, _) \<Rightarrow>
                   if eh_index h = 0 \<and> eh_batch h > prev \<and> eh_batch h \<ge> sg_first_batch s
                      \<and> \<not> is_stale st (eh_batch h)
                   then Some (eh_batch h, eh_count h) else None
               | None \<Rightarrow> None))
         in if shape = None \<and> first_valid \<noteq> None then Inl (LostBatch (prev + 1)) else Inr shape))"

text \<open>One slot of the batch \<open>seq\<close>, with the entry the walk expects for it.\<close>

definition found_at ::
  "crc_lib \<Rightarrow> u32 \<Rightarrow> stale \<Rightarrow> segment \<Rightarrow> nat \<Rightarrow> u64 \<Rightarrow> u16 \<Rightarrow> nat \<Rightarrow> nat option \<Rightarrow> found" where
  "found_at C tag st s at seq count index walk =
     (let from_entry =
        (case walk of None \<Rightarrow> FoundLost
         | Some offset \<Rightarrow>
           (case read_entry C s offset tag of None \<Rightarrow> FoundLost
            | Some (h, stored, _) \<Rightarrow>
              if eh_batch h = seq \<and> unat (eh_index h) = index \<and> eh_count h = count
              then FoundRebuilt (rebuild h stored offset) else FoundLost))
      in case log_slot C st s (at + index) of
        SlotValid r \<Rightarrow>
          if pr_batch r = seq \<and> unat (pr_index r) = index \<and> pr_count r = count
          then FoundRecord r else from_entry
      | _ \<Rightarrow> from_entry)"

definition walk_on :: "found \<Rightarrow> nat option" where
  "walk_on f =
     (case f of
        FoundLost \<Rightarrow> None
      | FoundRecord r \<Rightarrow> if pr_kind r \<noteq> Void then Some (unat (pr_offset r) + footprint (pr_len r)) else None
      | FoundRebuilt r \<Rightarrow> if pr_kind r \<noteq> Void then Some (unat (pr_offset r) + footprint (pr_len r)) else None)"

text \<open>The slots \<open>index, ...\<close> of a batch, \<open>n\<close> of them, and where its entries end.\<close>

fun scan_slots ::
  "crc_lib \<Rightarrow> u32 \<Rightarrow> stale \<Rightarrow> segment \<Rightarrow> nat \<Rightarrow> u64 \<Rightarrow> u16 \<Rightarrow> nat \<Rightarrow> nat \<Rightarrow> nat option \<Rightarrow> nat \<Rightarrow> found list \<times> nat" where
  "scan_slots C tag st s at seq count 0 index walk entries_end = ([], entries_end)"
| "scan_slots C tag st s at seq count (Suc n) index walk entries_end =
     (let here = found_at C tag st s at seq count index walk;
          walk = walk_on here;
          entries_end = (case walk of Some e \<Rightarrow> max entries_end e | None \<Rightarrow> entries_end)
      in case scan_slots C tag st s at seq count n (Suc index) walk entries_end of
        (found, entries_end) \<Rightarrow> (here # found, entries_end))"

lemma log_slot_valid:
  "log_slot C st s j = SlotValid r \<longleftrightarrow>
   record_decode C (drop (j * RECORD_SIZE) (read_persist_log s)) = SlotValid r
   \<and> \<not> is_stale_in st (sg_first_batch s) (pr_batch r)"
  by (cases "record_decode C (drop (j * RECORD_SIZE) (read_persist_log s))") (auto simp: log_slot_def)

lemma batch_shape_pos:
  assumes "batch_shape C tag st s slots prev at e = Inr (Some (seq, count))"
  shows "0 < unat count"
proof -
  have rec: "0 < unat (pr_count r)" if "find_valid (log_slot C st s) js = Some (j, r)" for js j r
  proof -
    have "\<exists>j. log_slot C st s j = SlotValid r" using that
      by (induction js) (auto split: pslot.splits)
    then obtain j where "record_decode C (drop (j * RECORD_SIZE) (read_persist_log s)) = SlotValid r"
      by (auto simp: log_slot_valid)
    then have "pr_index r < pr_count r"
      by (auto simp: record_decode_def Let_def split: if_splits option.splits)
    then show ?thesis by (simp add: word_less_nat_alt)
  qed
  have ent: "0 < unat (eh_count h)" if "read_entry C s e tag = Some (h, stored, payload)" for h stored payload
  proof -
    have "header_ok h" using that entry_parse_ok
      by (fastforce simp: read_entry_def Let_def split: if_splits option.splits prod.splits)
    then show ?thesis by (simp add: header_ok_def word_less_nat_alt)
  qed
  show ?thesis using assms rec ent
    by (auto simp: batch_shape_def Let_def and_then_Inr split: option.splits prod.splits if_splits)
qed

lemma blocks_advance: "0 < unat count \<Longrightarrow> 0 < blocks_for (unat count) * RECORDS_PER_BLOCK" for count :: u16
  using blocks_for_pos by (simp add: RECORDS_PER_BLOCK_def BLOCK_def RECORD_SIZE_def)

text \<open>The loop of \<open>scan_segment\<close>: \<open>at\<close> is the slot index of the next batch boundary.\<close>

function scan_loop ::
  "crc_lib \<Rightarrow> u32 \<Rightarrow> stale \<Rightarrow> segment \<Rightarrow> nat \<Rightarrow> u64 \<Rightarrow> nat \<Rightarrow> nat \<Rightarrow> open_error + (batch_scan list \<times> nat \<times> nat)" where
  "scan_loop C tag st s slots prev at entry_cursor =
     (if at < slots
      then case batch_shape C tag st s slots prev at entry_cursor of
        Inl e \<Rightarrow> Inl e
      | Inr None \<Rightarrow> Inr ([], PERSIST_START + at * RECORD_SIZE, entry_cursor)
      | Inr (Some (seq, count)) \<Rightarrow>
          if at + unat count > slots then Inl (LostBatch seq)
          else case scan_slots C tag st s at seq count (unat count) 0 (Some entry_cursor) entry_cursor of
            (found, entries_end) \<Rightarrow>
              and_then
                (scan_loop C tag st s slots seq (at + blocks_for (unat count) * RECORDS_PER_BLOCK)
                  (align_up entries_end BLOCK))
                (\<lambda>(bs, p, e).
                   Inr (\<lparr>bs_seq = seq, bs_count = count, bs_persist_at = PERSIST_START + at * RECORD_SIZE,
                         bs_slots = found\<rparr> # bs, p, e))
      else Inr ([], PERSIST_START + at * RECORD_SIZE, entry_cursor))"
  by pat_completeness auto
termination
  by (relation "measure (\<lambda>(C, tag, st, s, slots, prev, at, e). slots - at)")
    (auto dest!: batch_shape_pos blocks_advance intro!: diff_less_mono2)

declare scan_loop.simps [simp del]

definition scan_segment ::
  "crc_lib \<Rightarrow> u32 \<Rightarrow> stale \<Rightarrow> segment \<Rightarrow> u64 \<Rightarrow> open_error + (batch_scan list \<times> nat \<times> nat)" where
  "scan_segment C tag st s prev =
     scan_loop C tag st s (length (read_persist_log s) div RECORD_SIZE) prev 0 (entry_start (sg_geometry s))"

section \<open>Pass 2: verdicts\<close>

record scan_out =
  sc_ops :: "jop list"
  sc_last_batch :: u64
  sc_cursors :: "(nat \<times> nat) list"
  sc_corrupt :: "(u64 \<times> ident) list"
  sc_ambiguous :: "(u64 \<times> ident) list"
  sc_rebuilt :: nat
  sc_voided :: nat
  sc_rewrite :: "(nat \<times> nat \<times> bytes) option"

definition void_record :: "batch_scan \<Rightarrow> nat \<Rightarrow> precord" where
  "void_record b index =
     \<lparr>pr_kind = Void, pr_flags = 0, pr_index = of_nat index, pr_count = bs_count b, pr_batch = bs_seq b,
      pr_position = 0, pr_id = replicate ID_SIZE 0, pr_offset = 0, pr_len = 0, pr_entry_crc = 0\<rparr>"

definition located_of :: "segment \<Rightarrow> batch_scan \<Rightarrow> nat \<Rightarrow> precord \<Rightarrow> bool \<Rightarrow> located" where
  "located_of s b index r damaged =
     \<lparr>lo_segment = sg_first_batch s, lo_record_at = bs_persist_at b + slot_offset (of_nat index),
      lo_offset = pr_offset r, lo_len = pr_len r, lo_entry_crc = pr_entry_crc r, lo_id = pr_id r,
      lo_batch = pr_batch r, lo_index = of_nat index, lo_count = pr_count r, lo_flags = pr_flags r,
      lo_damaged = damaged\<rparr>"

text \<open>Whether the entry a valid record of the last batch names is damaged.\<close>

definition entry_damaged :: "crc_lib \<Rightarrow> u32 \<Rightarrow> segment \<Rightarrow> precord \<Rightarrow> bool" where
  "entry_damaged C tag s r =
     (case read_entry C s (unat (pr_offset r)) tag of
        Some (h, stored, _) \<Rightarrow> \<not> entry_matches r h stored
      | None \<Rightarrow> True)"

definition judge_record ::
  "crc_lib \<Rightarrow> u32 \<Rightarrow> segment \<Rightarrow> batch_scan \<Rightarrow> bool \<Rightarrow> nat \<Rightarrow> precord \<Rightarrow> scan_out \<Rightarrow> scan_out" where
  "judge_record C tag s b check index r out =
     (case pr_kind r of
        Void \<Rightarrow> out
      | Clear \<Rightarrow> out\<lparr>sc_ops := sc_ops out @ [JClear (pr_position r) (clear_end r)]\<rparr>
      | Put \<Rightarrow>
          let damaged = (check \<and> entry_damaged C tag s r);
              out = (if damaged
                then if pr_flags r AND FLAG_ORDERED \<noteq> 0
                  then out\<lparr>sc_corrupt := sc_corrupt out @ [(pr_position r, pr_id r)]\<rparr>
                  else out\<lparr>sc_ambiguous := sc_ambiguous out @ [(pr_position r, pr_id r)]\<rparr>
                else out)
          in out\<lparr>sc_ops := sc_ops out @ [JPut (pr_position r) (located_of s b index r damaged)]\<rparr>)"

fun judge_slots ::
  "crc_lib \<Rightarrow> u32 \<Rightarrow> segment \<Rightarrow> batch_scan \<Rightarrow> bool \<Rightarrow> nat \<Rightarrow> found list \<Rightarrow> scan_out \<Rightarrow> bool \<Rightarrow> precord list \<Rightarrow>
   open_error + (scan_out \<times> bool \<times> precord list)" where
  "judge_slots C tag s b is_last index [] out rewrite kept = Inr (out, rewrite, kept)"
| "judge_slots C tag s b is_last index (f # fs) out rewrite kept =
     (case f of
        FoundRecord r \<Rightarrow>
          judge_slots C tag s b is_last (Suc index) fs (judge_record C tag s b is_last index r out) rewrite (kept @ [r])
      | FoundRebuilt r \<Rightarrow>
          judge_slots C tag s b is_last (Suc index) fs
            (judge_record C tag s b False index r (out\<lparr>sc_rebuilt := sc_rebuilt out + 1\<rparr>))
            (rewrite \<or> is_last) (kept @ [r])
      | FoundLost \<Rightarrow>
          if is_last
          then judge_slots C tag s b is_last (Suc index) fs (out\<lparr>sc_voided := sc_voided out + 1\<rparr>) True
                 (kept @ [void_record b index])
          else Inl (DoubleFault (bs_seq b) index))"

definition judge_batch ::
  "crc_lib \<Rightarrow> u32 \<Rightarrow> segment \<Rightarrow> nat \<Rightarrow> batch_scan \<Rightarrow> bool \<Rightarrow> scan_out \<Rightarrow> open_error + scan_out" where
  "judge_batch C tag s segment_index b is_last out =
     and_then (judge_slots C tag s b is_last 0 (bs_slots b) out False [])
       (\<lambda>(out, rewrite, kept).
          Inr (if rewrite
               then out\<lparr>sc_rewrite := Some (segment_index, bs_persist_at b,
                 encode_slots C 0 kept (replicate (blocks_for (length kept) * BLOCK) 0))\<rparr>
               else out))"

section \<open>The whole scan\<close>

fun scan_structure ::
  "crc_lib \<Rightarrow> u32 \<Rightarrow> stale \<Rightarrow> segment list \<Rightarrow> u64 \<Rightarrow> open_error + ((batch_scan list \<times> nat \<times> nat) list \<times> u64)" where
  "scan_structure C tag st [] prev = Inr ([], prev)"
| "scan_structure C tag st (s # ss) prev =
     (if sg_prev_batch s \<noteq> prev then Inl (LostBatch (prev + 1))
      else and_then (scan_segment C tag st s prev) (\<lambda>(bs, p, e).
        and_then (scan_structure C tag st ss (if bs = [] then prev else bs_seq (last bs)))
          (\<lambda>(rest, l). Inr ((bs, p, e) # rest, l))))"

text \<open>Where the last batch of the log is: the last one of the last segment that has any.\<close>

fun last_location :: "(batch_scan list \<times> nat \<times> nat) list \<Rightarrow> (nat \<times> nat) option" where
  "last_location [] = None"
| "last_location ((bs, _, _) # rest) =
     (case last_location rest of
        Some (s, b) \<Rightarrow> Some (Suc s, b)
      | None \<Rightarrow> if bs = [] then None else Some (0, length bs - 1))"

fun judge_batches ::
  "crc_lib \<Rightarrow> u32 \<Rightarrow> segment \<Rightarrow> nat \<Rightarrow> (nat \<times> nat) option \<Rightarrow> nat \<Rightarrow> batch_scan list \<Rightarrow> scan_out \<Rightarrow> open_error + scan_out" where
  "judge_batches C tag s si location bi [] out = Inr out"
| "judge_batches C tag s si location bi (b # bs) out =
     and_then (judge_batch C tag s si b (location = Some (si, bi)) out)
       (judge_batches C tag s si location (Suc bi) bs)"

fun judge_segments ::
  "crc_lib \<Rightarrow> u32 \<Rightarrow> (nat \<times> nat) option \<Rightarrow> nat \<Rightarrow> segment list \<Rightarrow> (batch_scan list \<times> nat \<times> nat) list \<Rightarrow> scan_out \<Rightarrow>
   open_error + scan_out" where
  "judge_segments C tag location si (s # ss) ((bs, p, e) # rest) out =
     and_then
       (judge_batches C tag s si location 0 bs (out\<lparr>sc_cursors := sc_cursors out @ [(p, e)]\<rparr>))
       (judge_segments C tag location (Suc si) ss rest)"
| "judge_segments C tag location si _ _ out = Inr out"

definition scan_empty :: scan_out where
  "scan_empty = \<lparr>sc_ops = [], sc_last_batch = 0, sc_cursors = [], sc_corrupt = [], sc_ambiguous = [],
     sc_rebuilt = 0, sc_voided = 0, sc_rewrite = None\<rparr>"

definition scan :: "crc_lib \<Rightarrow> u32 \<Rightarrow> stale \<Rightarrow> segment list \<Rightarrow> open_error + scan_out" where
  "scan C tag st segments =
     and_then (scan_structure C tag st segments (case segments of [] \<Rightarrow> 0 | s # _ \<Rightarrow> sg_prev_batch s))
       (\<lambda>(per_segment, l).
          judge_segments C tag (last_location per_segment) 0 segments per_segment
            (scan_empty\<lparr>sc_last_batch := l\<rparr>))"

end
