(* ===== verification/Journal_Durability.thy ===== *)
theory Journal_Durability
  imports Journal_Recover
begin

text \<open>
  What recovery finds of what commits wrote. A batch is described by its records and payloads, in
  order. \<open>placed\<close> says where they belong; a batch is \<open>intact\<close> in a segment when every record reads
  valid and every entry reads as written, and \<open>torn\<close> when each record reads valid or not at all and each
  entry as written or not at all, which is what a crash during its commit leaves. The theory follows
  both passes of the scan over a log of intact batches that may end in a torn one.
\<close>

section \<open>Batches in a log\<close>

fun chained :: "nat \<Rightarrow> (precord \<times> bytes) list \<Rightarrow> bool" where
  "chained off [] = True"
| "chained off ((r, payload) # prs) =
     (unat (pr_offset r) = off \<and> unat (pr_len r) = length payload \<and> pr_kind r \<noteq> Void
      \<and> chained (off + footprint (pr_len r)) prs)"

definition seq_of :: "(precord \<times> bytes) list \<Rightarrow> u64" where
  "seq_of prs = pr_batch (fst (hd prs))"

definition count_of :: "(precord \<times> bytes) list \<Rightarrow> u16" where
  "count_of prs = of_nat (length prs)"

fun numbered :: "u64 \<Rightarrow> u16 \<Rightarrow> nat \<Rightarrow> (precord \<times> bytes) list \<Rightarrow> bool" where
  "numbered seq count k [] = True"
| "numbered seq count k ((r, _) # prs) =
     (pr_batch r = seq \<and> pr_count r = count \<and> unat (pr_index r) = k \<and> numbered seq count (Suc k) prs)"

definition placed :: "nat \<Rightarrow> (precord \<times> bytes) list \<Rightarrow> bool" where
  "placed e prs =
     (prs \<noteq> [] \<and> length prs < 2 ^ 16 \<and> chained e prs \<and> numbered (seq_of prs) (count_of prs) 0 prs)"

definition record_reads :: "crc_lib \<Rightarrow> stale \<Rightarrow> segment \<Rightarrow> nat \<Rightarrow> precord \<Rightarrow> bool" where
  "record_reads C st s j r = (log_slot C st s j = SlotValid r)"

definition slot_dead :: "crc_lib \<Rightarrow> stale \<Rightarrow> segment \<Rightarrow> nat \<Rightarrow> bool" where
  "slot_dead C st s j = (\<forall>r. log_slot C st s j \<noteq> SlotValid r)"

definition entry_reads :: "crc_lib \<Rightarrow> u32 \<Rightarrow> segment \<Rightarrow> precord \<times> bytes \<Rightarrow> bool" where
  "entry_reads C tag s pr =
     (read_entry C s (unat (pr_offset (fst pr))) tag =
        Some (header_of tag (fst pr), pr_entry_crc (fst pr), snd pr))"

text \<open>The entry is gone: nothing reads there, or an entry older than the segment.\<close>

definition entry_dead :: "crc_lib \<Rightarrow> u32 \<Rightarrow> segment \<Rightarrow> precord \<times> bytes \<Rightarrow> bool" where
  "entry_dead C tag s pr =
     (case read_entry C s (unat (pr_offset (fst pr))) tag of
        None \<Rightarrow> True
      | Some (h, _, _) \<Rightarrow> eh_batch h < sg_first_batch s)"

definition intact :: "crc_lib \<Rightarrow> u32 \<Rightarrow> stale \<Rightarrow> segment \<Rightarrow> nat \<Rightarrow> nat \<Rightarrow> (precord \<times> bytes) list \<Rightarrow> bool" where
  "intact C tag st s at e prs =
     (placed e prs
      \<and> (\<forall>k < length prs. record_reads C st s (at + k) (fst (prs ! k)) \<and> entry_reads C tag s (prs ! k))
      \<and> (\<forall>k. length prs \<le> k \<longrightarrow> k < blocks_for (length prs) * RECORDS_PER_BLOCK \<longrightarrow> slot_dead C st s (at + k)))"

definition torn :: "crc_lib \<Rightarrow> u32 \<Rightarrow> stale \<Rightarrow> segment \<Rightarrow> nat \<Rightarrow> nat \<Rightarrow> (precord \<times> bytes) list \<Rightarrow> bool" where
  "torn C tag st s at e prs =
     (placed e prs
      \<and> (\<forall>k < length prs.
           (record_reads C st s (at + k) (fst (prs ! k)) \<or> slot_dead C st s (at + k))
           \<and> (entry_reads C tag s (prs ! k) \<or> entry_dead C tag s (prs ! k)))
      \<and> (\<forall>k. length prs \<le> k \<longrightarrow> k < blocks_for (length prs) * RECORDS_PER_BLOCK \<longrightarrow> slot_dead C st s (at + k)))"

lemma intact_torn: "intact C tag st s at e prs \<Longrightarrow> torn C tag st s at e prs"
  by (auto simp: intact_def torn_def)

lemma count_of_simps [simp]: "placed e prs \<Longrightarrow> unat (count_of prs) = length prs"
  by (simp add: placed_def count_of_def unat_of_nat)

lemma placed_hd: "placed e prs \<Longrightarrow> prs = (r, payload) # rest \<Longrightarrow>
  pr_batch r = seq_of prs \<and> pr_count r = count_of prs \<and> unat (pr_index r) = 0 \<and> unat (pr_offset r) = e"
  by (auto simp: placed_def)

lemma numbered_nth:
  "numbered seq count k prs \<Longrightarrow> i < length prs \<Longrightarrow>
   pr_batch (fst (prs ! i)) = seq \<and> pr_count (fst (prs ! i)) = count \<and> unat (pr_index (fst (prs ! i))) = k + i"
  by (induction seq count k prs arbitrary: i rule: numbered.induct) (auto simp: nth_Cons split: nat.splits)

section \<open>Pass 1 over one batch\<close>

text \<open>
  What the slots of a batch turn out to be, with \<open>w\<close> whether the walk through the entry log still knows
  where the next entry starts, and where its entries are found to end.
\<close>

fun finds :: "crc_lib \<Rightarrow> u32 \<Rightarrow> stale \<Rightarrow> segment \<Rightarrow> nat \<Rightarrow> nat \<Rightarrow> bool \<Rightarrow> (precord \<times> bytes) list \<Rightarrow> found list" where
  "finds C tag st s at k w [] = []"
| "finds C tag st s at k w ((r, payload) # prs) =
     (if record_reads C st s (at + k) r then FoundRecord r # finds C tag st s at (Suc k) True prs
      else if w \<and> entry_reads C tag s (r, payload) then FoundRebuilt r # finds C tag st s at (Suc k) True prs
      else FoundLost # finds C tag st s at (Suc k) False prs)"

fun found_end :: "nat \<Rightarrow> nat \<Rightarrow> (precord \<times> bytes) list \<Rightarrow> found list \<Rightarrow> nat" where
  "found_end off m ((r, _) # prs) (f # fs) =
     found_end (off + footprint (pr_len r)) (if f = FoundLost then m else max m (off + footprint (pr_len r))) prs fs"
| "found_end off m _ _ = m"

lemma rebuild_header_of: "rebuild (header_of tag r) (pr_entry_crc r) (unat (pr_offset r)) = r"
  by (simp add: rebuild_def header_of_def)

lemma scan_slots_finds:
  assumes "chained off prs" "numbered seq count k prs"
    "\<forall>i < length prs. (record_reads C st s (at + k + i) (fst (prs ! i)) \<or> slot_dead C st s (at + k + i)) \<and>
       (entry_reads C tag s (prs ! i) \<or> entry_dead C tag s (prs ! i))"
    "sg_first_batch s \<le> seq"
  shows "scan_slots C tag st s at seq count (length prs) k (if w then Some off else None) m =
    (finds C tag st s at k w prs, found_end off m prs (finds C tag st s at k w prs))"
  using assms
proof (induction prs arbitrary: off k w m)
  case Nil
  then show ?case by simp
next
  case (Cons pr prs)
  obtain r payload where pr: "pr = (r, payload)" by (cases pr)
  let ?off = "off + footprint (pr_len r)"
  have r: "unat (pr_offset r) = off" "pr_kind r \<noteq> Void" "pr_batch r = seq" "pr_count r = count" "unat (pr_index r) = k"
    using Cons.prems(1,2) pr by simp_all
  have here: "(record_reads C st s (at + k) r \<or> slot_dead C st s (at + k)) \<and>
      (entry_reads C tag s (r, payload) \<or> entry_dead C tag s (r, payload))"
    using Cons.prems(3) pr by (auto dest!: spec [of _ 0])
  have IH: "scan_slots C tag st s at seq count (length prs) (Suc k) (if w then Some ?off else None) m =
    (finds C tag st s at (Suc k) w prs, found_end ?off m prs (finds C tag st s at (Suc k) w prs))" for w m
  proof (rule Cons.IH)
    show "chained ?off prs" "numbered seq count (Suc k) prs" using Cons.prems(1,2) pr by simp_all
    show "\<forall>i < length prs. (record_reads C st s (at + Suc k + i) (fst (prs ! i)) \<or> slot_dead C st s (at + Suc k + i)) \<and>
       (entry_reads C tag s (prs ! i) \<or> entry_dead C tag s (prs ! i))"
      using Cons.prems(3) by (fastforce dest: spec [of _ "Suc i" for i])
  qed (rule Cons.prems(4))
  define f where "f = (if record_reads C st s (at + k) r then FoundRecord r
    else if w \<and> entry_reads C tag s (r, payload) then FoundRebuilt r else FoundLost)"
  have fa: "found_at C tag st s at seq count k (if w then Some off else None) = f"
  proof (cases "record_reads C st s (at + k) r")
    case True
    then show ?thesis using r by (simp add: f_def found_at_def record_reads_def)
  next
    case False
    then have dead: "\<And>r. log_slot C st s (at + k) \<noteq> SlotValid r" using here by (simp add: slot_dead_def)
    show ?thesis
    proof (cases "w \<and> entry_reads C tag s (r, payload)")
      case True
      then have "read_entry C s off tag = Some (header_of tag r, pr_entry_crc r, payload)"
        using r by (simp add: entry_reads_def)
      moreover have "rebuild (header_of tag r) (pr_entry_crc r) off = r" using rebuild_header_of [of tag r] r by simp
      ultimately show ?thesis using dead r True False
        by (cases "log_slot C st s (at + k)") (auto simp: f_def found_at_def header_of_def)
    next
      case nw: False
      then have "w \<Longrightarrow> entry_dead C tag s (r, payload)" using here by blast
      then have "w \<Longrightarrow> (case read_entry C s off tag of None \<Rightarrow> True | Some (h, _, _) \<Rightarrow> eh_batch h \<noteq> seq)"
        using r Cons.prems(4) by (auto simp: entry_dead_def split: option.splits prod.splits)
      then show ?thesis using dead nw False
        by (cases "log_slot C st s (at + k)") (auto simp: f_def found_at_def split: option.splits prod.splits)
    qed
  qed
  have wo: "walk_on f = (if f \<noteq> FoundLost then Some ?off else None)"
    using r by (simp add: f_def walk_on_def)
  show ?case
    using fa wo IH [of "f \<noteq> FoundLost" "if f = FoundLost then m else max m ?off"] pr
    by (auto simp: Let_def f_def split: if_splits)
qed

text \<open>An intact batch is found whole, and its entries end where they were packed to end.\<close>

lemma finds_intact:
  "\<forall>i < length prs. record_reads C st s (at + k + i) (fst (prs ! i)) \<Longrightarrow>
   finds C tag st s at k w prs = map (\<lambda>pr. FoundRecord (fst pr)) prs"
proof (induction prs arbitrary: k w)
  case (Cons pr prs)
  have "record_reads C st s (at + k) (fst pr)" using Cons.prems by (auto dest: spec [of _ 0])
  moreover have "\<forall>i < length prs. record_reads C st s (at + Suc k + i) (fst (prs ! i))"
    using Cons.prems by (fastforce dest: spec [of _ "Suc i" for i])
  ultimately show ?case using Cons.IH by (cases pr) simp
qed simp

lemma found_end_intact:
  "m \<le> off \<Longrightarrow> prs \<noteq> [] \<Longrightarrow> found_end off m prs (map (\<lambda>pr. FoundRecord (fst pr)) prs) = off + extent prs"
proof (induction prs arbitrary: off m)
  case (Cons pr prs)
  obtain r payload where pr: "pr = (r, payload)" by (cases pr)
  have "found_end (off + footprint (pr_len r)) (max m (off + footprint (pr_len r))) prs (map (\<lambda>pr. FoundRecord (fst pr)) prs)
      = off + footprint (pr_len r) + extent prs"
  proof (cases "prs = []")
    case True
    then show ?thesis using Cons.prems(1) by simp
  next
    case False
    then show ?thesis using Cons.IH [of "off + footprint (pr_len r)" "off + footprint (pr_len r)"] Cons.prems(1)
      by (simp add: max_def)
  qed
  then show ?case using pr by simp
qed simp

lemma length_finds [simp]: "length (finds C tag st s at k w prs) = length prs"
proof (induction prs arbitrary: k w)
  case (Cons pr prs)
  then show ?case by (cases pr) simp
qed simp

text \<open>The end never passes the end of what was packed.\<close>

lemma found_end_bounds:
  "m \<le> off + extent prs \<Longrightarrow> m \<le> found_end off m prs fs \<and> found_end off m prs fs \<le> off + extent prs"
proof (induction off m prs fs rule: found_end.induct)
  case (1 off m r payload prs f fs)
  show ?case using "1.prems" "1.IH" by (cases "f = FoundLost") (auto simp: algebra_simps)
qed auto

lemma find_valid_dead: "\<forall>j \<in> set js. slot_dead C st s j \<Longrightarrow> find_valid (log_slot C st s) js = None"
  by (induction js) (auto simp: slot_dead_def split: pslot.splits)

lemma find_valid_append:
  "find_valid slot (xs @ ys) = (case find_valid slot xs of None \<Rightarrow> find_valid slot ys | Some x \<Rightarrow> Some x)"
  by (induction xs) (auto split: pslot.splits)

lemma find_valid_batch:
  assumes "\<forall>k < n. record_reads C st s (at + k) (r k) \<or> slot_dead C st s (at + k)"
    "\<exists>k < n. record_reads C st s (at + k) (r k)" "at + n \<le> slots"
  obtains k where "k < n" "record_reads C st s (at + k) (r k)"
    "find_valid (log_slot C st s) [at ..< slots] = Some (at + k, r k)"
proof -
  define k where "k = (LEAST k. k < n \<and> record_reads C st s (at + k) (r k))"
  have k: "k < n \<and> record_reads C st s (at + k) (r k)"
    unfolding k_def using assms(2) by (rule LeastI_ex)
  have "\<forall>j < k. slot_dead C st s (at + j)"
    using assms(1) k not_less_Least unfolding k_def by (metis (no_types, lifting) order_less_trans)
  then have "\<forall>j \<in> set [at ..< at + k]. slot_dead C st s j"
    by (metis add_diff_inverse_nat atLeastLessThan_iff nat_add_left_cancel_less not_less set_upt)
  then have "find_valid (log_slot C st s) [at ..< at + k] = None" by (rule find_valid_dead)
  moreover have "[at ..< slots] = [at ..< at + k] @ (at + k) # [Suc (at + k) ..< slots]"
    using k assms(3) upt_add_eq_append [of at "at + k" "slots - (at + k)"] by (simp add: upt_conv_Cons)
  ultimately have "find_valid (log_slot C st s) [at ..< slots] = Some (at + k, r k)"
    using k by (simp add: find_valid_append record_reads_def)
  then show thesis using that k by blast
qed

section \<open>Pass 1 over a log\<close>

definition next_slot :: "nat \<Rightarrow> (precord \<times> bytes) list \<Rightarrow> nat" where
  "next_slot at prs = at + blocks_for (length prs) * RECORDS_PER_BLOCK"

definition scan_of :: "nat \<Rightarrow> (precord \<times> bytes) list \<Rightarrow> found list \<Rightarrow> batch_scan" where
  "scan_of at prs fs =
     \<lparr>bs_seq = seq_of prs, bs_count = count_of prs, bs_persist_at = PERSIST_START + at * RECORD_SIZE, bs_slots = fs\<rparr>"

text \<open>The number of a batch may follow \<open>prev\<close> in segment \<open>s\<close>, and its slots are in the log.\<close>

definition follows :: "stale \<Rightarrow> segment \<Rightarrow> nat \<Rightarrow> u64 \<Rightarrow> nat \<Rightarrow> (precord \<times> bytes) list \<Rightarrow> bool" where
  "follows st s slots prev at prs =
     (prev < seq_of prs \<and> \<not> is_stale_in st (sg_first_batch s) (seq_of prs) \<and> at + length prs \<le> slots)"

text \<open>Nothing after \<open>seq\<close> was written from slot \<open>at\<close> and entry \<open>e\<close> on.\<close>

definition unwritten :: "crc_lib \<Rightarrow> u32 \<Rightarrow> stale \<Rightarrow> segment \<Rightarrow> nat \<Rightarrow> u64 \<Rightarrow> nat \<Rightarrow> nat \<Rightarrow> bool" where
  "unwritten C tag st s slots seq at e =
     ((\<forall>j \<ge> at. j < slots \<longrightarrow> slot_dead C st s j)
      \<and> (\<forall>off \<ge> e. BLOCK dvd off \<longrightarrow>
           (case read_entry C s off tag of None \<Rightarrow> True
            | Some (h, _, _) \<Rightarrow> eh_batch h \<le> seq \<or> is_stale_in st (sg_first_batch s) (eh_batch h))))"

lemma scan_loop_end:
  assumes "\<forall>j \<ge> at. j < slots \<longrightarrow> slot_dead C st s j"
    "case read_entry C s e tag of None \<Rightarrow> True
     | Some (h, _, _) \<Rightarrow> eh_batch h \<le> prev \<or> is_stale_in st (sg_first_batch s) (eh_batch h)"
  shows "scan_loop C tag st s slots prev at e = Inr ([], PERSIST_START + at * RECORD_SIZE, e)"
proof -
  have "find_valid (log_slot C st s) [at ..< slots] = None"
    using assms(1) by (intro find_valid_dead) auto
  then have "batch_shape C tag st s slots prev at e = Inr None"
    using assms(2) by (auto simp: batch_shape_def is_stale_in_def split: option.splits)
  then show ?thesis by (subst scan_loop.simps) simp
qed

lemma scan_loop_unwritten:
  assumes "unwritten C tag st s slots prev at e" "BLOCK dvd e"
  shows "scan_loop C tag st s slots prev at e = Inr ([], PERSIST_START + at * RECORD_SIZE, e)"
  using assms by (intro scan_loop_end) (auto simp: unwritten_def)

lemma torn_slots_dead:
  assumes t: "torn C tag st s at e prs"
    and none: "\<not> (\<exists>k < length prs. record_reads C st s (at + k) (fst (prs ! k)))"
    and beyond: "\<forall>j \<ge> next_slot at prs. j < slots \<longrightarrow> slot_dead C st s j"
  shows "\<forall>j \<ge> at. j < slots \<longrightarrow> slot_dead C st s j"
proof (intro allI impI)
  fix j assume j: "at \<le> j" "j < slots"
  consider "j - at < length prs" | "length prs \<le> j - at" "j < next_slot at prs" | "next_slot at prs \<le> j" by linarith
  then have "slot_dead C st s (at + (j - at))"
  proof cases
    case 1
    then show ?thesis using t none unfolding torn_def by blast
  next
    case 2
    then have "j - at < blocks_for (length prs) * RECORDS_PER_BLOCK" using j unfolding next_slot_def by linarith
    then show ?thesis using 2(1) t unfolding torn_def by blast
  next
    case 3
    then show ?thesis using beyond j by simp
  qed
  then show "slot_dead C st s j" using j by simp
qed

lemma batch_shape_torn:
  assumes t: "torn C tag st s at e prs" and f: "follows st s slots prev at prs"
    and vis: "(\<exists>k < length prs. record_reads C st s (at + k) (fst (prs ! k)))
      \<or> (\<forall>j \<ge> next_slot at prs. j < slots \<longrightarrow> slot_dead C st s j) \<and> entry_reads C tag s (hd prs)"
  shows "batch_shape C tag st s slots prev at e = Inr (Some (seq_of prs, count_of prs))"
proof (cases "\<exists>k < length prs. record_reads C st s (at + k) (fst (prs ! k))")
  case True
  obtain k where k: "k < length prs" "record_reads C st s (at + k) (fst (prs ! k))"
    "find_valid (log_slot C st s) [at ..< slots] = Some (at + k, fst (prs ! k))"
  proof (rule find_valid_batch [of "length prs" C st s at "\<lambda>k. fst (prs ! k)" slots])
    show "\<forall>k < length prs. record_reads C st s (at + k) (fst (prs ! k)) \<or> slot_dead C st s (at + k)"
      using t by (simp add: torn_def)
    show "at + length prs \<le> slots" using f by (simp add: follows_def)
  qed (use True in blast)+
  have "pr_batch (fst (prs ! k)) = seq_of prs \<and> pr_count (fst (prs ! k)) = count_of prs \<and> unat (pr_index (fst (prs ! k))) = k"
    using t k(1) numbered_nth [of "seq_of prs" "count_of prs" 0 prs k] by (simp add: torn_def placed_def)
  then show ?thesis using k(3) f by (simp add: batch_shape_def follows_def is_stale_in_def not_le not_less)
next
  case False
  then have beyond: "\<forall>j \<ge> next_slot at prs. j < slots \<longrightarrow> slot_dead C st s j" and er: "entry_reads C tag s (hd prs)"
    using vis by auto
  have "\<forall>j \<ge> at. j < slots \<longrightarrow> slot_dead C st s j" by (rule torn_slots_dead [OF t False beyond])
  then have none: "find_valid (log_slot C st s) [at ..< slots] = None" by (intro find_valid_dead) simp
  obtain r payload rest where prs: "prs = (r, payload) # rest" using t by (cases prs) (auto simp: torn_def placed_def)
  then have r: "pr_batch r = seq_of prs" "pr_count r = count_of prs" "unat (pr_index r) = 0" "unat (pr_offset r) = e"
    using placed_hd [of e prs r payload rest] t by (simp_all add: torn_def)
  then have "read_entry C s e tag = Some (header_of tag r, pr_entry_crc r, payload)" using er prs by (simp add: entry_reads_def)
  moreover have "pr_index r = 0" using r(3) by (simp add: unat_eq_0)
  ultimately show ?thesis using none r f
    by (simp add: batch_shape_def header_of_def follows_def is_stale_in_def not_less)
qed

text \<open>One turn of the loop over a batch that shows.\<close>

lemma scan_loop_torn:
  assumes t: "torn C tag st s at e prs" and f: "follows st s slots prev at prs"
    and vis: "(\<exists>k < length prs. record_reads C st s (at + k) (fst (prs ! k)))
      \<or> (\<forall>j \<ge> next_slot at prs. j < slots \<longrightarrow> slot_dead C st s j) \<and> entry_reads C tag s (hd prs)"
  defines "fs \<equiv> finds C tag st s at 0 True prs"
  shows "scan_loop C tag st s slots prev at e =
    and_then (scan_loop C tag st s slots (seq_of prs) (next_slot at prs) (align_up (found_end e e prs fs) BLOCK))
      (\<lambda>(bs, p, e). Inr (scan_of at prs fs # bs, p, e))"
proof -
  have pl: "placed e prs" using t by (simp add: torn_def)
  have cnt: "unat (count_of prs) = length prs" using pl by simp
  have "0 < length prs" using pl by (simp add: placed_def)
  then have lt: "at < slots" using f unfolding follows_def by linarith
  have "scan_slots C tag st s at (seq_of prs) (count_of prs) (length prs) 0 (if True then Some e else None) e =
      (fs, found_end e e prs fs)"
    unfolding fs_def
    by (rule scan_slots_finds) (use t f in \<open>simp_all add: torn_def placed_def follows_def is_stale_in_def not_less\<close>)
  then show ?thesis
    using batch_shape_torn [OF t f vis] lt f cnt
    by (subst scan_loop.simps) (simp add: follows_def next_slot_def scan_of_def)
qed

text \<open>A log of intact batches, and the cursors and the last batch after it.\<close>

fun log_ok :: "crc_lib \<Rightarrow> u32 \<Rightarrow> stale \<Rightarrow> segment \<Rightarrow> nat \<Rightarrow> u64 \<Rightarrow> nat \<Rightarrow> nat \<Rightarrow> (precord \<times> bytes) list list \<Rightarrow> bool" where
  "log_ok C tag st s slots prev at e [] = True"
| "log_ok C tag st s slots prev at e (b # bs) =
     (intact C tag st s at e b \<and> follows st s slots prev at b
      \<and> log_ok C tag st s slots (seq_of b) (next_slot at b) (align_up (e + extent b) BLOCK) bs)"

fun log_slots :: "nat \<Rightarrow> (precord \<times> bytes) list list \<Rightarrow> nat" where
  "log_slots at [] = at"
| "log_slots at (b # bs) = log_slots (next_slot at b) bs"

fun log_entries :: "nat \<Rightarrow> (precord \<times> bytes) list list \<Rightarrow> nat" where
  "log_entries e [] = e"
| "log_entries e (b # bs) = log_entries (align_up (e + extent b) BLOCK) bs"

definition log_last :: "u64 \<Rightarrow> (precord \<times> bytes) list list \<Rightarrow> u64" where
  "log_last prev bs = (if bs = [] then prev else seq_of (last bs))"

definition all_found :: "(precord \<times> bytes) list \<Rightarrow> found list" where
  "all_found prs = map (\<lambda>pr. FoundRecord (fst pr)) prs"

fun log_scans :: "nat \<Rightarrow> (precord \<times> bytes) list list \<Rightarrow> batch_scan list" where
  "log_scans at [] = []"
| "log_scans at (b # bs) = scan_of at b (all_found b) # log_scans (next_slot at b) bs"

lemma log_last_Cons: "log_last prev (b # bs) = log_last (seq_of b) bs"
  by (simp add: log_last_def)

lemma log_entries_dvd: "BLOCK dvd e \<Longrightarrow> BLOCK dvd log_entries e bs"
  by (induction bs arbitrary: e) (simp_all add: align_up_dvd)

lemma scan_loop_log:
  assumes "log_ok C tag st s slots prev at e bs"
  shows "scan_loop C tag st s slots prev at e =
    and_then (scan_loop C tag st s slots (log_last prev bs) (log_slots at bs) (log_entries e bs))
      (\<lambda>(rest, p, e). Inr (log_scans at bs @ rest, p, e))"
  using assms
proof (induction bs arbitrary: prev at e)
  case Nil
  then show ?case by (cases "scan_loop C tag st s slots prev at e") (auto simp: log_last_def)
next
  case (Cons b bs)
  have i: "intact C tag st s at e b" and f: "follows st s slots prev at b" using Cons.prems by simp_all
  have reads: "\<forall>k < length b. record_reads C st s (at + 0 + k) (fst (b ! k))" and ne: "b \<noteq> []"
    using i by (simp_all add: intact_def placed_def)
  have fs: "finds C tag st s at 0 True b = all_found b"
    unfolding all_found_def using reads by (rule finds_intact)
  have fe: "found_end e e b (all_found b) = e + extent b"
    unfolding all_found_def using ne by (simp add: found_end_intact)
  have "\<exists>k < length b. record_reads C st s (at + k) (fst (b ! k))"
    using reads ne by (intro exI [of _ 0]) (auto dest: spec [of _ 0])
  then have "scan_loop C tag st s slots prev at e =
    and_then (scan_loop C tag st s slots (seq_of b) (next_slot at b) (align_up (e + extent b) BLOCK))
      (\<lambda>(bs, p, e). Inr (scan_of at b (all_found b) # bs, p, e))"
    using scan_loop_torn [OF intact_torn [OF i] f] fs fe by simp
  also have "scan_loop C tag st s slots (seq_of b) (next_slot at b) (align_up (e + extent b) BLOCK) =
    and_then (scan_loop C tag st s slots (log_last (seq_of b) bs) (log_slots (next_slot at b) bs)
        (log_entries (align_up (e + extent b) BLOCK) bs))
      (\<lambda>(rest, p, e). Inr (log_scans (next_slot at b) bs @ rest, p, e))"
    using Cons.prems by (intro Cons.IH) simp
  finally show ?case
    by (cases "scan_loop C tag st s slots (log_last (seq_of b) bs) (log_slots (next_slot at b) bs)
        (log_entries (align_up (e + extent b) BLOCK) bs)") (auto simp: log_last_Cons)
qed

text \<open>
  What a crash leaves of the last commit: a batch after the log, torn, and nothing after it. \<open>visible\<close>
  is whether any trace of it identifies it.
\<close>

definition visible :: "crc_lib \<Rightarrow> u32 \<Rightarrow> stale \<Rightarrow> segment \<Rightarrow> nat \<Rightarrow> (precord \<times> bytes) list \<Rightarrow> bool" where
  "visible C tag st s at prs =
     ((\<exists>k < length prs. record_reads C st s (at + k) (fst (prs ! k))) \<or> entry_reads C tag s (hd prs))"

definition torn_tail :: "crc_lib \<Rightarrow> u32 \<Rightarrow> stale \<Rightarrow> segment \<Rightarrow> nat \<Rightarrow> u64 \<Rightarrow> nat \<Rightarrow> nat \<Rightarrow> (precord \<times> bytes) list \<Rightarrow> bool" where
  "torn_tail C tag st s slots prev at e prs =
     (torn C tag st s at e prs \<and> follows st s slots prev at prs
      \<and> unwritten C tag st s slots (seq_of prs) (next_slot at prs) e)"

lemma torn_invisible_unwritten:
  assumes t: "torn_tail C tag st s slots prev at e prs" and v: "\<not> visible C tag st s at prs"
  shows "\<forall>j \<ge> at. j < slots \<longrightarrow> slot_dead C st s j"
    and "case read_entry C s e tag of None \<Rightarrow> True | Some (h, _, _) \<Rightarrow> eh_batch h < sg_first_batch s"
proof -
  have ne: "prs \<noteq> []" using t by (auto simp: torn_tail_def torn_def placed_def)
  have beyond: "\<forall>j \<ge> next_slot at prs. j < slots \<longrightarrow> slot_dead C st s j" using t by (simp add: torn_tail_def unwritten_def)
  show "\<forall>j \<ge> at. j < slots \<longrightarrow> slot_dead C st s j"
    by (rule torn_slots_dead [OF _ _ beyond]) (use t v in \<open>auto simp: torn_tail_def visible_def\<close>)
  have "entry_dead C tag s (prs ! 0)" using t v ne by (auto simp: torn_tail_def torn_def visible_def hd_conv_nth)
  moreover have "unat (pr_offset (fst (prs ! 0))) = e"
    using t ne by (cases prs) (auto simp: torn_tail_def torn_def placed_def)
  ultimately show "case read_entry C s e tag of None \<Rightarrow> True | Some (h, _, _) \<Rightarrow> eh_batch h < sg_first_batch s"
    by (simp add: entry_dead_def)
qed

definition tail_finds :: "crc_lib \<Rightarrow> u32 \<Rightarrow> stale \<Rightarrow> segment \<Rightarrow> nat \<Rightarrow> (precord \<times> bytes) list \<Rightarrow> found list" where
  "tail_finds C tag st s at prs = finds C tag st s at 0 True prs"

definition tail_scans :: "crc_lib \<Rightarrow> u32 \<Rightarrow> stale \<Rightarrow> segment \<Rightarrow> nat \<Rightarrow> (precord \<times> bytes) list \<Rightarrow> batch_scan list" where
  "tail_scans C tag st s at prs =
     (if visible C tag st s at prs then [scan_of at prs (tail_finds C tag st s at prs)] else [])"

definition tail_cursor :: "crc_lib \<Rightarrow> u32 \<Rightarrow> stale \<Rightarrow> segment \<Rightarrow> nat \<Rightarrow> nat \<Rightarrow> (precord \<times> bytes) list \<Rightarrow> nat \<times> nat" where
  "tail_cursor C tag st s at e prs =
     (if visible C tag st s at prs
      then (PERSIST_START + next_slot at prs * RECORD_SIZE,
            align_up (found_end e e prs (tail_finds C tag st s at prs)) BLOCK)
      else (PERSIST_START + at * RECORD_SIZE, e))"

lemma scan_loop_tail:
  assumes t: "torn_tail C tag st s slots prev at e prs" and e: "BLOCK dvd e"
  shows "scan_loop C tag st s slots prev at e =
    Inr (tail_scans C tag st s at prs, tail_cursor C tag st s at e prs)"
proof (cases "visible C tag st s at prs")
  case True
  define m where "m = align_up (found_end e e prs (tail_finds C tag st s at prs)) BLOCK"
  have "e \<le> found_end e e prs (tail_finds C tag st s at prs)"
    using found_end_bounds [of e e prs "tail_finds C tag st s at prs"] by simp
  then have "e \<le> m" unfolding m_def using align_up_ge [of BLOCK] by (metis BLOCK_def le_trans zero_less_numeral)
  moreover have "BLOCK dvd m" by (simp add: m_def align_up_dvd)
  ultimately have "scan_loop C tag st s slots (seq_of prs) (next_slot at prs) m =
      Inr ([], PERSIST_START + next_slot at prs * RECORD_SIZE, m)"
    using t by (intro scan_loop_unwritten) (auto simp: torn_tail_def unwritten_def)
  then show ?thesis
    using scan_loop_torn [of C tag st s at e prs slots prev] t True
    by (auto simp: torn_tail_def unwritten_def visible_def tail_scans_def tail_cursor_def tail_finds_def m_def)
next
  case False
  then have "scan_loop C tag st s slots prev at e = Inr ([], PERSIST_START + at * RECORD_SIZE, e)"
    using torn_invisible_unwritten [OF t False]
    by (intro scan_loop_end) (auto simp: is_stale_in_def split: option.splits)
  then show ?thesis using False by (simp add: tail_scans_def tail_cursor_def)
qed

section \<open>Pass 1 over the segments\<close>

definition slots_of :: "segment \<Rightarrow> nat" where
  "slots_of s = length (read_persist_log s) div RECORD_SIZE"

definition start_of :: "segment \<Rightarrow> nat" where
  "start_of s = entry_start (sg_geometry s)"

lemma start_of_dvd: "BLOCK dvd start_of s"
  by (simp add: start_of_def geometry_defs)

text \<open>Full segments, oldest first, each with its batches and each following the one before.\<close>

fun closed_ok :: "crc_lib \<Rightarrow> u32 \<Rightarrow> stale \<Rightarrow> u64 \<Rightarrow> (segment \<times> (precord \<times> bytes) list list) list \<Rightarrow> bool" where
  "closed_ok C tag st prev [] = True"
| "closed_ok C tag st prev ((s, bs) # rest) =
     (sg_prev_batch s = prev \<and> log_ok C tag st s (slots_of s) prev 0 (start_of s) bs
      \<and> unwritten C tag st s (slots_of s) (log_last prev bs) (log_slots 0 bs) (log_entries (start_of s) bs)
      \<and> closed_ok C tag st (log_last prev bs) rest)"

fun closed_last :: "u64 \<Rightarrow> (segment \<times> (precord \<times> bytes) list list) list \<Rightarrow> u64" where
  "closed_last prev [] = prev"
| "closed_last prev ((_, bs) # rest) = closed_last (log_last prev bs) rest"

definition closed_scan :: "segment \<times> (precord \<times> bytes) list list \<Rightarrow> batch_scan list \<times> nat \<times> nat" where
  "closed_scan = (\<lambda>(s, bs). (log_scans 0 bs, PERSIST_START + log_slots 0 bs * RECORD_SIZE, log_entries (start_of s) bs))"

lemma log_scans_seq: "(if log_scans at bs = [] then prev else bs_seq (last (log_scans at bs))) = log_last prev bs"
proof (induction bs arbitrary: at prev)
  case (Cons b bs)
  show ?case using Cons.IH [of "next_slot at b" "seq_of b"] by (auto simp: log_last_Cons scan_of_def split: if_splits)
qed (simp add: log_last_def)

lemma scan_structure_closed:
  "closed_ok C tag st prev pre \<Longrightarrow>
   scan_structure C tag st (map fst pre @ ss) prev =
     and_then (scan_structure C tag st ss (closed_last prev pre))
       (\<lambda>(rest, l). Inr (map closed_scan pre @ rest, l))"
proof (induction pre arbitrary: prev)
  case Nil
  then show ?case by (cases "scan_structure C tag st ss prev") auto
next
  case (Cons x pre)
  obtain s bs where x: "x = (s, bs)" by (cases x)
  have "scan_segment C tag st s prev = Inr (closed_scan x)"
    unfolding scan_segment_def
    using scan_loop_log [of C tag st s "slots_of s" prev 0 "start_of s" bs]
      scan_loop_unwritten [of C tag st s "slots_of s" "log_last prev bs" "log_slots 0 bs" "log_entries (start_of s) bs"]
      log_entries_dvd [OF start_of_dvd, of s bs] Cons.prems x
    by (simp add: closed_scan_def slots_of_def start_of_def)
  moreover have "scan_structure C tag st (map fst pre @ ss) (log_last prev bs) =
     and_then (scan_structure C tag st ss (closed_last (log_last prev bs) pre))
       (\<lambda>(rest, l). Inr (map closed_scan pre @ rest, l))"
    using Cons.prems x by (intro Cons.IH) simp
  ultimately show ?case using Cons.prems x log_scans_seq [of 0 bs prev]
    by (cases "scan_structure C tag st ss (closed_last (log_last prev bs) pre)") (auto simp: closed_scan_def)
qed

text \<open>The active segment: intact batches, then what the crash left of the last commit.\<close>

definition active_ok ::
  "crc_lib \<Rightarrow> u32 \<Rightarrow> stale \<Rightarrow> u64 \<Rightarrow> segment \<Rightarrow> (precord \<times> bytes) list list \<Rightarrow> (precord \<times> bytes) list \<Rightarrow> bool" where
  "active_ok C tag st prev s bs prs =
     (sg_prev_batch s = prev \<and> log_ok C tag st s (slots_of s) prev 0 (start_of s) bs
      \<and> torn_tail C tag st s (slots_of s) (log_last prev bs) (log_slots 0 bs) (log_entries (start_of s) bs) prs)"

definition active_scan ::
  "crc_lib \<Rightarrow> u32 \<Rightarrow> stale \<Rightarrow> segment \<Rightarrow> (precord \<times> bytes) list list \<Rightarrow> (precord \<times> bytes) list \<Rightarrow> batch_scan list \<times> nat \<times> nat" where
  "active_scan C tag st s bs prs =
     (log_scans 0 bs @ tail_scans C tag st s (log_slots 0 bs) prs,
      tail_cursor C tag st s (log_slots 0 bs) (log_entries (start_of s) bs) prs)"

lemma scan_segment_active:
  assumes "active_ok C tag st prev s bs prs"
  shows "scan_segment C tag st s prev = Inr (active_scan C tag st s bs prs)"
  unfolding scan_segment_def
  using assms scan_loop_log [of C tag st s "slots_of s" prev 0 "start_of s" bs]
    scan_loop_tail [of C tag st s "slots_of s" "log_last prev bs" "log_slots 0 bs" "log_entries (start_of s) bs" prs]
    log_entries_dvd [OF start_of_dvd, of s bs]
  by (cases "tail_cursor C tag st s (log_slots 0 bs) (log_entries (start_of s) bs) prs")
    (simp add: active_ok_def active_scan_def slots_of_def start_of_def)

lemma scan_structure_crash:
  assumes c: "closed_ok C tag st prev pre" and a: "active_ok C tag st (closed_last prev pre) s bs prs"
  shows "scan_structure C tag st (map fst pre @ [s]) prev =
    Inr (map closed_scan pre @ [active_scan C tag st s bs prs],
         if visible C tag st s (log_slots 0 bs) prs then seq_of prs else log_last (closed_last prev pre) bs)"
proof -
  have "scan_structure C tag st [s] (closed_last prev pre) =
      Inr ([active_scan C tag st s bs prs],
        if visible C tag st s (log_slots 0 bs) prs then seq_of prs else log_last (closed_last prev pre) bs)"
    using scan_segment_active [OF a] a log_scans_seq [of 0 bs "closed_last prev pre"]
    by (cases "tail_cursor C tag st s (log_slots 0 bs) (log_entries (start_of s) bs) prs")
      (auto simp: active_ok_def active_scan_def tail_scans_def scan_of_def)
  then show ?thesis using scan_structure_closed [OF c, of "[s]"] by simp
qed

section \<open>Pass 2\<close>

text \<open>The operations a batch stands for.\<close>

definition op_of :: "segment \<Rightarrow> batch_scan \<Rightarrow> nat \<Rightarrow> precord \<Rightarrow> bool \<Rightarrow> jop list" where
  "op_of s b k r damaged =
     (case pr_kind r of
        Void \<Rightarrow> []
      | Clear \<Rightarrow> [JClear (pr_position r) (clear_end r)]
      | Put \<Rightarrow> [JPut (pr_position r) (located_of s b k r damaged)])"

fun batch_ops :: "segment \<Rightarrow> batch_scan \<Rightarrow> nat \<Rightarrow> (precord \<times> bytes) list \<Rightarrow> jop list" where
  "batch_ops s b k [] = []"
| "batch_ops s b k ((r, _) # prs) = op_of s b k r False @ batch_ops s b (Suc k) prs"

definition log_ops_at :: "segment \<Rightarrow> nat \<Rightarrow> (precord \<times> bytes) list \<Rightarrow> jop list" where
  "log_ops_at s at b = batch_ops s (scan_of at b (all_found b)) 0 b"

fun log_ops :: "segment \<Rightarrow> nat \<Rightarrow> (precord \<times> bytes) list list \<Rightarrow> jop list" where
  "log_ops s at [] = []"
| "log_ops s at (b # bs) = log_ops_at s at b @ log_ops s (next_slot at b) bs"

fun closed_ops :: "(segment \<times> (precord \<times> bytes) list list) list \<Rightarrow> jop list" where
  "closed_ops [] = []"
| "closed_ops ((s, bs) # rest) = log_ops s 0 bs @ closed_ops rest"

lemma entry_reads_undamaged: "entry_reads C tag s (r, payload) \<Longrightarrow> \<not> entry_damaged C tag s r"
  by (simp add: entry_reads_def entry_damaged_def entry_matches_def header_of_def)

lemma judge_record_undamaged:
  "check \<longrightarrow> \<not> entry_damaged C tag s r \<Longrightarrow>
   judge_record C tag s b check k r out = out\<lparr>sc_ops := sc_ops out @ op_of s b k r False\<rparr>"
  by (cases "pr_kind r") (auto simp: judge_record_def op_of_def Let_def)

text \<open>The verdict on an intact batch does not depend on its being the last one.\<close>

lemma judge_slots_intact:
  "\<forall>pr \<in> set prs. entry_reads C tag s pr \<Longrightarrow>
   judge_slots C tag s b is_last k (all_found prs) out rewrite kept =
     Inr (out\<lparr>sc_ops := sc_ops out @ batch_ops s b k prs\<rparr>, rewrite, kept @ map fst prs)"
proof (induction prs arbitrary: k out kept)
  case (Cons pr prs)
  obtain r payload where pr: "pr = (r, payload)" by (cases pr)
  have "judge_record C tag s b is_last k r out = out\<lparr>sc_ops := sc_ops out @ op_of s b k r False\<rparr>"
    using Cons.prems pr by (intro judge_record_undamaged) (auto dest: entry_reads_undamaged)
  then show ?case using Cons.IH Cons.prems pr by (simp add: all_found_def)
qed (simp add: all_found_def)

lemma judge_batch_intact:
  assumes "intact C tag st s at e b"
  shows "judge_batch C tag s si (scan_of at b (all_found b)) is_last out =
    Inr (out\<lparr>sc_ops := sc_ops out @ log_ops_at s at b\<rparr>)"
proof -
  have "\<forall>pr \<in> set b. entry_reads C tag s pr" using assms unfolding intact_def by (metis in_set_conv_nth)
  then show ?thesis by (simp add: judge_batch_def scan_of_def log_ops_at_def judge_slots_intact)
qed

lemma judge_batches_log:
  "log_ok C tag st s slots prev at e bs \<Longrightarrow>
   judge_batches C tag s si loc bi (log_scans at bs @ rest) out =
     judge_batches C tag s si loc (bi + length bs) rest (out\<lparr>sc_ops := sc_ops out @ log_ops s at bs\<rparr>)"
proof (induction bs arbitrary: prev at e bi out)
  case (Cons b bs)
  have "intact C tag st s at e b" using Cons.prems by simp
  note j = judge_batch_intact [OF this]
  have "log_ok C tag st s slots (seq_of b) (next_slot at b) (align_up (e + extent b) BLOCK) bs"
    using Cons.prems by simp
  from Cons.IH [OF this] show ?case by (simp add: j)
qed simp

lemma judge_segments_closed:
  "closed_ok C tag st prev pre \<Longrightarrow>
   judge_segments C tag loc si (map fst pre @ ss) (map closed_scan pre @ rest) out =
     judge_segments C tag loc (si + length pre) ss rest
       (out\<lparr>sc_ops := sc_ops out @ closed_ops pre, sc_cursors := sc_cursors out @ map (snd \<circ> closed_scan) pre\<rparr>)"
proof (induction pre arbitrary: prev si out)
  case (Cons x pre)
  obtain s bs where x: "x = (s, bs)" by (cases x)
  have l: "log_ok C tag st s (slots_of s) prev 0 (start_of s) bs" using Cons.prems x by simp
  have "closed_ok C tag st (log_last prev bs) pre" using Cons.prems x by simp
  from Cons.IH [OF this] show ?case
    using judge_batches_log [OF l, of si loc 0 "[]"] x by (simp add: closed_scan_def)
qed simp

section \<open>The torn batch\<close>

text \<open>The operations kept of a batch whose slots were found as \<open>fs\<close>, and its damaged entries.\<close>

fun kept_ops :: "crc_lib \<Rightarrow> u32 \<Rightarrow> segment \<Rightarrow> batch_scan \<Rightarrow> nat \<Rightarrow> found list \<Rightarrow> jop list" where
  "kept_ops C tag s b k [] = []"
| "kept_ops C tag s b k (f # fs) =
     (case f of FoundRecord r \<Rightarrow> op_of s b k r (entry_damaged C tag s r)
      | FoundRebuilt r \<Rightarrow> op_of s b k r False
      | FoundLost \<Rightarrow> []) @ kept_ops C tag s b (Suc k) fs"

fun damaged_puts :: "crc_lib \<Rightarrow> u32 \<Rightarrow> segment \<Rightarrow> bool \<Rightarrow> found list \<Rightarrow> (u64 \<times> ident) list" where
  "damaged_puts C tag s ordered [] = []"
| "damaged_puts C tag s ordered (f # fs) =
     (case f of
        FoundRecord r \<Rightarrow>
          if pr_kind r = Put \<and> entry_damaged C tag s r \<and> (pr_flags r AND FLAG_ORDERED \<noteq> 0) = ordered
          then [(pr_position r, pr_id r)] else []
      | _ \<Rightarrow> []) @ damaged_puts C tag s ordered fs"

lemma judge_slots_last:
  "\<exists>out' rewrite' kept'. judge_slots C tag s b True k fs out rewrite kept = Inr (out', rewrite', kept') \<and>
     sc_ops out' = sc_ops out @ kept_ops C tag s b k fs \<and>
     sc_corrupt out' = sc_corrupt out @ damaged_puts C tag s True fs \<and>
     sc_ambiguous out' = sc_ambiguous out @ damaged_puts C tag s False fs \<and>
     sc_last_batch out' = sc_last_batch out \<and> sc_cursors out' = sc_cursors out \<and>
     sc_rebuilt out' = sc_rebuilt out + length (filter (\<lambda>f. \<exists>r. f = FoundRebuilt r) fs) \<and>
     sc_voided out' = sc_voided out + length (filter (\<lambda>f. f = FoundLost) fs) \<and>
     sc_rewrite out' = sc_rewrite out"
proof (induction fs arbitrary: k out rewrite kept)
  case (Cons f fs)
  show ?case
  proof (cases f)
    case (FoundRecord r)
    then show ?thesis using Cons.IH [of "Suc k" "judge_record C tag s b True k r out" rewrite "kept @ [r]"]
      by (cases "pr_kind r") (auto simp: judge_record_def op_of_def Let_def)
  next
    case (FoundRebuilt r)
    then show ?thesis
      using Cons.IH [of "Suc k" "judge_record C tag s b False k r (out\<lparr>sc_rebuilt := sc_rebuilt out + 1\<rparr>)" True "kept @ [r]"]
      by (cases "pr_kind r") (auto simp: judge_record_def op_of_def Let_def)
  next
    case FoundLost
    then show ?thesis using Cons.IH [of "Suc k" "out\<lparr>sc_voided := sc_voided out + 1\<rparr>" True "kept @ [void_record b k]"] by auto
  qed
qed simp

text \<open>An operation without the verdict on its bytes.\<close>

fun settle :: "jop \<Rightarrow> jop" where
  "settle (JPut p at) = JPut p (at\<lparr>lo_damaged := False\<rparr>)"
| "settle (JClear a b) = JClear a b"

lemma settle_op_of [simp]: "map settle (op_of s b k r d) = op_of s b k r False"
  by (cases "pr_kind r") (simp_all add: op_of_def located_of_def)

lemma op_of_scan: "op_of s (scan_of at prs fs) k r d = op_of s (scan_of at prs fs') k r d"
  by (cases "pr_kind r") (simp_all add: op_of_def located_of_def scan_of_def)

lemma batch_ops_scan: "batch_ops s (scan_of at prs fs) k rs = batch_ops s (scan_of at prs fs') k rs"
proof (induction rs arbitrary: k)
  case (Cons pr rs)
  obtain r payload where pr: "pr = (r, payload)" by (cases pr)
  show ?case using Cons.IH [of "Suc k"] op_of_scan [of s at prs fs k r False fs'] pr by simp
qed simp

lemma kept_ops_subseq:
  "subseq (map settle (kept_ops C tag s b k (finds C tag st s at k w prs))) (batch_ops s b k prs)"
proof (induction prs arbitrary: k w)
  case (Cons pr prs)
  then show ?case by (cases pr) (auto intro: list_emb_append_mono simp: subseq_append')
qed simp

lemma kept_ops_record:
  "i < length prs \<Longrightarrow> record_reads C st s (at + k + i) (fst (prs ! i)) \<Longrightarrow>
   set (op_of s b (k + i) (fst (prs ! i)) False) \<subseteq> settle ` set (kept_ops C tag s b k (finds C tag st s at k w prs))"
proof (induction prs arbitrary: i k w)
  case (Cons pr prs)
  obtain r payload where pr: "pr = (r, payload)" by (cases pr)
  show ?case
  proof (cases i)
    case 0
    have "set (op_of s b k r False) = settle ` set (op_of s b k r (entry_damaged C tag s r))"
      using settle_op_of [of s b k r "entry_damaged C tag s r"] by (metis list.set_map)
    then show ?thesis using Cons.prems 0 pr by auto
  next
    case (Suc j)
    have "set (op_of s b (Suc k + j) (fst (prs ! j)) False)
        \<subseteq> settle ` set (kept_ops C tag s b (Suc k) (finds C tag st s at (Suc k) w prs))" for w
      using Cons.prems Suc by (intro Cons.IH) simp_all
    then show ?thesis using pr Suc by auto
  qed
qed simp

lemma kept_ops_intact:
  "\<forall>i < length prs. record_reads C st s (at + k + i) (fst (prs ! i)) \<and> entry_reads C tag s (prs ! i) \<Longrightarrow>
   kept_ops C tag s b k (finds C tag st s at k w prs) = batch_ops s b k prs"
proof (induction prs arbitrary: k w)
  case (Cons pr prs)
  obtain r payload where pr: "pr = (r, payload)" by (cases pr)
  have "record_reads C st s (at + k) r \<and> entry_reads C tag s (r, payload)" using Cons.prems pr by (auto dest: spec [of _ 0])
  moreover have "\<forall>i < length prs. record_reads C st s (at + Suc k + i) (fst (prs ! i)) \<and> entry_reads C tag s (prs ! i)"
    using Cons.prems by (fastforce dest: spec [of _ "Suc i" for i])
  moreover have "entry_damaged C tag s r = False" using calculation(1) entry_reads_undamaged by blast
  ultimately show ?case using Cons.IH [of "Suc k" True] pr by simp
qed simp

lemma damaged_puts_ordered:
  "\<forall>i < length prs. record_reads C st s (at + k + i) (fst (prs ! i)) \<longrightarrow> entry_reads C tag s (prs ! i) \<Longrightarrow>
   damaged_puts C tag s ordered (finds C tag st s at k w prs) = []"
proof (induction prs arbitrary: k w)
  case (Cons pr prs)
  obtain r payload where pr: "pr = (r, payload)" by (cases pr)
  have "record_reads C st s (at + k) r \<longrightarrow> entry_reads C tag s (r, payload)" using Cons.prems pr by (auto dest: spec [of _ 0])
  moreover have "\<forall>i < length prs. record_reads C st s (at + Suc k + i) (fst (prs ! i)) \<longrightarrow> entry_reads C tag s (prs ! i)"
    using Cons.prems by (fastforce dest: spec [of _ "Suc i" for i])
  ultimately show ?case using Cons.IH pr by (auto simp: entry_reads_undamaged)
qed simp

lemma damaged_puts_batched:
  "\<forall>pr \<in> set prs. pr_flags (fst pr) AND FLAG_ORDERED = 0 \<Longrightarrow>
   damaged_puts C tag s True (finds C tag st s at k w prs) = []"
proof (induction prs arbitrary: k w)
  case (Cons pr prs)
  then show ?case by (cases pr) auto
qed simp

lemma last_location_snoc:
  "last_location (xs @ [(bs, p, e)]) =
    (if bs \<noteq> [] then Some (length xs, length bs - 1) else last_location xs)"
proof (induction xs)
  case (Cons x xs)
  then show ?case by (cases x) (auto split: option.splits)
qed simp

lemma judge_batch_last:
  "\<exists>out'. judge_batch C tag s si b True out = Inr out' \<and>
     sc_ops out' = sc_ops out @ kept_ops C tag s b 0 (bs_slots b) \<and>
     sc_corrupt out' = sc_corrupt out @ damaged_puts C tag s True (bs_slots b) \<and>
     sc_ambiguous out' = sc_ambiguous out @ damaged_puts C tag s False (bs_slots b) \<and>
     sc_last_batch out' = sc_last_batch out \<and> sc_cursors out' = sc_cursors out"
  using judge_slots_last [of C tag s b 0 "bs_slots b" out False "[]"] by (fastforce simp: judge_batch_def)

definition tail_ops :: "crc_lib \<Rightarrow> u32 \<Rightarrow> stale \<Rightarrow> segment \<Rightarrow> nat \<Rightarrow> (precord \<times> bytes) list \<Rightarrow> jop list" where
  "tail_ops C tag st s at prs =
     (if visible C tag st s at prs
      then kept_ops C tag s (scan_of at prs (tail_finds C tag st s at prs)) 0 (tail_finds C tag st s at prs) else [])"

definition tail_damage :: "crc_lib \<Rightarrow> u32 \<Rightarrow> stale \<Rightarrow> segment \<Rightarrow> nat \<Rightarrow> (precord \<times> bytes) list \<Rightarrow> bool \<Rightarrow> (u64 \<times> ident) list" where
  "tail_damage C tag st s at prs ordered =
     (if visible C tag st s at prs then damaged_puts C tag s ordered (tail_finds C tag st s at prs) else [])"

text \<open>The whole scan of a log cut by a crash.\<close>

lemma scan_crash:
  assumes c: "closed_ok C tag st prev pre" and a: "active_ok C tag st (closed_last prev pre) s bs prs"
  defines "at \<equiv> log_slots 0 bs"
  shows "\<exists>out. scan C tag st (map fst pre @ [s]) = Inr out \<and>
    sc_ops out = closed_ops pre @ log_ops s 0 bs @ tail_ops C tag st s at prs \<and>
    sc_corrupt out = tail_damage C tag st s at prs True \<and>
    sc_ambiguous out = tail_damage C tag st s at prs False \<and>
    sc_last_batch out = (if visible C tag st s at prs then seq_of prs else log_last (closed_last prev pre) bs) \<and>
    last (sc_cursors out) = tail_cursor C tag st s at (log_entries (start_of s) bs) prs"
proof -
  let ?v = "visible C tag st s at prs"
  let ?l = "if ?v then seq_of prs else log_last (closed_last prev pre) bs"
  let ?per = "map closed_scan pre @ [active_scan C tag st s bs prs]"
  have hd: "(case map fst pre @ [s] of [] \<Rightarrow> 0 | s # _ \<Rightarrow> sg_prev_batch s) = prev"
    using c a by (cases pre) (auto simp: active_ok_def)
  obtain q where q: "tail_cursor C tag st s at (log_entries (start_of s) bs) prs = q" by simp
  have act: "active_scan C tag st s bs prs = (log_scans 0 bs @ tail_scans C tag st s at prs, q)"
    using q by (simp add: active_scan_def at_def)
  have lo: "log_ok C tag st s (slots_of s) (closed_last prev pre) 0 (start_of s) bs" using a by (simp add: active_ok_def)
  have len: "length (log_scans n bs) = length bs" for n by (induction bs arbitrary: n) simp_all
  have loc: "last_location ?per = Some (length pre, length bs)" if ?v
    using that act by (cases q) (simp add: last_location_snoc tail_scans_def len)
  define out0 where "out0 = scan_empty\<lparr>sc_last_batch := ?l, sc_ops := closed_ops pre @ log_ops s 0 bs,
    sc_cursors := map (snd \<circ> closed_scan) pre @ [q]\<rparr>"
  have "scan C tag st (map fst pre @ [s]) =
      judge_batches C tag s (length pre) (last_location ?per) (length bs) (tail_scans C tag st s at prs) out0"
    using scan_structure_crash [OF c a] hd act judge_segments_closed [OF c, of "last_location ?per" 0 "[s]" "[active_scan C tag st s bs prs]"]
      judge_batches_log [OF lo, of "length pre" "last_location ?per" 0 "tail_scans C tag st s at prs"]
    by (cases q) (auto simp: scan_def out0_def scan_empty_def at_def and_then_def split: sum.splits)
  then show ?thesis
  proof (cases ?v)
    case True
    then show ?thesis
      using judge_batch_last [of C tag s "length pre" "scan_of at prs (tail_finds C tag st s at prs)" out0] loc q
        \<open>scan C tag st _ = _\<close>
      by (auto simp: tail_scans_def tail_ops_def tail_damage_def out0_def scan_empty_def scan_of_def)
  next
    case False
    then show ?thesis using \<open>scan C tag st _ = _\<close> q
      by (simp add: tail_scans_def tail_ops_def tail_damage_def out0_def scan_empty_def)
  qed
qed

end
