(* ===== verification/Journal_Crash.thy ===== *)
theory Journal_Crash
  imports Journal_Durability
begin

text \<open>
  Commits and crashes, byte for byte: what \<open>prepare\<close>, \<open>place\<close> and the writes of the commit protocol leave in
  a segment's file is the log that the scan of \<open>recover.rs\<close> finds again, and a crash in the middle of a commit
  costs at most writes of that commit.
\<close>

section \<open>From bytes to batches\<close>

text \<open>A segment file has the size its geometry says.\<close>

definition segment_ok :: "segment \<Rightarrow> bool" where
  "segment_ok s = (is_valid (sg_geometry s) \<and> length (sg_image s) = total_blocks (sg_geometry s) * BLOCK)"

lemma slots_of_eq: "segment_ok s \<Longrightarrow> slots_of s = unat (persist_blocks (sg_geometry s)) * RECORDS_PER_BLOCK"
  by (simp add: slots_of_def read_persist_log_def segment_ok_def geometry_defs RECORDS_PER_BLOCK_def
    BLOCK_def RECORD_SIZE_def)

lemma log_bytes:
  assumes "segment_ok s" "j < slots_of s"
  shows "\<exists>rest. drop (j * RECORD_SIZE) (read_persist_log s) = bslice (PERSIST_START + j * RECORD_SIZE) RECORD_SIZE (sg_image s) @ rest"
proof -
  have "Suc j \<le> unat (persist_blocks (sg_geometry s)) * 64"
    using assms slots_of_eq [OF assms(1)] by (simp add: RECORDS_PER_BLOCK_def BLOCK_def RECORD_SIZE_def)
  then have le: "j * 64 + 64 \<le> persist_end (sg_geometry s) - PERSIST_START"
    by (simp add: geometry_defs BLOCK_def)
  define n where "n = persist_end (sg_geometry s) - PERSIST_START"
  have "drop (j * 64) (take n (drop PERSIST_START (sg_image s))) =
      take (n - j * 64) (drop (PERSIST_START + j * 64) (sg_image s))"
    by (simp add: drop_take add.commute)
  also have "n - j * 64 = 64 + (n - j * 64 - 64)" using le n_def by simp
  finally show ?thesis
    by (simp add: read_persist_log_def bslice_def RECORD_SIZE_def n_def [symmetric] take_add)
qed

lemma record_reads_bytes:
  assumes "segment_ok s" "j < slots_of s" "bslice (PERSIST_START + j * RECORD_SIZE) RECORD_SIZE (sg_image s) = record_encode C r"
    "record_ok r" "\<not> is_stale_in st (sg_first_batch s) (pr_batch r)"
  shows "record_reads C st s j r"
  using log_bytes [OF assms(1,2)] assms(3-5) record_round_trip
  by (auto simp: record_reads_def log_slot_def)

lemma slot_dead_zero:
  assumes "segment_ok s" "j < slots_of s" "bslice (PERSIST_START + j * RECORD_SIZE) RECORD_SIZE (sg_image s) = replicate RECORD_SIZE 0"
  shows "slot_dead C st s j"
  using log_bytes [OF assms(1,2)] assms(3) record_decode_zero
  by (auto simp: slot_dead_def log_slot_def)

lemma entry_parse_append: "length bs = RECORD_SIZE \<Longrightarrow> entry_parse (bs @ rest) = entry_parse bs"
  by (auto simp: entry_parse_def get_u16_def get_u32_def get_u64_def bslice_def RECORD_SIZE_def nth_append Let_def
    split: option.splits)

lemma entry_reads_bytes:
  assumes enc: "entry_encode C (header_of tag r) payload = (pr_entry_crc r, bs)" and r: "record_ok r"
    and len: "unat (pr_len r) = length payload"
    and bs: "bslice (unat (pr_offset r)) (RECORD_SIZE + length payload) (sg_image s) = bs"
    and lo: "start_of s \<le> unat (pr_offset r)"
    and hi: "unat (pr_offset r) + footprint (pr_len r) \<le> entry_end (sg_geometry s)"
  shows "entry_reads C tag s (r, payload)"
proof -
  have h: "header_ok (header_of tag r)" using r by (simp add: header_ok_def header_of_def record_ok_def)
  note e = entry_round_trip [OF h enc]
  have head: "bslice (unat (pr_offset r)) RECORD_SIZE (sg_image s) = bslice 0 RECORD_SIZE bs"
    unfolding bs [symmetric] by (simp add: bslice_def min_def)
  have take: "entry_parse (bslice 0 RECORD_SIZE bs) = Some (header_of tag r, pr_entry_crc r)"
  proof -
    have "bs = bslice 0 RECORD_SIZE bs @ payload"
      using e(1) e(4) [of "[]"] by (simp add: bslice_def) (metis append_take_drop_id)
    moreover have "length (bslice 0 RECORD_SIZE bs) = RECORD_SIZE" using e(1) by simp
    ultimately have "entry_parse bs = entry_parse (bslice 0 RECORD_SIZE bs)" by (metis entry_parse_append)
    then show ?thesis using e(2) [of "[]"] by simp
  qed
  have "drop RECORD_SIZE bs = payload" using e(1) e(4) [of "[]"] by (simp add: bslice_def)
  then show ?thesis
    using head take e(3) [of "[]"] lo hi bs len footprint_ge [of "pr_len r"]
    by (simp add: entry_reads_def read_entry_def read_at_def start_of_def header_of_def Let_def)
qed

lemma packed_chained:
  "packed C tag img e prs \<Longrightarrow> \<forall>pr \<in> set prs. pr_kind (fst pr) \<noteq> Void \<Longrightarrow> chained e prs"
  by (induction C tag img e prs rule: packed.induct) auto

lemma packed_nth:
  "packed C tag img e prs \<Longrightarrow> k < length prs \<Longrightarrow>
   (let (r, payload) = prs ! k in
      e \<le> unat (pr_offset r) \<and> unat (pr_offset r) + footprint (pr_len r) \<le> e + extent prs \<and>
      unat (pr_len r) = length payload \<and>
      entry_encode C (header_of tag r) payload =
        (pr_entry_crc r, bslice (unat (pr_offset r)) (RECORD_SIZE + length payload) img))"
proof (induction prs arbitrary: e k)
  case (Cons pr prs)
  obtain r payload where pr: "pr = (r, payload)" by (cases pr)
  show ?case
  proof (cases k)
    case 0
    then show ?thesis using Cons.prems pr by (auto split: prod.splits)
  next
    case (Suc j)
    have "packed C tag img (e + footprint (pr_len r)) prs" using Cons.prems(1) pr by simp
    from Cons.IH [OF this, of j] show ?thesis using Cons.prems(2) Suc pr by (auto simp: Let_def split: prod.splits)
  qed
qed simp

lemma numbered_of:
  "\<forall>i < length prs. pr_batch (fst (prs ! i)) = seq \<and> pr_count (fst (prs ! i)) = count \<and> unat (pr_index (fst (prs ! i))) = k + i \<Longrightarrow>
   numbered seq count k prs"
proof (induction prs arbitrary: k)
  case (Cons pr prs)
  have "numbered seq count (Suc k) prs"
    using Cons.prems by (intro Cons.IH) (fastforce dest: spec [of _ "Suc i" for i])
  then show ?case using Cons.prems by (cases pr) (auto dest: spec [of _ 0])
qed simp

lemma batch_at_placed:
  assumes "batch_at C tag img p e prs"
  shows "placed e prs"
proof -
  have n: "\<forall>k < length prs. unat (pr_index (fst (prs ! k))) = k \<and> unat (pr_count (fst (prs ! k))) = length prs
      \<and> pr_batch (fst (prs ! k)) = seq_of prs \<and> pr_kind (fst (prs ! k)) \<noteq> Void"
    and len: "prs \<noteq> []" "length prs < 2 ^ 16" and pk: "packed C tag img e prs"
    using assms by (simp_all add: batch_at_def seq_of_def)
  have "\<forall>k < length prs. pr_count (fst (prs ! k)) = count_of prs"
    using n len(2) by (simp add: count_of_def word_unat_eq_iff unat_of_nat)
  then have "numbered (seq_of prs) (count_of prs) 0 prs" using n by (intro numbered_of) simp
  moreover have "\<forall>pr \<in> set prs. pr_kind (fst pr) \<noteq> Void" using n by (metis in_set_conv_nth)
  ultimately show ?thesis using len packed_chained [OF pk] by (simp add: placed_def)
qed

lemma batch_at_intact:
  assumes b: "batch_at C tag (sg_image s) (PERSIST_START + at * RECORD_SIZE) e prs" and s: "segment_ok s"
    and st: "\<not> is_stale_in st (sg_first_batch s) (seq_of prs)" and at: "next_slot at prs \<le> slots_of s"
    and e: "start_of s \<le> e" "e + extent prs \<le> entry_end (sg_geometry s)"
  shows "intact C tag st s at e prs"
proof -
  have slot: "at + k < slots_of s" if "k < blocks_for (length prs) * RECORDS_PER_BLOCK" for k
    using that at by (simp add: next_slot_def)
  have inb: "k < blocks_for (length prs) * RECORDS_PER_BLOCK" if "k < length prs" for k
    using that blocks_for_bound [of "length prs"] by (simp add: RECORDS_PER_BLOCK_def BLOCK_def RECORD_SIZE_def)
  have "PERSIST_START + (at + k) * RECORD_SIZE = PERSIST_START + at * RECORD_SIZE + k * RECORD_SIZE" for k
    by (simp add: algebra_simps)
  note at_k = this
  have "record_reads C st s (at + k) (fst (prs ! k)) \<and> entry_reads C tag s (prs ! k)" if k: "k < length prs" for k
  proof
    have ok: "record_ok (fst (prs ! k))" using b k by (simp add: batch_at_def)
    show "record_reads C st s (at + k) (fst (prs ! k))"
      by (rule record_reads_bytes) (use s slot [OF inb [OF k]] b k ok st in \<open>simp_all add: batch_at_def at_k seq_of_def\<close>)
    obtain r payload where pr: "prs ! k = (r, payload)" by (cases "prs ! k")
    then show "entry_reads C tag s (prs ! k)"
      using packed_nth [of C tag "sg_image s" e prs k] b k e ok by (auto simp: batch_at_def intro: entry_reads_bytes)
  qed
  moreover have "slot_dead C st s (at + k)" if "length prs \<le> k" "k < blocks_for (length prs) * RECORDS_PER_BLOCK" for k
    by (rule slot_dead_zero) (use s slot that b in \<open>simp_all add: batch_at_def at_k\<close>)
  ultimately show ?thesis using batch_at_placed [OF b] by (simp add: intact_def)
qed

section \<open>The state of a journal between commits\<close>

text \<open>The batches in a segment's file, byte for byte, from slot \<open>at\<close> and entry \<open>e\<close> on.\<close>

fun history :: "crc_lib \<Rightarrow> u32 \<Rightarrow> stale \<Rightarrow> segment \<Rightarrow> u64 \<Rightarrow> nat \<Rightarrow> nat \<Rightarrow> (precord \<times> bytes) list list \<Rightarrow> bool" where
  "history C tag st s prev at e [] = True"
| "history C tag st s prev at e (b # bs) =
     (batch_at C tag (sg_image s) (PERSIST_START + at * RECORD_SIZE) e b \<and> follows st s (slots_of s) prev at b
      \<and> next_slot at b \<le> slots_of s \<and> e + extent b \<le> entry_end (sg_geometry s)
      \<and> history C tag st s (seq_of b) (next_slot at b) (align_up (e + extent b) BLOCK) bs)"

lemma BLOCK_pos [simp]: "0 < BLOCK" by (simp add: BLOCK_def)

lemma history_log_ok:
  "history C tag st s prev at e bs \<Longrightarrow> segment_ok s \<Longrightarrow> start_of s \<le> e \<Longrightarrow>
   log_ok C tag st s (slots_of s) prev at e bs"
proof (induction bs arbitrary: prev at e)
  case (Cons b bs)
  have "start_of s \<le> align_up (e + extent b) BLOCK"
    using Cons.prems(3) align_up_ge [of BLOCK "e + extent b"] by simp
  then have "log_ok C tag st s (slots_of s) (seq_of b) (next_slot at b) (align_up (e + extent b) BLOCK) bs"
    using Cons.prems by (intro Cons.IH) simp_all
  moreover have "intact C tag st s at e b"
    using Cons.prems by (intro batch_at_intact) (simp_all add: follows_def)
  ultimately show ?case using Cons.prems(1) by simp
qed simp

lemma log_slots_ge: "at \<le> log_slots at bs"
proof (induction bs arbitrary: at)
  case (Cons b bs)
  have "next_slot at b \<le> log_slots (next_slot at b) bs" by (rule Cons.IH)
  then show ?case by (simp add: next_slot_def)
qed simp

lemma log_entries_ge: "e \<le> log_entries e bs"
proof (induction bs arbitrary: e)
  case (Cons b bs)
  have "align_up (e + extent b) BLOCK \<le> log_entries (align_up (e + extent b) BLOCK) bs" by (rule Cons.IH)
  then show ?case using align_up_ge [of BLOCK "e + extent b"] by simp
qed simp

lemma history_append:
  "history C tag st s prev at e (bs @ [b]) \<longleftrightarrow>
   history C tag st s prev at e bs \<and> history C tag st s (log_last prev bs) (log_slots at bs) (log_entries e bs) [b]"
proof (induction bs arbitrary: prev at e)
  case Nil
  then show ?case by (simp add: log_last_def)
next
  case (Cons a bs)
  from Cons.IH [of "seq_of a" "next_slot at a" "align_up (e + extent a) BLOCK"] show ?case
    by (simp only: append_Cons history.simps log_last_Cons log_slots.simps log_entries.simps) blast
qed

lemma log_append:
  "log_slots at (bs @ [b]) = next_slot (log_slots at bs) b"
  "log_entries e (bs @ [b]) = align_up (log_entries e bs + extent b) BLOCK"
  "log_last prev (bs @ [b]) = seq_of b"
  "log_ops s at (bs @ [b]) = log_ops s at bs @ log_ops_at s (log_slots at bs) b"
  by (induction bs arbitrary: at e) (simp_all add: log_last_def)

text \<open>The batches in a file depend on no bytes but their own.\<close>

lemma bslice_cong_sub:
  assumes "bslice i m x = bslice i m y" "i \<le> j" "j + n \<le> i + m"
  shows "bslice j n x = bslice j n y"
proof -
  have "bslice (j - i) n (bslice i m x) = bslice (j - i) n (bslice i m y)" using assms(1) by simp
  then show ?thesis using assms(2,3) by (simp add: bslice_slice)
qed

lemma batch_at_cong:
  assumes b: "batch_at C tag img p e prs"
    and r: "bslice p (blocks_for (length prs) * BLOCK) img' = bslice p (blocks_for (length prs) * BLOCK) img"
    and x: "bslice e (extent prs) img' = bslice e (extent prs) img"
  shows "batch_at C tag img' p e prs"
proof -
  have slot: "bslice (p + k * RECORD_SIZE) RECORD_SIZE img' = bslice (p + k * RECORD_SIZE) RECORD_SIZE img"
    if "k < blocks_for (length prs) * RECORDS_PER_BLOCK" for k
  proof (rule bslice_cong_sub [OF r])
    have "Suc k * RECORD_SIZE \<le> blocks_for (length prs) * RECORDS_PER_BLOCK * RECORD_SIZE"
      using that by (intro mult_le_mono1) simp
    then show "p + k * RECORD_SIZE + RECORD_SIZE \<le> p + blocks_for (length prs) * BLOCK"
      by (simp add: RECORDS_PER_BLOCK_def BLOCK_def RECORD_SIZE_def)
  qed simp
  have inb: "k < blocks_for (length prs) * RECORDS_PER_BLOCK" if "k < length prs" for k
    using that blocks_for_bound [of "length prs"] by (simp add: RECORDS_PER_BLOCK_def BLOCK_def RECORD_SIZE_def)
  have "\<forall>i m. e \<le> i \<and> i + m \<le> e + extent prs \<longrightarrow> bslice i m img' = bslice i m img"
    using bslice_cong_sub [OF x] by blast
  then have pk: "packed C tag img' e prs" using b packed_prefix unfolding batch_at_def by blast
  show ?thesis unfolding batch_at_def
  proof (intro conjI allI impI pk)
    fix k assume k: "length prs \<le> k" "k < blocks_for (length prs) * RECORDS_PER_BLOCK"
    show "bslice (p + k * RECORD_SIZE) RECORD_SIZE img' = replicate RECORD_SIZE 0"
      using slot [OF k(2)] b k unfolding batch_at_def by metis
  next
    fix k assume k: "k < length prs"
    show "bslice (p + k * RECORD_SIZE) RECORD_SIZE img' = record_encode C (fst (prs ! k))"
      using slot [OF inb [OF k]] b k unfolding batch_at_def by metis
  qed (use b in \<open>simp_all add: batch_at_def\<close>)
qed

lemma history_cong:
  assumes "history C tag st s prev at e bs"
    "\<forall>i m. PERSIST_START + at * RECORD_SIZE \<le> i \<and> i + m \<le> PERSIST_START + log_slots at bs * RECORD_SIZE
       \<or> e \<le> i \<and> i + m \<le> log_entries e bs \<longrightarrow> bslice i m img' = bslice i m (sg_image s)"
    "length img' = length (sg_image s)"
  shows "history C tag st (s\<lparr>sg_image := img'\<rparr>) prev at e bs"
  using assms
proof (induction bs arbitrary: prev at e)
  case (Cons b bs)
  let ?at = "next_slot at b" and ?e = "align_up (e + extent b) BLOCK"
  have slots: "slots_of (s\<lparr>sg_image := img'\<rparr>) = slots_of s"
    using Cons.prems(3) by (simp add: slots_of_def read_persist_log_def)
  have same: "bslice i m img' = bslice i m (sg_image s)"
    if "PERSIST_START + at * RECORD_SIZE \<le> i \<and> i + m \<le> PERSIST_START + log_slots ?at bs * RECORD_SIZE
       \<or> e \<le> i \<and> i + m \<le> log_entries ?e bs" for i m
    using Cons.prems(2) that by auto
  have ends: "?at \<le> log_slots ?at bs" "?e \<le> log_entries ?e bs" "e + extent b \<le> ?e"
    using log_slots_ge log_entries_ge align_up_ge by simp_all
  have rpb: "?at * RECORD_SIZE = at * RECORD_SIZE + blocks_for (length b) * BLOCK"
    by (simp add: next_slot_def RECORDS_PER_BLOCK_def BLOCK_def RECORD_SIZE_def algebra_simps)
  have le: "?at * RECORD_SIZE \<le> log_slots ?at bs * RECORD_SIZE" using ends(1) by (rule mult_le_mono1)
  have "batch_at C tag img' (PERSIST_START + at * RECORD_SIZE) e b"
  proof (rule batch_at_cong)
    show "batch_at C tag (sg_image s) (PERSIST_START + at * RECORD_SIZE) e b" using Cons.prems(1) by simp
    show "bslice (PERSIST_START + at * RECORD_SIZE) (blocks_for (length b) * BLOCK) img' =
      bslice (PERSIST_START + at * RECORD_SIZE) (blocks_for (length b) * BLOCK) (sg_image s)"
      using le rpb by (intro same disjI1) simp
    show "bslice e (extent b) img' = bslice e (extent b) (sg_image s)"
      using ends by (intro same disjI2) simp
  qed
  moreover have "history C tag st (s\<lparr>sg_image := img'\<rparr>) (seq_of b) ?at ?e bs"
  proof (rule Cons.IH)
    show "history C tag st s (seq_of b) ?at ?e bs" using Cons.prems(1) by simp
    show "\<forall>i m. PERSIST_START + ?at * RECORD_SIZE \<le> i \<and> i + m \<le> PERSIST_START + log_slots ?at bs * RECORD_SIZE
       \<or> ?e \<le> i \<and> i + m \<le> log_entries ?e bs \<longrightarrow> bslice i m img' = bslice i m (sg_image s)"
      using ends rpb by (intro allI impI same) linarith
  qed (rule Cons.prems(3))
  ultimately show ?case using Cons.prems(1) slots by (simp add: follows_def)
qed simp

text \<open>
  Beyond the cursors a segment holds nothing the scan takes for a batch: zeros, or what an earlier life
  of the file or an earlier generation left, which is stale.
\<close>

definition blank :: "crc_lib \<Rightarrow> u32 \<Rightarrow> stale \<Rightarrow> segment \<Rightarrow> nat \<Rightarrow> nat \<Rightarrow> bool" where
  "blank C tag st s at e =
     ((\<forall>j \<ge> at. j < slots_of s \<longrightarrow> slot_dead C st s j)
      \<and> (\<forall>off \<ge> e. BLOCK dvd off \<longrightarrow>
           (case read_entry C s off tag of None \<Rightarrow> True
            | Some (h, _, _) \<Rightarrow> is_stale_in st (sg_first_batch s) (eh_batch h))))"

text \<open>An active segment between two commits, with the batches it holds.\<close>

definition at_rest :: "crc_lib \<Rightarrow> u32 \<Rightarrow> stale \<Rightarrow> u64 \<Rightarrow> segment \<Rightarrow> (precord \<times> bytes) list list \<Rightarrow> bool" where
  "at_rest C tag st prev s bs =
     (segment_ok s \<and> sg_prev_batch s = prev \<and> history C tag st s prev 0 (start_of s) bs
      \<and> sg_persist_next s = PERSIST_START + log_slots 0 bs * RECORD_SIZE
      \<and> sg_entry_next s = log_entries (start_of s) bs
      \<and> blank C tag st s (log_slots 0 bs) (log_entries (start_of s) bs))"

lemma blank_unwritten: "blank C tag st s at e \<Longrightarrow> unwritten C tag st s (slots_of s) seq at e"
  by (fastforce simp: blank_def unwritten_def split: option.splits)

lemma at_rest_closed:
  "at_rest C tag st prev s bs \<Longrightarrow> closed_ok C tag st prev [(s, bs)]"
  using blank_unwritten history_log_ok by (auto simp: at_rest_def)

lemma closed_append:
  "closed_ok C tag st prev (pre @ post) \<longleftrightarrow> closed_ok C tag st prev pre \<and> closed_ok C tag st (closed_last prev pre) post"
  "closed_ops (pre @ post) = closed_ops pre @ closed_ops post"
  "closed_last prev (pre @ post) = closed_last (closed_last prev pre) post"
  by (induction pre arbitrary: prev) (auto simp: log_last_def)

text \<open>Scanning a journal at rest gives back its batches, whole and in order.\<close>

lemma scan_at_rest:
  assumes "closed_ok C tag st prev pre" "pre \<noteq> []"
  shows "\<exists>out. scan C tag st (map fst pre) = Inr out \<and> sc_ops out = closed_ops pre \<and>
    sc_last_batch out = closed_last prev pre \<and> sc_corrupt out = [] \<and> sc_ambiguous out = [] \<and>
    sc_cursors out = map (snd \<circ> closed_scan) pre \<and> sc_voided out = 0 \<and> sc_rebuilt out = 0 \<and> sc_rewrite out = None"
proof -
  have hd: "(case map fst pre of [] \<Rightarrow> 0 | s # _ \<Rightarrow> sg_prev_batch s) = prev"
    using assms by (cases pre) auto
  show ?thesis
    using scan_structure_closed [OF assms(1), of "[]"] hd
      judge_segments_closed [OF assms(1), of "last_location (map closed_scan pre)" 0 "[]" "[]"]
    by (simp add: scan_def scan_empty_def)
qed

section \<open>A commit, and a crash inside it\<close>

definition segment_fits :: "segment \<Rightarrow> nat \<Rightarrow> nat \<Rightarrow> bool" where
  "segment_fits s blocks entry_bytes =
     (sg_persist_next s + blocks * BLOCK \<le> persist_end (sg_geometry s)
      \<and> sg_entry_next s + entry_bytes \<le> entry_end (sg_geometry s))"

lemma log_slot_cong:
  assumes "segment_ok s" "length img' = length (sg_image s)" "j < slots_of s"
    "bslice (PERSIST_START + j * RECORD_SIZE) RECORD_SIZE img' = bslice (PERSIST_START + j * RECORD_SIZE) RECORD_SIZE (sg_image s)"
  shows "log_slot C st (s\<lparr>sg_image := img'\<rparr>) j = log_slot C st s j"
proof -
  let ?s = "s\<lparr>sg_image := img'\<rparr>"
  have ok: "segment_ok ?s" "j < slots_of ?s" using assms by (simp_all add: segment_ok_def slots_of_def read_persist_log_def)
  define x where "x = bslice (PERSIST_START + j * RECORD_SIZE) RECORD_SIZE (sg_image s)"
  obtain r1 where r1: "drop (j * RECORD_SIZE) (read_persist_log s) = x @ r1"
    using log_bytes [OF assms(1,3)] x_def by blast
  obtain r2 where r2: "drop (j * RECORD_SIZE) (read_persist_log ?s) = x @ r2"
    using log_bytes [OF ok] assms(4) x_def by auto
  have "persist_end (sg_geometry s) \<le> length (sg_image s)" using assms(1) by (simp add: segment_ok_def geometry_defs)
  moreover have "(j + 1) * RECORD_SIZE \<le> persist_end (sg_geometry s) - PERSIST_START"
    using assms(3) slots_of_eq [OF assms(1)]
    by (simp add: geometry_defs RECORDS_PER_BLOCK_def BLOCK_def RECORD_SIZE_def)
  moreover have "PERSIST_START \<le> persist_end (sg_geometry s)" by (simp add: geometry_defs)
  ultimately have "length x = RECORD_SIZE" by (simp add: x_def RECORD_SIZE_def)
  then have "record_decode C (x @ r) = record_decode C x" for r by (simp add: record_decode_def bslice_def)
  then show ?thesis by (cases "record_decode C x") (simp_all add: log_slot_def r1 r2)
qed

lemma read_entry_cong:
  assumes "\<forall>i m. off \<le> i \<longrightarrow> bslice i m img' = bslice i m (sg_image s)"
  shows "read_entry C (s\<lparr>sg_image := img'\<rparr>) off tag = read_entry C s off tag"
proof -
  have "read_at (s\<lparr>sg_image := img'\<rparr>) off n = read_at s off n" for n using assms by (simp add: read_at_def)
  then show ?thesis by (auto simp: read_entry_def Let_def split: option.splits)
qed

text \<open>What the commit of \<open>b\<close> needs of the journal: it was checked, it is next, and it has room.\<close>

definition commit_ready ::
  "crc_lib \<Rightarrow> u32 \<Rightarrow> stale \<Rightarrow> u64 \<Rightarrow> segment \<Rightarrow> (precord \<times> bytes) list list \<Rightarrow> durability \<Rightarrow> u32 \<Rightarrow> batch \<Rightarrow> prepared \<Rightarrow> bool" where
  "commit_ready C tag st prev s bs d generation b pre =
     (let l = log_last prev bs; seq = next_seq generation l in
      at_rest C tag st prev s bs \<and> fits (sg_geometry s) b \<and> ids_ok (bt_writes b) \<and> bt_writes b \<noteq> []
      \<and> l < seq \<and> \<not> is_stale_in st (sg_first_batch s) seq
      \<and> prepare C (sg_geometry s) d tag generation l b = Inr pre
      \<and> segment_fits s (length (pp_records pre) div BLOCK) (length (pp_entries pre)))"

lemma align_up_add: "BLOCK dvd e \<Longrightarrow> align_up (e + n) BLOCK = e + align_up n BLOCK"
proof (elim dvdE)
  fix k assume "e = BLOCK * k"
  moreover have "(4096 * k + (n + 4095)) div 4096 = k + (n + 4095) div 4096" by (rule div_mult_self4) simp
  ultimately show ?thesis by (simp add: align_up_def BLOCK_def algebra_simps)
qed

text \<open>
  The batch \<open>prs\<close> laid out at the cursors of \<open>s\<close>: where it goes, what the writes put there, and that it
  has room.
\<close>

definition laid_out ::
  "crc_lib \<Rightarrow> u32 \<Rightarrow> stale \<Rightarrow> u64 \<Rightarrow> segment \<Rightarrow> (precord \<times> bytes) list list \<Rightarrow> prepared \<Rightarrow> (precord \<times> bytes) list \<Rightarrow> bool" where
  "laid_out C tag st prev s bs post prs =
     (let at = log_slots 0 bs; p = PERSIST_START + at * RECORD_SIZE; e = log_entries (start_of s) bs;
          w = write_batch post (sg_image s) in
      at_rest C tag st prev s bs \<and> pp_persist_at post = p \<and> pp_entry_at post = e \<and> pp_decoded post = map fst prs
      \<and> pp_seq post = seq_of prs \<and> batch_at C tag w p e prs \<and> length w = length (sg_image s)
      \<and> (\<forall>i m. i + m \<le> p \<or> p + length (pp_records post) \<le> i \<and> i + m \<le> e \<or> e + length (pp_entries post) \<le> i
           \<longrightarrow> bslice i m w = bslice i m (sg_image s))
      \<and> length (pp_records post) = blocks_for (length prs) * BLOCK \<and> length (pp_entries post) = align_up (extent prs) BLOCK
      \<and> follows st s (slots_of s) (log_last prev bs) at prs \<and> p + length (pp_records post) \<le> persist_end (sg_geometry s)
      \<and> e + length (pp_entries post) \<le> entry_end (sg_geometry s))"

lemma log_slots_dvd: "RECORDS_PER_BLOCK dvd n \<Longrightarrow> RECORDS_PER_BLOCK dvd log_slots n bs"
  by (induction bs arbitrary: n) (simp_all add: next_slot_def)

lemma next_slot_bytes: "next_slot at prs * RECORD_SIZE = at * RECORD_SIZE + blocks_for (length prs) * BLOCK"
  by (simp add: next_slot_def RECORDS_PER_BLOCK_def BLOCK_def RECORD_SIZE_def algebra_simps)

lemma slots_bytes: "segment_ok s \<Longrightarrow> PERSIST_START + slots_of s * RECORD_SIZE = persist_end (sg_geometry s)"
  by (simp add: slots_of_eq geometry_defs RECORDS_PER_BLOCK_def BLOCK_def RECORD_SIZE_def)

lemma length_le_slots: "n \<le> blocks_for n * RECORDS_PER_BLOCK"
  using blocks_for_bound [of n] by (simp add: RECORDS_PER_BLOCK_def BLOCK_def RECORD_SIZE_def)

lemma commit_placed:
  assumes r: "commit_ready C tag st prev s bs d generation b pre"
  defines "p \<equiv> PERSIST_START + log_slots 0 bs * RECORD_SIZE" and "e \<equiv> log_entries (start_of s) bs"
  obtains post prs where "place C (sg_persist_next s) (sg_entry_next s) pre = Inr post"
    "batch_at C tag (write_batch post (sg_image s)) p e prs"
    "length (write_batch post (sg_image s)) = length (sg_image s)"
    "\<forall>i m. i + m \<le> p \<or> p + blocks_for (length (bt_writes b)) * BLOCK \<le> i \<and> i + m \<le> e \<or> e + length (pp_entries pre) \<le> i \<longrightarrow>
       bslice i m (write_batch post (sg_image s)) = bslice i m (sg_image s)"
    "records_for (flags_of d) (of_nat (length (bt_writes b))) (next_seq generation (log_last prev bs)) 0 (bt_writes b) (map fst prs)"
    "length prs = length (bt_writes b)" "length (pp_entries pre) = align_up (extent prs) BLOCK"
    "pp_decoded post = map fst prs" "map snd prs = map payload_of (bt_writes b)"
    "length (pp_records post) = blocks_for (length (bt_writes b)) * BLOCK"
    "pp_seq pre = next_seq generation (log_last prev bs)"
    "p + blocks_for (length (bt_writes b)) * BLOCK \<le> persist_end (sg_geometry s)"
    "e + length (pp_entries pre) \<le> entry_end (sg_geometry s)"
proof -
  let ?ws = "bt_writes b" and ?g = "sg_geometry s" and ?l = "log_last prev bs"
  have fit: "fits ?g b" and ids: "ids_ok ?ws" and ne: "?ws \<noteq> []" and seq: "?l < next_seq generation ?l"
    and pre: "prepare C ?g d tag generation ?l b = Inr pre"
    and room: "segment_fits s (length (pp_records pre) div BLOCK) (length (pp_entries pre))"
    using r by (auto simp: commit_ready_def Let_def)
  have cur: "sg_persist_next s = p" "sg_entry_next s = e" and ok: "segment_ok s"
    using r by (simp_all add: commit_ready_def Let_def at_rest_def p_def e_def)
  have valid: "is_valid ?g" and len: "length (sg_image s) = total_blocks ?g * BLOCK" using ok by (simp_all add: segment_ok_def)
  have recs: "length (pp_records pre) = blocks_for (length ?ws) * BLOCK" "pp_seq pre = next_seq generation ?l"
    using prepare_ok [OF fit valid ids seq, of C d tag] pre by (metis Inr_inject length_replicate)+
  have pb: "p + blocks_for (length ?ws) * BLOCK \<le> persist_end ?g" using room cur recs by (simp add: segment_fits_def)
  have "start_of s \<le> e" unfolding e_def by (rule log_entries_ge)
  then have pe: "p + blocks_for (length ?ws) * BLOCK \<le> e" using pb by (simp add: start_of_def geometry_defs)
  have edvd: "BLOCK dvd e" unfolding e_def by (rule log_entries_dvd [OF start_of_dvd])
  have "RECORDS_PER_BLOCK * RECORD_SIZE dvd log_slots 0 bs * RECORD_SIZE" by (intro mult_dvd_mono log_slots_dvd) simp_all
  then have pdvd: "BLOCK dvd p" by (simp add: p_def PERSIST_START_def RECORDS_PER_BLOCK_def BLOCK_def RECORD_SIZE_def)
  have full: "e + length (pp_entries pre) \<le> entry_end ?g" using room cur by (simp add: segment_fits_def)
  show thesis
    apply (rule committed_batch [OF fit valid ids seq ne len pdvd pe edvd, of C d tag])
    subgoal premises q for pre' post prs
      by (rule that [of post prs]) (use q full len pre cur recs pb in \<open>simp_all add: entry_end_total\<close>)
    done
qed

lemma commit_laid_out:
  assumes r: "commit_ready C tag st prev s bs d generation b pre"
    and place: "place C (sg_persist_next s) (sg_entry_next s) pre = Inr post"
  defines "prs \<equiv> zip (pp_decoded post) (map payload_of (bt_writes b))"
  shows "laid_out C tag st prev s bs post prs"
    and "records_for (flags_of d) (of_nat (length (bt_writes b))) (next_seq generation (log_last prev bs)) 0 (bt_writes b) (map fst prs)"
    and "map snd prs = map payload_of (bt_writes b)" and "length prs = length (bt_writes b)"
    and "seq_of prs = next_seq generation (log_last prev bs)"
proof -
  let ?ws = "bt_writes b" and ?l = "log_last prev bs" and ?at = "log_slots 0 bs" and ?e = "log_entries (start_of s) bs"
  let ?p = "PERSIST_START + ?at * RECORD_SIZE"
  have rest: "at_rest C tag st prev s bs" and ne: "?ws \<noteq> []"
    and seq: "?l < next_seq generation ?l" "\<not> is_stale_in st (sg_first_batch s) (next_seq generation ?l)"
    using r by (auto simp: commit_ready_def Let_def)
  then have cur: "sg_persist_next s = ?p" "sg_entry_next s = ?e" and ok: "segment_ok s" by (simp_all add: at_rest_def)
  obtain post' prs' where c: "place C (sg_persist_next s) (sg_entry_next s) pre = Inr post'"
    "batch_at C tag (write_batch post' (sg_image s)) ?p ?e prs'"
    "length (write_batch post' (sg_image s)) = length (sg_image s)"
    "\<forall>i m. i + m \<le> ?p \<or> ?p + blocks_for (length ?ws) * BLOCK \<le> i \<and> i + m \<le> ?e \<or> ?e + length (pp_entries pre) \<le> i \<longrightarrow>
       bslice i m (write_batch post' (sg_image s)) = bslice i m (sg_image s)"
    "records_for (flags_of d) (of_nat (length ?ws)) (next_seq generation ?l) 0 ?ws (map fst prs')"
    "length prs' = length ?ws" "length (pp_entries pre) = align_up (extent prs') BLOCK"
    "pp_decoded post' = map fst prs'" "map snd prs' = map payload_of ?ws"
    "length (pp_records post') = blocks_for (length ?ws) * BLOCK" "pp_seq pre = next_seq generation ?l"
    "?p + blocks_for (length ?ws) * BLOCK \<le> persist_end (sg_geometry s)"
    "?e + length (pp_entries pre) \<le> entry_end (sg_geometry s)"
    by (rule commit_placed [OF r]) blast
  have eq: "post' = post" using c(1) place by simp
  then have prs: "prs' = prs" using c(8,9) by (metis prs_def zip_map_fst_snd)
  have po: "pp_persist_at post = ?p" "pp_entry_at post = ?e" "pp_entries post = pp_entries pre" "pp_seq post = pp_seq pre"
    using place cur by (auto simp: place_def Let_def split: if_splits)
  show hd: "seq_of prs = next_seq generation ?l"
    using records_for_nth [OF c(5), of 0] c(6) ne prs by (cases prs) (simp_all add: seq_of_def)
  have "next_slot ?at prs * RECORD_SIZE \<le> slots_of s * RECORD_SIZE"
    using c(12) next_slot_bytes [of ?at prs] slots_bytes [OF ok] c(6) prs by simp
  then have fo: "follows st s (slots_of s) ?l ?at prs"
    using seq hd length_le_slots [of "length prs"] by (simp add: follows_def next_slot_def RECORD_SIZE_def)
  show "laid_out C tag st prev s bs post prs"
    unfolding laid_out_def Let_def
    by (intro conjI) (use rest po hd c eq prs fo in simp_all)
  show "records_for (flags_of d) (of_nat (length ?ws)) (next_seq generation ?l) 0 ?ws (map fst prs)"
    "map snd prs = map payload_of ?ws" "length prs = length ?ws" using c(5,6,9) prs by simp_all
qed

lemma laid_out_entries: "laid_out C tag st prev s bs post prs \<Longrightarrow> length (pp_entries post) = align_up (extent prs) BLOCK"
  by (simp add: laid_out_def Let_def)

lemma laid_out_facts:
  assumes "laid_out C tag st prev s bs post prs"
  shows "next_slot (log_slots 0 bs) prs \<le> slots_of s" "segment_ok s"
    "pp_persist_at post + length (pp_records post) \<le> start_of s" "start_of s \<le> pp_entry_at post"
    "pp_entry_at post + extent prs \<le> entry_end (sg_geometry s)" "pp_persist_at post \<le> pp_entry_at post"
    "align_up (pp_entry_at post + extent prs) BLOCK = pp_entry_at post + length (pp_entries post)"
proof -
  let ?at = "log_slots 0 bs"
  show ok: "segment_ok s" using assms by (simp add: laid_out_def at_rest_def Let_def)
  have "next_slot ?at prs * RECORD_SIZE \<le> slots_of s * RECORD_SIZE"
    using assms next_slot_bytes [of ?at prs] slots_bytes [OF ok] by (simp add: laid_out_def Let_def)
  then show "next_slot ?at prs \<le> slots_of s" by (simp add: RECORD_SIZE_def)
  show st: "pp_persist_at post + length (pp_records post) \<le> start_of s"
    using assms by (simp add: laid_out_def Let_def start_of_def entry_start_def)
  show se: "start_of s \<le> pp_entry_at post" using assms log_entries_ge by (simp add: laid_out_def Let_def)
  show "pp_persist_at post \<le> pp_entry_at post" using st se by linarith
  have "extent prs \<le> align_up (extent prs) BLOCK" by (simp add: align_up_ge)
  then show "pp_entry_at post + extent prs \<le> entry_end (sg_geometry s)" using assms by (simp add: laid_out_def Let_def)
  show "align_up (pp_entry_at post + extent prs) BLOCK = pp_entry_at post + length (pp_entries post)"
    using assms align_up_add [OF log_entries_dvd [OF start_of_dvd]] by (simp add: laid_out_def Let_def)
qed

text \<open>The segment after the two writes of a commit, its cursors advanced.\<close>

definition advance :: "prepared \<Rightarrow> segment \<Rightarrow> segment" where
  "advance post s =
     s\<lparr>sg_image := write_batch post (sg_image s),
       sg_persist_next := pp_persist_at post + length (pp_records post),
       sg_entry_next := pp_entry_at post + length (pp_entries post)\<rparr>"

lemma reads_of_image:
  "slots_of (s\<lparr>sg_image := img, sg_persist_next := x, sg_entry_next := y\<rparr>) = slots_of (s\<lparr>sg_image := img\<rparr>)"
  "start_of (s\<lparr>sg_image := img, sg_persist_next := x, sg_entry_next := y\<rparr>) = start_of s"
  "log_slot C st (s\<lparr>sg_image := img, sg_persist_next := x, sg_entry_next := y\<rparr>) = log_slot C st (s\<lparr>sg_image := img\<rparr>)"
  "read_entry C (s\<lparr>sg_image := img, sg_persist_next := x, sg_entry_next := y\<rparr>) = read_entry C (s\<lparr>sg_image := img\<rparr>)"
  "segment_ok (s\<lparr>sg_image := img, sg_persist_next := x, sg_entry_next := y\<rparr>) = segment_ok (s\<lparr>sg_image := img\<rparr>)"
  by (auto simp: slots_of_def start_of_def log_slot_def read_entry_def read_persist_log_def read_at_def segment_ok_def fun_eq_iff
    Let_def split: option.splits pslot.splits)

lemma history_of_image:
  "history C tag st (s\<lparr>sg_image := img, sg_persist_next := x, sg_entry_next := y\<rparr>) prev at e bs =
   history C tag st (s\<lparr>sg_image := img\<rparr>) prev at e bs"
  by (induction bs arbitrary: prev at e) (simp_all add: reads_of_image follows_def)

lemma blank_of_cursors:
  "blank C tag st (s\<lparr>sg_image := img, sg_persist_next := x, sg_entry_next := y\<rparr>) at e = blank C tag st (s\<lparr>sg_image := img\<rparr>) at e"
  by (simp add: blank_def slot_dead_def reads_of_image cong: option.case_cong)

lemma blank_of_image:
  assumes b: "blank C tag st s at e" and ok: "segment_ok s" and len: "length img = length (sg_image s)"
    and slots: "\<forall>i m. PERSIST_START + at' * RECORD_SIZE \<le> i \<and> i + m \<le> persist_end (sg_geometry s) \<longrightarrow>
       bslice i m img = bslice i m (sg_image s)"
    and entries: "\<forall>i m. e' \<le> i \<longrightarrow> bslice i m img = bslice i m (sg_image s)"
    and le: "at \<le> at'" "e \<le> e'"
  shows "blank C tag st (s\<lparr>sg_image := img\<rparr>) at' e'"
proof -
  let ?s = "s\<lparr>sg_image := img\<rparr>"
  have ns: "slots_of ?s = slots_of s" using len by (simp add: slots_of_def read_persist_log_def)
  have "slot_dead C st ?s j" if j: "at' \<le> j" "j < slots_of s" for j
  proof -
    have "(j + 1) * RECORD_SIZE \<le> persist_end (sg_geometry s) - PERSIST_START"
      using j slots_of_eq [OF ok] by (simp add: geometry_defs RECORDS_PER_BLOCK_def BLOCK_def RECORD_SIZE_def)
    moreover have "at' * RECORD_SIZE \<le> j * RECORD_SIZE" using j(1) by (rule mult_le_mono1)
    moreover have "PERSIST_START \<le> persist_end (sg_geometry s)" by (simp add: geometry_defs)
    ultimately have "bslice (PERSIST_START + j * RECORD_SIZE) RECORD_SIZE img = bslice (PERSIST_START + j * RECORD_SIZE) RECORD_SIZE (sg_image s)"
      using slots by (simp add: algebra_simps)
    then have "log_slot C st ?s j = log_slot C st s j" using ok len j(2) by (intro log_slot_cong) simp_all
    then show ?thesis using b j le by (simp add: blank_def slot_dead_def)
  qed
  moreover have "read_entry C ?s off tag = read_entry C s off tag" if "e' \<le> off" for off
    using entries that by (intro read_entry_cong) simp
  ultimately show ?thesis using b le ns by (auto simp: blank_def split: option.splits)
qed

text \<open>Bytes that agree with a segment's outside the extents of a laid-out batch keep what it held.\<close>

lemma laid_out_frame:
  assumes lo: "laid_out C tag st prev s bs post prs" and len: "length img = length (sg_image s)"
    and same: "\<forall>i m. i + m \<le> pp_persist_at post \<or> pp_persist_at post + length (pp_records post) \<le> i \<and> i + m \<le> pp_entry_at post
        \<or> pp_entry_at post + length (pp_entries post) \<le> i \<longrightarrow> bslice i m img = bslice i m (sg_image s)"
  shows "history C tag st (s\<lparr>sg_image := img\<rparr>) prev 0 (start_of s) bs"
    and "blank C tag st (s\<lparr>sg_image := img\<rparr>) (next_slot (log_slots 0 bs) prs) (pp_entry_at post + length (pp_entries post))"
proof -
  let ?at = "log_slots 0 bs" and ?e = "log_entries (start_of s) bs"
  note f = laid_out_facts [OF lo]
  have at: "pp_persist_at post = PERSIST_START + ?at * RECORD_SIZE" "pp_entry_at post = ?e"
    "length (pp_records post) = blocks_for (length prs) * BLOCK" and rest: "at_rest C tag st prev s bs"
    using lo by (simp_all add: laid_out_def Let_def)
  show "history C tag st (s\<lparr>sg_image := img\<rparr>) prev 0 (start_of s) bs"
  proof (rule history_cong [OF _ _ len])
    show "history C tag st s prev 0 (start_of s) bs" using rest by (simp add: at_rest_def)
    show "\<forall>i m. PERSIST_START + 0 * RECORD_SIZE \<le> i \<and> i + m \<le> PERSIST_START + ?at * RECORD_SIZE
       \<or> start_of s \<le> i \<and> i + m \<le> ?e \<longrightarrow> bslice i m img = bslice i m (sg_image s)"
      using same f(3) at by (intro allI impI) (metis le_trans)
  qed
  show "blank C tag st (s\<lparr>sg_image := img\<rparr>) (next_slot ?at prs) (pp_entry_at post + length (pp_entries post))"
  proof (rule blank_of_image [OF _ f(2) len])
    show "blank C tag st s ?at ?e" using rest by (simp add: at_rest_def)
    show "\<forall>i m. PERSIST_START + next_slot ?at prs * RECORD_SIZE \<le> i \<and> i + m \<le> persist_end (sg_geometry s) \<longrightarrow>
       bslice i m img = bslice i m (sg_image s)"
      using same f(4) at next_slot_bytes [of ?at prs] by (simp add: start_of_def entry_start_def add.assoc)
    show "\<forall>i m. pp_entry_at post + length (pp_entries post) \<le> i \<longrightarrow> bslice i m img = bslice i m (sg_image s)"
      using same by blast
  qed (simp_all add: next_slot_def at)
qed

text \<open>A commit that completes leaves the journal at rest with one batch more.\<close>

lemma commit_at_rest:
  assumes lo: "laid_out C tag st prev s bs post prs"
  shows "at_rest C tag st prev (advance post s) (bs @ [prs])"
proof -
  let ?at = "log_slots 0 bs" and ?e = "log_entries (start_of s) bs" and ?img = "write_batch post (sg_image s)"
  let ?s = "s\<lparr>sg_image := ?img\<rparr>"
  have w: "batch_at C tag ?img (PERSIST_START + ?at * RECORD_SIZE) ?e prs" "length ?img = length (sg_image s)"
    and at: "pp_persist_at post = PERSIST_START + ?at * RECORD_SIZE" "pp_entry_at post = ?e"
    "length (pp_records post) = blocks_for (length prs) * BLOCK" and rest: "at_rest C tag st prev s bs"
    and fo: "follows st s (slots_of s) (log_last prev bs) ?at prs"
    and same: "\<forall>i m. i + m \<le> pp_persist_at post \<or> pp_persist_at post + length (pp_records post) \<le> i \<and> i + m \<le> pp_entry_at post
        \<or> pp_entry_at post + length (pp_entries post) \<le> i \<longrightarrow> bslice i m ?img = bslice i m (sg_image s)"
    using lo unfolding laid_out_def Let_def by simp_all
  note f = laid_out_facts [OF lo]
  have ns: "slots_of ?s = slots_of s" using w(2) by (simp add: slots_of_def read_persist_log_def)
  have "history C tag st ?s (log_last prev bs) ?at ?e [prs]"
    using w f fo ns at by (simp add: follows_def)
  then have hist: "history C tag st ?s prev 0 (start_of s) (bs @ [prs])"
    using laid_out_frame(1) [OF lo w(2) same] by (simp add: history_append)
  show ?thesis
    using laid_out_frame(2) [OF lo w(2) same] hist rest w(2) f(7) at next_slot_bytes [of ?at prs]
    by (simp add: at_rest_def advance_def reads_of_image history_of_image blank_of_cursors log_append segment_ok_def)
qed

text \<open>
  A crash during the commit: outside the two extents nothing changed; each slot of the persist extent and
  each entry holds what the commit wrote or does not read, which is what the checksums are for; and no
  bytes the crash left at a block of the entry log read as an entry of a batch that was never written.
\<close>

definition crash_leaves :: "crc_lib \<Rightarrow> u32 \<Rightarrow> stale \<Rightarrow> segment \<Rightarrow> nat \<Rightarrow> prepared \<Rightarrow> bytes \<Rightarrow> bool" where
  "crash_leaves C tag st s at post img =
     (let s' = s\<lparr>sg_image := img\<rparr> in
      length img = length (sg_image s)
      \<and> (\<forall>i m. i + m \<le> pp_persist_at post
           \<or> pp_persist_at post + length (pp_records post) \<le> i \<and> i + m \<le> pp_entry_at post
           \<or> pp_entry_at post + length (pp_entries post) \<le> i \<longrightarrow> bslice i m img = bslice i m (sg_image s))
      \<and> (\<forall>k < length (pp_records post) div RECORD_SIZE.
           bslice (pp_persist_at post + k * RECORD_SIZE) RECORD_SIZE img = bslice (k * RECORD_SIZE) RECORD_SIZE (pp_records post)
           \<or> slot_dead C st s' (at + k))
      \<and> (\<forall>r \<in> set (pp_decoded post).
           bslice (unat (pr_offset r)) (RECORD_SIZE + unat (pr_len r)) img
             = bslice (unat (pr_offset r)) (RECORD_SIZE + unat (pr_len r)) (write_batch post (sg_image s))
           \<or> entry_dead C tag s' (r, []))
      \<and> (\<forall>off \<ge> pp_entry_at post. BLOCK dvd off \<longrightarrow>
           (case read_entry C s' off tag of None \<Rightarrow> True
            | Some (h, _, _) \<Rightarrow> eh_batch h \<le> pp_seq post \<or> is_stale_in st (sg_first_batch s) (eh_batch h))))"

lemma entry_dead_fst: "entry_dead C tag s (r, p) = entry_dead C tag s (r, [])"
  by (simp add: entry_dead_def)

lemma written_slot:
  assumes lo: "laid_out C tag st prev s bs post prs" and k: "k < blocks_for (length prs) * RECORDS_PER_BLOCK"
  shows "k < length (pp_records post) div RECORD_SIZE"
    and "bslice (pp_persist_at post + k * RECORD_SIZE) RECORD_SIZE (write_batch post (sg_image s))
      = bslice (k * RECORD_SIZE) RECORD_SIZE (pp_records post)"
proof -
  note f = laid_out_facts [OF lo]
  have recs: "length (pp_records post) = blocks_for (length prs) * BLOCK"
    and ee: "pp_entry_at post + length (pp_entries post) \<le> length (sg_image s)"
    using lo f(2) by (simp_all add: laid_out_def Let_def segment_ok_def entry_end_total)
  have le: "k * RECORD_SIZE + RECORD_SIZE \<le> length (pp_records post)"
    using mult_le_mono1 [of "Suc k" "blocks_for (length prs) * RECORDS_PER_BLOCK" RECORD_SIZE] k recs
    by (simp add: RECORDS_PER_BLOCK_def BLOCK_def RECORD_SIZE_def)
  then show "k < length (pp_records post) div RECORD_SIZE" by (simp add: RECORD_SIZE_def)
  show "bslice (pp_persist_at post + k * RECORD_SIZE) RECORD_SIZE (write_batch post (sg_image s))
      = bslice (k * RECORD_SIZE) RECORD_SIZE (pp_records post)"
    using le ee f(3,4) by (simp add: write_batch_def bslice_put_at_inside)
qed

lemma crash_records:
  assumes lo: "laid_out C tag st prev s bs post prs" and x: "crash_leaves C tag st s (log_slots 0 bs) post img"
  defines "at \<equiv> log_slots 0 bs" and "s' \<equiv> s\<lparr>sg_image := img\<rparr>"
  shows "k < length prs \<Longrightarrow> record_reads C st s' (at + k) (fst (prs ! k)) \<or> slot_dead C st s' (at + k)"
    and "length prs \<le> k \<Longrightarrow> k < blocks_for (length prs) * RECORDS_PER_BLOCK \<Longrightarrow> slot_dead C st s' (at + k)"
proof -
  note f = laid_out_facts [OF lo]
  let ?w = "write_batch post (sg_image s)"
  have p: "pp_persist_at post = PERSIST_START + at * RECORD_SIZE" and w: "batch_at C tag ?w (pp_persist_at post) (pp_entry_at post) prs"
    and fo: "\<not> is_stale_in st (sg_first_batch s) (seq_of prs)"
    using lo by (simp_all add: laid_out_def Let_def at_def follows_def)
  have len: "length img = length (sg_image s)" using x by (simp add: crash_leaves_def Let_def)
  have s': "segment_ok s'" "slots_of s' = slots_of s" "sg_image s' = img" "sg_first_batch s' = sg_first_batch s"
    using f(2) len by (simp_all add: s'_def segment_ok_def slots_of_def read_persist_log_def)
  have at_k: "PERSIST_START + (at + k) * RECORD_SIZE = pp_persist_at post + k * RECORD_SIZE" for k by (simp add: p algebra_simps)
  have slot: "at + k < slots_of s'" if "k < blocks_for (length prs) * RECORDS_PER_BLOCK" for k
    using that f(1) s' by (simp add: next_slot_def at_def)
  have new: "bslice (PERSIST_START + (at + k) * RECORD_SIZE) RECORD_SIZE img = bslice (pp_persist_at post + k * RECORD_SIZE) RECORD_SIZE ?w"
    if "k < blocks_for (length prs) * RECORDS_PER_BLOCK" "\<not> slot_dead C st s' (at + k)" for k
  proof -
    have "\<forall>k < length (pp_records post) div RECORD_SIZE.
        bslice (pp_persist_at post + k * RECORD_SIZE) RECORD_SIZE img = bslice (k * RECORD_SIZE) RECORD_SIZE (pp_records post)
        \<or> slot_dead C st s' (at + k)"
      using x by (simp add: crash_leaves_def Let_def s'_def at_def)
    then show ?thesis using written_slot [OF lo that(1)] that(2) at_k by auto
  qed
  show "record_reads C st s' (at + k) (fst (prs ! k)) \<or> slot_dead C st s' (at + k)" if k: "k < length prs"
  proof (rule disjCI)
    assume "\<not> slot_dead C st s' (at + k)"
    moreover have inb: "k < blocks_for (length prs) * RECORDS_PER_BLOCK" using k length_le_slots [of "length prs"] by linarith
    ultimately have "bslice (PERSIST_START + (at + k) * RECORD_SIZE) RECORD_SIZE (sg_image s') = record_encode C (fst (prs ! k))"
      using new w k s' by (simp add: batch_at_def)
    then show "record_reads C st s' (at + k) (fst (prs ! k))"
      using w k s' slot [OF inb] fo by (intro record_reads_bytes) (simp_all add: batch_at_def seq_of_def)
  qed
  show "slot_dead C st s' (at + k)" if k: "length prs \<le> k" "k < blocks_for (length prs) * RECORDS_PER_BLOCK"
  proof (rule ccontr)
    assume n: "\<not> slot_dead C st s' (at + k)"
    then have "bslice (PERSIST_START + (at + k) * RECORD_SIZE) RECORD_SIZE (sg_image s') = replicate RECORD_SIZE 0"
      using new k w s' by (simp add: batch_at_def)
    then show False using n s' slot [OF k(2)] slot_dead_zero by blast
  qed
qed

lemma crash_entries:
  assumes lo: "laid_out C tag st prev s bs post prs" and x: "crash_leaves C tag st s at post img" and k: "k < length prs"
  shows "entry_reads C tag (s\<lparr>sg_image := img\<rparr>) (prs ! k) \<or> entry_dead C tag (s\<lparr>sg_image := img\<rparr>) (prs ! k)"
proof -
  note f = laid_out_facts [OF lo]
  let ?w = "write_batch post (sg_image s)" and ?s = "s\<lparr>sg_image := img\<rparr>"
  have w: "batch_at C tag ?w (pp_persist_at post) (pp_entry_at post) prs" and dec: "pp_decoded post = map fst prs"
    using lo by (simp_all add: laid_out_def Let_def)
  obtain r pl where pr: "prs ! k = (r, pl)" by (cases "prs ! k")
  then have "r \<in> set (pp_decoded post)" using nth_mem [OF k] dec by (metis fst_conv image_eqI list.set_map)
  then consider "entry_dead C tag ?s (prs ! k)"
    | "bslice (unat (pr_offset r)) (RECORD_SIZE + unat (pr_len r)) img = bslice (unat (pr_offset r)) (RECORD_SIZE + unat (pr_len r)) ?w"
    using x pr entry_dead_fst [of C tag ?s r pl] by (auto simp: crash_leaves_def Let_def)
  then show ?thesis
  proof cases
    case 2
    have "record_ok r" "packed C tag ?w (pp_entry_at post) prs" using w k pr by (auto simp: batch_at_def)
    then show ?thesis using packed_nth [of C tag ?w "pp_entry_at post" prs k] k pr 2 f(4,5)
      by (auto intro!: disjI1 entry_reads_bytes simp: start_of_def)
  qed simp
qed

lemma crash_torn:
  assumes lo: "laid_out C tag st prev s bs post prs" and x: "crash_leaves C tag st s (log_slots 0 bs) post img"
  shows "active_ok C tag st prev (s\<lparr>sg_image := img\<rparr>) bs prs"
proof -
  let ?at = "log_slots 0 bs" and ?e = "log_entries (start_of s) bs" and ?s = "s\<lparr>sg_image := img\<rparr>"
  note f = laid_out_facts [OF lo]
  have len: "length img = length (sg_image s)"
    and same: "\<forall>i m. i + m \<le> pp_persist_at post \<or> pp_persist_at post + length (pp_records post) \<le> i \<and> i + m \<le> pp_entry_at post
        \<or> pp_entry_at post + length (pp_entries post) \<le> i \<longrightarrow> bslice i m img = bslice i m (sg_image s)"
    using x unfolding crash_leaves_def Let_def by blast+
  have w: "batch_at C tag (write_batch post (sg_image s)) (pp_persist_at post) ?e prs" and e: "pp_entry_at post = ?e"
    and fo: "follows st s (slots_of s) (log_last prev bs) ?at prs" and rest: "at_rest C tag st prev s bs"
    and seq: "pp_seq post = seq_of prs"
    using lo by (simp_all add: laid_out_def Let_def)
  have s': "segment_ok ?s" "slots_of ?s = slots_of s" "start_of ?s = start_of s"
    using f(2) len by (simp_all add: segment_ok_def slots_of_def read_persist_log_def start_of_def)
  have "torn C tag st ?s ?at ?e prs"
    using crash_records [OF lo x] crash_entries [OF lo x] batch_at_placed [OF w] by (simp add: torn_def)
  moreover have "unwritten C tag st ?s (slots_of ?s) (seq_of prs) (next_slot ?at prs) ?e"
  proof -
    have "\<forall>off \<ge> ?e. BLOCK dvd off \<longrightarrow> (case read_entry C ?s off tag of None \<Rightarrow> True
        | Some (h, _, _) \<Rightarrow> eh_batch h \<le> seq_of prs \<or> is_stale_in st (sg_first_batch s) (eh_batch h))"
      using x unfolding crash_leaves_def Let_def e seq by blast
    then show ?thesis using laid_out_frame(2) [OF lo len same]
      by (simp add: unwritten_def blank_def cong: option.case_cong)
  qed
  ultimately show ?thesis
    using history_log_ok [OF laid_out_frame(1) [OF lo len same] s'(1)] s' fo rest
    by (simp add: active_ok_def torn_tail_def at_rest_def follows_def)
qed

section \<open>Writes and the operations they become\<close>

fun op_is :: "jwrite \<Rightarrow> jop \<Rightarrow> bool" where
  "op_is (WPut p i payload) (JPut q at) = (q = p \<and> lo_id at = i \<and> unat (lo_len at) = length payload)"
| "op_is (WClear a z) (JClear a' z') = (a' = a \<and> z' = z)"
| "op_is _ _ = False"

lemma op_is_settle [simp]: "op_is w (settle op) = op_is w op"
  by (cases w; cases op) simp_all

lemma batch_ops_writes:
  "records_for f c seq k ws (map fst prs) \<Longrightarrow> map snd prs = map payload_of ws \<Longrightarrow>
   \<forall>pr \<in> set prs. unat (pr_len (fst pr)) = length (snd pr) \<Longrightarrow>
   list_all2 op_is ws (batch_ops s b k prs)"
proof (induction prs arbitrary: ws k)
  case Nil
  then show ?case by (cases ws) simp_all
next
  case (Cons pr prs)
  obtain r payload where pr: "pr = (r, payload)" by (cases pr)
  obtain w ws' where ws: "ws = w # ws'" using Cons.prems(2) by (cases ws) auto
  have "list_all2 op_is ws' (batch_ops s b (Suc k) prs)" using Cons.prems ws by (intro Cons.IH) simp_all
  then show ?case using Cons.prems ws pr clear_end_clear_id [of r]
    by (cases w) (auto simp: op_of_def located_of_def)
qed

lemma list_all2_subseq:
  "subseq ys' ys \<Longrightarrow> list_all2 R xs ys \<Longrightarrow> \<exists>xs'. subseq xs' xs \<and> list_all2 R xs' ys'"
proof (induction arbitrary: xs rule: list_emb.induct)
  case (list_emb_Nil ys)
  then show ?case by (intro exI [of _ "[]"]) simp
next
  case (list_emb_Cons ys' ys y)
  then obtain x xs0 where xs: "xs = x # xs0" "list_all2 R xs0 ys" by (auto simp: list_all2_Cons2)
  from list_emb_Cons.IH [OF xs(2)] show ?case using xs(1) by (blast intro: list_emb.intros)
next
  case (list_emb_Cons2 y' y ys' ys)
  then obtain x xs0 where xs: "xs = x # xs0" "R x y" "list_all2 R xs0 ys" by (auto simp: list_all2_Cons2)
  from list_emb_Cons2.IH [OF xs(3)] show ?case
    using xs list_emb_Cons2(1) by (metis list_all2_Cons subseq_Cons2)
qed

lemma batch_ops_image:
  "batch_ops (s\<lparr>sg_image := img\<rparr>) b k prs = batch_ops s b k prs"
  "batch_ops (advance post s) b k prs = batch_ops s b k prs"
proof -
  have "op_of (s\<lparr>sg_image := img\<rparr>) b k r d = op_of s b k r d" "op_of (advance post s) b k r d = op_of s b k r d" for k r d
    by (cases "pr_kind r"; simp add: op_of_def located_of_def advance_def)+
  then show "batch_ops (s\<lparr>sg_image := img\<rparr>) b k prs = batch_ops s b k prs" "batch_ops (advance post s) b k prs = batch_ops s b k prs"
    by (induction prs arbitrary: k) auto
qed

lemma log_ops_image:
  "log_ops (s\<lparr>sg_image := img\<rparr>) at bs = log_ops s at bs" "log_ops (advance post s) at bs = log_ops s at bs"
  by (induction bs arbitrary: at) (simp_all add: log_ops_at_def batch_ops_image)

lemma laid_out_lens:
  assumes "laid_out C tag st prev s bs post prs"
  shows "\<forall>pr \<in> set prs. unat (pr_len (fst pr)) = length (snd pr)"
proof
  fix pr assume "pr \<in> set prs"
  then obtain k where "k < length prs" "prs ! k = pr" by (auto simp: in_set_conv_nth)
  moreover have "packed C tag (write_batch post (sg_image s)) (pp_entry_at post) prs"
    using assms by (simp add: laid_out_def batch_at_def Let_def)
  ultimately show "unat (pr_len (fst pr)) = length (snd pr)"
    using packed_nth [of C tag "write_batch post (sg_image s)" "pp_entry_at post" prs k] by (auto split: prod.splits)
qed

text \<open>The windows of \<open>Durability::Ordered\<close>: no record was touched yet, or every entry is durable.\<close>

definition ordered_crash :: "segment \<Rightarrow> prepared \<Rightarrow> bytes \<Rightarrow> bool" where
  "ordered_crash s post img =
     (bslice (pp_persist_at post) (length (pp_records post)) img
        = bslice (pp_persist_at post) (length (pp_records post)) (sg_image s)
      \<or> bslice (pp_entry_at post) (length (pp_entries post)) img
        = bslice (pp_entry_at post) (length (pp_entries post)) (write_batch post (sg_image s)))"

lemma untouched_slot_dead:
  assumes lo: "laid_out C tag st prev s bs post prs" and len: "length img = length (sg_image s)"
    and same: "bslice (pp_persist_at post) (length (pp_records post)) img = bslice (pp_persist_at post) (length (pp_records post)) (sg_image s)"
    and inb: "k < blocks_for (length prs) * RECORDS_PER_BLOCK"
  shows "slot_dead C st (s\<lparr>sg_image := img\<rparr>) (log_slots 0 bs + k)"
proof -
  note f = laid_out_facts [OF lo]
  let ?at = "log_slots 0 bs"
  have rest: "at_rest C tag st prev s bs" and at: "pp_persist_at post = PERSIST_START + ?at * RECORD_SIZE"
    and recs: "length (pp_records post) = blocks_for (length prs) * BLOCK"
    using lo by (simp_all add: laid_out_def Let_def)
  have slot: "?at + k < slots_of s" using inb f(1) by (simp add: next_slot_def)
  have "k * RECORD_SIZE + RECORD_SIZE \<le> length (pp_records post)"
    using mult_le_mono1 [of "Suc k" "blocks_for (length prs) * RECORDS_PER_BLOCK" RECORD_SIZE] inb recs
    by (simp add: RECORDS_PER_BLOCK_def BLOCK_def RECORD_SIZE_def)
  then have "bslice (PERSIST_START + (?at + k) * RECORD_SIZE) RECORD_SIZE img = bslice (PERSIST_START + (?at + k) * RECORD_SIZE) RECORD_SIZE (sg_image s)"
    using bslice_cong_sub [OF same] at by (simp add: algebra_simps)
  then have "log_slot C st (s\<lparr>sg_image := img\<rparr>) (?at + k) = log_slot C st s (?at + k)" using f(2) len slot by (intro log_slot_cong)
  moreover have "slot_dead C st s (?at + k)" using rest slot by (simp add: at_rest_def blank_def)
  ultimately show ?thesis by (simp add: slot_dead_def)
qed

lemma written_entry_reads:
  assumes lo: "laid_out C tag st prev s bs post prs"
    and same: "bslice (pp_entry_at post) (length (pp_entries post)) img = bslice (pp_entry_at post) (length (pp_entries post)) (write_batch post (sg_image s))"
    and k: "k < length prs"
  shows "entry_reads C tag (s\<lparr>sg_image := img\<rparr>) (prs ! k)"
proof -
  note f = laid_out_facts [OF lo]
  let ?w = "write_batch post (sg_image s)"
  have w: "batch_at C tag ?w (pp_persist_at post) (pp_entry_at post) prs"
    and len: "length (pp_entries post) = align_up (extent prs) BLOCK"
    using lo by (simp_all add: laid_out_def Let_def)
  obtain rec pl where pr: "prs ! k = (rec, pl)" by (cases "prs ! k")
  have "record_ok rec" "packed C tag ?w (pp_entry_at post) prs" using w k pr by (auto simp: batch_at_def)
  then have p: "pp_entry_at post \<le> unat (pr_offset rec)" "unat (pr_offset rec) + footprint (pr_len rec) \<le> pp_entry_at post + extent prs"
    "unat (pr_len rec) = length pl"
    "entry_encode C (header_of tag rec) pl = (pr_entry_crc rec, bslice (unat (pr_offset rec)) (RECORD_SIZE + length pl) ?w)"
    using packed_nth [of C tag ?w "pp_entry_at post" prs k] k pr by simp_all
  have "extent prs \<le> length (pp_entries post)" using len align_up_ge [of BLOCK "extent prs"] by simp
  then have "bslice (unat (pr_offset rec)) (RECORD_SIZE + length pl) img = bslice (unat (pr_offset rec)) (RECORD_SIZE + length pl) ?w"
    using p footprint_ge [of "pr_len rec"] by (intro bslice_cong_sub [OF same]) simp_all
  then show ?thesis using p pr f(4,5) \<open>record_ok rec\<close> by (auto intro!: entry_reads_bytes simp: start_of_def)
qed

lemma reads_not_dead: "record_reads C st s j r \<Longrightarrow> \<not> slot_dead C st s j"
  by (simp add: record_reads_def slot_dead_def)

lemma ordered_reads:
  assumes lo: "laid_out C tag st prev s bs post prs" and x: "crash_leaves C tag st s (log_slots 0 bs) post img"
    and o: "ordered_crash s post img" and k: "k < length prs"
    and r: "record_reads C st (s\<lparr>sg_image := img\<rparr>) (log_slots 0 bs + k) (fst (prs ! k))"
  shows "entry_reads C tag (s\<lparr>sg_image := img\<rparr>) (prs ! k)"
proof -
  have len: "length img = length (sg_image s)" using x by (simp add: crash_leaves_def Let_def)
  have "k < blocks_for (length prs) * RECORDS_PER_BLOCK" using k length_le_slots [of "length prs"] by linarith
  then show ?thesis
    using o untouched_slot_dead [OF lo len] reads_not_dead [OF r] written_entry_reads [OF lo _ k]
    by (auto simp: ordered_crash_def)
qed

text \<open>No record landed and every entry did: every record is rebuilt from its entry.\<close>

lemma finds_rebuilt:
  "\<forall>i < length prs. slot_dead C st s (at + k + i) \<and> entry_reads C tag s (prs ! i) \<Longrightarrow>
   finds C tag st s at k True prs = map (\<lambda>pr. FoundRebuilt (fst pr)) prs"
proof (induction prs arbitrary: k)
  case (Cons pr prs)
  obtain r payload where pr: "pr = (r, payload)" by (cases pr)
  have "slot_dead C st s (at + k) \<and> entry_reads C tag s pr" using Cons.prems by (auto dest: spec [of _ 0])
  moreover have "\<forall>i < length prs. slot_dead C st s (at + Suc k + i) \<and> entry_reads C tag s (prs ! i)"
    using Cons.prems by (fastforce dest: spec [of _ "Suc i" for i])
  ultimately show ?case using Cons.IH reads_not_dead pr by auto
qed simp

lemma kept_ops_rebuilt: "kept_ops C tag s b k (map (\<lambda>pr. FoundRebuilt (fst pr)) prs) = batch_ops s b k prs"
  by (induction prs arbitrary: k) auto

section \<open>A fresh segment\<close>

text \<open>A segment that was just created: its headers, then zeros.\<close>

definition fresh_segment :: "u64 \<Rightarrow> u64 \<Rightarrow> geometry \<Rightarrow> bytes \<Rightarrow> segment" where
  "fresh_segment first_batch prev_batch g img =
     \<lparr>sg_first_batch = first_batch, sg_prev_batch = prev_batch, sg_geometry = g, sg_persist_next = PERSIST_START,
      sg_entry_next = entry_start g, sg_live = 0, sg_image = img\<rparr>"

definition zero_image :: "geometry \<Rightarrow> bytes" where
  "zero_image g = replicate (total_blocks g * BLOCK) 0"

lemma from_le_zero: "from_le_bytes (replicate n 0) = (0 :: 'a :: len word)"
  by (induction n) simp_all

lemma ENTRY_MAGIC_nonzero: "ENTRY_MAGIC \<noteq> 0"
  by code_simp

lemma read_entry_zero: "read_entry C (fresh_segment f p g (zero_image g)) off tag = None"
proof -
  have "entry_parse (bslice off RECORD_SIZE (zero_image g)) = None" if "off + RECORD_SIZE \<le> entry_end g"
  proof (rule entry_parse_zero)
    have "bslice off RECORD_SIZE (zero_image g) = replicate RECORD_SIZE 0"
      using that by (simp add: zero_image_def entry_end_total)
    then show "ENTRY_MAGIC \<noteq> get_u32 (bslice off RECORD_SIZE (zero_image g)) 0"
      using ENTRY_MAGIC_nonzero by (simp add: get_u32_def RECORD_SIZE_def from_le_zero)
  qed
  then show ?thesis by (simp add: read_entry_def read_at_def fresh_segment_def Let_def)
qed

lemma fresh_at_rest:
  assumes "is_valid g"
  shows "at_rest C tag st p (fresh_segment f p g (zero_image g)) []"
proof -
  let ?s = "fresh_segment f p g (zero_image g)"
  have ok: "segment_ok ?s" using assms by (simp add: segment_ok_def fresh_segment_def zero_image_def)
  have "slot_dead C st ?s j" if j: "j < slots_of ?s" for j
  proof (rule slot_dead_zero [OF ok j])
    have "Suc j * RECORD_SIZE \<le> slots_of ?s * RECORD_SIZE" using j by (intro mult_le_mono1) simp
    moreover have "PERSIST_START + slots_of ?s * RECORD_SIZE \<le> total_blocks g * BLOCK"
      using slots_bytes [OF ok] by (simp add: fresh_segment_def geometry_defs)
    ultimately show "bslice (PERSIST_START + j * RECORD_SIZE) RECORD_SIZE (sg_image ?s) = replicate RECORD_SIZE 0"
      by (simp add: fresh_segment_def zero_image_def)
  qed
  moreover have "start_of ?s = entry_start g" by (simp add: start_of_def fresh_segment_def)
  ultimately show ?thesis using ok read_entry_zero [of C f p g]
    by (simp add: at_rest_def blank_def) (simp add: fresh_segment_def)
qed

section \<open>Properties\<close>

text \<open>C28. A commit that returns is recovered: once both writes of a batch reached the segment, scanning the
  journal gives the operations it gave before, followed by every write of the batch in order; nothing is
  reported corrupt, ambiguous, torn or rebuilt; the last batch is the one committed, the cursors the scan
  computes for the active segment are those the commit left in memory, and the segment is again at rest.\<close>

theorem commit_is_recovered:
  assumes "closed_ok C tag st first closed"
    and "commit_ready C tag st (closed_last first closed) s bs d generation b p"
    and "place C (sg_persist_next s) (sg_entry_next s) p = Inr post"
  shows "\<exists>out0 out ops bs'. scan C tag st (map fst closed @ [s]) = Inr out0 \<and>
    scan C tag st (map fst closed @ [advance post s]) = Inr out \<and>
    sc_ops out = sc_ops out0 @ ops \<and> list_all2 op_is (bt_writes b) ops \<and>
    sc_corrupt out = [] \<and> sc_ambiguous out = [] \<and> sc_voided out = 0 \<and> sc_rebuilt out = 0 \<and>
    sc_last_batch out = pp_seq post \<and>
    last (sc_cursors out) = (sg_persist_next (advance post s), sg_entry_next (advance post s)) \<and>
    at_rest C tag st (closed_last first closed) (advance post s) bs'"
proof -
  define prs where "prs = zip (pp_decoded post) (map payload_of (bt_writes b))"
  note lo = commit_laid_out [OF assms(2,3), folded prs_def]
  note r' = commit_at_rest [OF lo(1)]
  have r: "at_rest C tag st (closed_last first closed) s bs" using assms(2) by (simp add: commit_ready_def Let_def)
  have c0: "closed_ok C tag st first (closed @ [(s, bs)])"
    using assms(1) at_rest_closed [OF r] by (simp add: closed_append)
  have c1: "closed_ok C tag st first (closed @ [(advance post s, bs @ [prs])])"
    using assms(1) at_rest_closed [OF r'] by (simp add: closed_append)
  have "list_all2 op_is (bt_writes b) (log_ops_at s (log_slots 0 bs) prs)"
    unfolding log_ops_at_def using batch_ops_writes [OF lo(2,3) laid_out_lens [OF lo(1)]] .
  moreover have "pp_seq post = seq_of prs" using lo(1) by (simp add: laid_out_def Let_def)
  ultimately show ?thesis
    using scan_at_rest [OF c0] scan_at_rest [OF c1] r'
    by (fastforce simp: closed_append log_append log_ops_image log_ops_at_def batch_ops_image closed_scan_def at_rest_def)
qed

definition sample_stale :: stale where "sample_stale = \<lparr>st_generation = 1, st_last = 0\<rparr>"

definition sample_segment :: segment where
  "sample_segment = fresh_segment 0x10000000001 0 geometry_small (zero_image geometry_small)"

text \<open>The sample batch is the first of its journal.\<close>

lemma sample_commit:
  obtains p post where "commit_ready sum_crc 7 sample_stale 0 sample_segment [] Ordered 1 sample_batch p"
    "place sum_crc (sg_persist_next sample_segment) (sg_entry_next sample_segment) p = Inr post"
proof -
  obtain p where p: "prepare sum_crc geometry_small Ordered 7 1 0 sample_batch = Inr p"
    "length (pp_entries p) \<le> unat (entry_blocks geometry_small) * BLOCK"
    "pp_records p = replicate (blocks_for (length (bt_writes sample_batch)) * BLOCK) 0"
    "blocks_for (length (bt_writes sample_batch)) \<le> unat (persist_blocks geometry_small)"
    by (rule prepare_ok [OF sample_batch_ok, of sum_crc Ordered 7]) blast
  have r: "at_rest sum_crc 7 sample_stale 0 sample_segment []"
    unfolding sample_segment_def by (rule fresh_at_rest [OF sample_batch_ok(2)])
  have seq: "next_seq 1 0 = 0x10000000001"
    by (simp add: next_seq_def generation_of_def first_batch_of_def GENERATION_SHIFT_def push_bit_eq_mult)
  have stale: "\<not> is_stale_in sample_stale 0x10000000001 0x10000000001"
    by (simp add: is_stale_in_def is_stale_def sample_stale_def generation_of_def GENERATION_SHIFT_def drop_bit_eq_div word_less_def uint_div)
  have room: "segment_fits sample_segment (length (pp_records p) div BLOCK) (length (pp_entries p))"
    using p by (simp add: segment_fits_def sample_segment_def fresh_segment_def geometry_defs)
  have ready: "commit_ready sum_crc 7 sample_stale 0 sample_segment [] Ordered 1 sample_batch p"
    using r p room seq stale sample_batch_ok
    by (simp add: commit_ready_def log_last_def) (simp add: sample_segment_def fresh_segment_def sample_batch_def batch_clear_def)
  have "\<exists>post. place sum_crc (sg_persist_next sample_segment) (sg_entry_next sample_segment) p = Inr post"
    by (rule commit_placed [OF ready]) blast
  then show thesis using that ready by blast
qed

lemma commit_is_recovered_witness:
  "\<exists>p post out ops. commit_ready sum_crc 7 sample_stale 0 sample_segment [] Ordered 1 sample_batch p \<and>
     place sum_crc (sg_persist_next sample_segment) (sg_entry_next sample_segment) p = Inr post \<and>
     scan sum_crc 7 sample_stale [advance post sample_segment] = Inr out \<and> suffix ops (sc_ops out) \<and>
     list_all2 op_is (bt_writes sample_batch) ops \<and> sc_last_batch out = pp_seq post"
proof -
  obtain p post where p: "commit_ready sum_crc 7 sample_stale 0 sample_segment [] Ordered 1 sample_batch p"
    "place sum_crc (sg_persist_next sample_segment) (sg_entry_next sample_segment) p = Inr post"
    by (rule sample_commit)
  have c: "closed_ok sum_crc 7 sample_stale 0 []" "closed_last 0 [] = 0" "map fst [] @ [x] = [x]" for x :: segment by simp_all
  obtain out0 :: scan_out and out ops where "scan sum_crc 7 sample_stale [advance post sample_segment] = Inr out"
    "sc_ops out = sc_ops out0 @ ops" "list_all2 op_is (bt_writes sample_batch) ops" "sc_last_batch out = pp_seq post"
    using commit_is_recovered [OF c(1), unfolded c(2,3), OF p] by blast
  with p show ?thesis by (blast intro: suffixI)
qed

text \<open>A crash before any byte of the commit landed.\<close>

lemma crash_before:
  assumes lo: "laid_out C tag st prev s bs post prs" and none: "\<And>off. read_entry C s off tag = None"
  shows "crash_leaves C tag st s (log_slots 0 bs) post (sg_image s)"
proof -
  note f = laid_out_facts [OF lo]
  have rest: "at_rest C tag st prev s bs" and recs: "length (pp_records post) = blocks_for (length prs) * BLOCK"
    using lo by (simp_all add: laid_out_def Let_def)
  have "slot_dead C st s (log_slots 0 bs + k)" if "k < length (pp_records post) div RECORD_SIZE" for k
    using that rest f(1) recs
    by (simp add: at_rest_def blank_def next_slot_def RECORDS_PER_BLOCK_def BLOCK_def RECORD_SIZE_def)
  then show ?thesis by (simp add: crash_leaves_def Let_def none entry_dead_def)
qed

text \<open>C3. A crash costs nothing that was committed: whatever a crash in the middle of a commit leaves of its two
  writes, the scan succeeds, it gives every operation it gave before the commit, followed by some of the
  batch's own writes in their order; the last batch is the one before or the one being written; a
  \<open>Batched\<close> commit is never reported corrupt, and an \<open>Ordered\<close> one is not even reported ambiguous.\<close>

theorem crash_keeps_commits:
  assumes "closed_ok C tag st first closed"
    and "commit_ready C tag st (closed_last first closed) s bs d generation b p"
    and "place C (sg_persist_next s) (sg_entry_next s) p = Inr post"
    and "crash_leaves C tag st s (log_slots 0 bs) post img"
  shows "\<exists>out0 out ops ws. scan C tag st (map fst closed @ [s]) = Inr out0 \<and>
    scan C tag st (map fst closed @ [s\<lparr>sg_image := img\<rparr>]) = Inr out \<and>
    sc_ops out = sc_ops out0 @ ops \<and> subseq ws (bt_writes b) \<and> list_all2 op_is ws ops \<and>
    (sc_last_batch out = sc_last_batch out0 \<or> sc_last_batch out = pp_seq post) \<and>
    (d = Batched \<longrightarrow> sc_corrupt out = []) \<and>
    (ordered_crash s post img \<longrightarrow> sc_corrupt out = [] \<and> sc_ambiguous out = [])"
proof -
  define prs where "prs = zip (pp_decoded post) (map payload_of (bt_writes b))"
  let ?s = "s\<lparr>sg_image := img\<rparr>" and ?at = "log_slots 0 bs"
  note lo = commit_laid_out [OF assms(2,3), folded prs_def]
  have r: "at_rest C tag st (closed_last first closed) s bs" using assms(2) by (simp add: commit_ready_def Let_def)
  have c0: "closed_ok C tag st first (closed @ [(s, bs)])"
    using assms(1) at_rest_closed [OF r] by (simp add: closed_append)
  obtain out0 where out0: "scan C tag st (map fst closed @ [s]) = Inr out0"
    "sc_ops out0 = closed_ops closed @ log_ops s 0 bs" "sc_last_batch out0 = log_last (closed_last first closed) bs"
    using scan_at_rest [OF c0] by (auto simp: closed_append)
  obtain out where out: "scan C tag st (map fst closed @ [?s]) = Inr out"
    "sc_ops out = closed_ops closed @ log_ops ?s 0 bs @ tail_ops C tag st ?s ?at prs"
    "sc_corrupt out = tail_damage C tag st ?s ?at prs True" "sc_ambiguous out = tail_damage C tag st ?s ?at prs False"
    "sc_last_batch out = (if visible C tag st ?s ?at prs then seq_of prs else log_last (closed_last first closed) bs)"
    using scan_crash [OF assms(1) crash_torn [OF lo(1) assms(4)]] by blast
  let ?b = "scan_of ?at prs (tail_finds C tag st ?s ?at prs)"
  have "subseq (map settle (tail_ops C tag st ?s ?at prs)) (batch_ops ?s ?b 0 prs)"
    using kept_ops_subseq [of C tag ?s ?b 0 st ?at True prs] by (auto simp: tail_ops_def tail_finds_def)
  moreover have "list_all2 op_is (bt_writes b) (batch_ops ?s ?b 0 prs)"
    by (rule batch_ops_writes [OF lo(2,3) laid_out_lens [OF lo(1)]])
  ultimately obtain ws where ws: "subseq ws (bt_writes b)" "list_all2 op_is ws (map settle (tail_ops C tag st ?s ?at prs))"
    using list_all2_subseq by blast
  have flag: "pr_flags (fst (prs ! k)) AND FLAG_ORDERED = 0" if "d = Batched" "k < length prs" for k
    using records_for_nth [OF lo(2), of k] that by (simp add: flags_of_def)
  have "d = Batched \<longrightarrow> (\<forall>pr \<in> set prs. pr_flags (fst pr) AND FLAG_ORDERED = 0)"
    using flag by (metis in_set_conv_nth)
  then have "d = Batched \<longrightarrow> sc_corrupt out = []"
    using out(3) damaged_puts_batched [of prs C tag ?s st ?at 0 True] by (simp add: tail_damage_def tail_finds_def)
  moreover have "ordered_crash s post img \<longrightarrow> sc_corrupt out = [] \<and> sc_ambiguous out = []"
    using out(3,4) ordered_reads [OF lo(1) assms(4)] damaged_puts_ordered [of prs C st ?s ?at 0 tag _ True]
    by (simp add: tail_damage_def tail_finds_def)
  moreover have "pp_seq post = seq_of prs" using lo(1) by (simp add: laid_out_def Let_def)
  ultimately show ?thesis using out0 out(1,2,5) ws by (auto simp: log_ops_image list_all2_map2 split: if_splits)
qed

lemma crash_keeps_commits_witness:
  "\<exists>p post out ws. commit_ready sum_crc 7 sample_stale 0 sample_segment [] Ordered 1 sample_batch p \<and>
     place sum_crc (sg_persist_next sample_segment) (sg_entry_next sample_segment) p = Inr post \<and>
     crash_leaves sum_crc 7 sample_stale sample_segment 0 post (zero_image geometry_small) \<and>
     scan sum_crc 7 sample_stale [sample_segment\<lparr>sg_image := zero_image geometry_small\<rparr>] = Inr out \<and>
     subseq ws (bt_writes sample_batch) \<and> sc_corrupt out = [] \<and> sc_ambiguous out = []"
proof -
  obtain p post where p: "commit_ready sum_crc 7 sample_stale 0 sample_segment [] Ordered 1 sample_batch p"
    "place sum_crc (sg_persist_next sample_segment) (sg_entry_next sample_segment) p = Inr post"
    by (rule sample_commit)
  have img: "sg_image sample_segment = zero_image geometry_small" by (simp add: sample_segment_def fresh_segment_def)
  have x: "crash_leaves sum_crc 7 sample_stale sample_segment 0 post (zero_image geometry_small)"
    using crash_before [OF commit_laid_out(1) [OF p]] read_entry_zero by (simp add: img [symmetric]) (simp add: sample_segment_def)
  have o: "ordered_crash sample_segment post (zero_image geometry_small)" by (simp add: ordered_crash_def img)
  have "closed_ok sum_crc 7 sample_stale 0 []" by simp
  from crash_keeps_commits [OF this, of sample_segment "[]" Ordered 1 sample_batch p post "zero_image geometry_small"] p x o
  show ?thesis by auto
qed


lemma crash_after_entries:
  assumes lo: "laid_out C tag st prev s bs post prs" and none: "\<And>off. read_entry C s off tag = None"
    and one: "length (pp_entries post) = BLOCK"
  defines "img \<equiv> put_at (pp_entry_at post) (pp_entries post) (sg_image s)"
  shows "crash_leaves C tag st s (log_slots 0 bs) post img"
    and "bslice (pp_persist_at post) (length (pp_records post)) img = bslice (pp_persist_at post) (length (pp_records post)) (sg_image s)"
    and "bslice (pp_entry_at post) (length (pp_entries post)) img = bslice (pp_entry_at post) (length (pp_entries post)) (write_batch post (sg_image s))"
proof -
  let ?s = "s\<lparr>sg_image := img\<rparr>" and ?e = "pp_entry_at post"
  note f = laid_out_facts [OF lo]
  have room: "?e + length (pp_entries post) \<le> length (sg_image s)" and recs: "length (pp_records post) = blocks_for (length prs) * BLOCK"
    and ne: "prs \<noteq> []" and dec: "pp_decoded post = map fst prs" and seq: "pp_seq post = seq_of prs"
    and w: "batch_at C tag (write_batch post (sg_image s)) (pp_persist_at post) ?e prs"
    using lo f(2) by (auto simp: laid_out_def Let_def segment_ok_def entry_end_total batch_at_def)
  have len: "length img = length (sg_image s)" using room by (simp add: img_def)
  have out: "bslice i m img = bslice i m (sg_image s)" if "i + m \<le> ?e \<or> ?e + length (pp_entries post) \<le> i" for i m
    using that room by (auto simp: img_def bslice_put_at_before bslice_put_at_after)
  show p: "bslice (pp_persist_at post) (length (pp_records post)) img = bslice (pp_persist_at post) (length (pp_records post)) (sg_image s)"
    using out f(3,4) by simp
  have same: "bslice i m img = bslice i m (write_batch post (sg_image s))" if "?e \<le> i" for i m
    using that f(3,4) room by (simp add: write_batch_def img_def bslice_put_at_after)
  then show e: "bslice ?e (length (pp_entries post)) img = bslice ?e (length (pp_entries post)) (write_batch post (sg_image s))" by simp
  have dead: "slot_dead C st ?s (log_slots 0 bs + k)" if "k < length (pp_records post) div RECORD_SIZE" for k
    using that recs by (intro untouched_slot_dead [OF lo len p]) (simp add: RECORDS_PER_BLOCK_def BLOCK_def RECORD_SIZE_def)
  have entries: "bslice (unat (pr_offset r)) m img = bslice (unat (pr_offset r)) m (write_batch post (sg_image s))"
    if "r \<in> set (pp_decoded post)" for r m
  proof (rule same)
    have "r \<in> set (map fst prs)" using that dec by simp
    then obtain k where k: "k < length prs" "fst (prs ! k) = r" by (auto simp: in_set_conv_nth simp del: set_map)
    then show "?e \<le> unat (pr_offset r)"
      using packed_nth [of C tag "write_batch post (sg_image s)" ?e prs k] w by (auto simp: batch_at_def split: prod.splits)
  qed
  have blocks: "case read_entry C ?s off tag of None \<Rightarrow> True
      | Some (h, _, _) \<Rightarrow> eh_batch h \<le> pp_seq post \<or> is_stale_in st (sg_first_batch s) (eh_batch h)"
    if off: "?e \<le> off" "BLOCK dvd off" for off
  proof (cases "off = ?e")
    case True
    obtain r pl where hd: "prs ! 0 = (r, pl)" by (cases "prs ! 0")
    have "entry_reads C tag ?s (r, pl)" using written_entry_reads [OF lo e, of 0] ne hd by simp
    moreover have "unat (pr_offset r) = ?e" "pr_batch r = seq_of prs"
      using batch_at_placed [OF w] ne hd by (cases prs; auto simp: placed_def)+
    ultimately show ?thesis using True seq by (simp add: entry_reads_def header_of_def)
  next
    case False
    have "BLOCK dvd ?e" using lo log_entries_dvd [OF start_of_dvd] by (simp add: laid_out_def Let_def)
    then have "?e + BLOCK \<le> off" using off False by (auto elim!: dvdE) (metis Suc_leI mult_Suc_right mult_le_mono2 nat_mult_less_cancel1 add.commute le_neq_implies_less)
    then have "read_entry C ?s off tag = read_entry C s off tag" using out one by (intro read_entry_cong) simp
    then show ?thesis using none by simp
  qed
  show "crash_leaves C tag st s (log_slots 0 bs) post img"
    unfolding crash_leaves_def Let_def using len dead entries blocks f(6) by (auto intro: out)
qed


end
