(* ===== verification/Journal_Meta.thy ===== *)
theory Journal_Meta
  imports Journal_Recover
begin

text \<open>
  The meta file (\<open>crates/moonpool-journal/src/meta.rs\<close>): two checksummed copies of the metainfo far apart
  in one file, written one after the other. The file is its bytes; a durable write that a crash cuts
  leaves its block old, new or undecodable.
\<close>

section \<open>The meta file\<close>

datatype mcopy = CopyA | CopyB

fun copy_byte :: "mcopy \<Rightarrow> u8" where
  "copy_byte CopyA = 0"
| "copy_byte CopyB = 1"

fun copy_block :: "mcopy \<Rightarrow> nat" where
  "copy_block CopyA = 0"
| "copy_block CopyB = META_COPY_B_AT div BLOCK"

text \<open>A file and the value \<open>choose\<close> takes from it, with the copy that is stale.\<close>

definition meta_read :: "crc_lib \<Rightarrow> mcopy \<Rightarrow> bytes \<Rightarrow> meta option" where
  "meta_read C copy img = meta_decode C (copy_byte copy) (bslice (copy_block copy * BLOCK) BLOCK img)"

definition meta_choose :: "crc_lib \<Rightarrow> journal_id \<Rightarrow> bytes \<Rightarrow> open_error + (meta \<times> mcopy option)" where
  "meta_choose C journal img =
     and_then
       (case (meta_read C CopyA img, meta_read C CopyB img) of
          (Some a, Some b) \<Rightarrow>
            if a = b then Inr (a, None)
            else if mt_seq a = mt_seq b then Inl MetaLost
            else if mt_seq a > mt_seq b then Inr (a, Some CopyB)
            else Inr (b, Some CopyA)
        | (Some a, None) \<Rightarrow> Inr (a, Some CopyB)
        | (None, Some b) \<Rightarrow> Inr (b, Some CopyA)
        | (None, None) \<Rightarrow> Inl MetaLost)
       (\<lambda>(m, stale). if mt_journal m \<noteq> journal then Inl (WrongJournal (mt_journal m)) else Inr (m, stale))"

definition meta_write :: "crc_lib \<Rightarrow> mcopy \<Rightarrow> meta \<Rightarrow> bytes \<Rightarrow> bytes" where
  "meta_write C copy m img = put_at (copy_block copy * BLOCK) (meta_encode C (copy_byte copy) m) img"

definition meta_update :: "crc_lib \<Rightarrow> meta \<Rightarrow> bytes \<Rightarrow> bytes" where
  "meta_update C m img = meta_write C CopyB m (meta_write C CopyA m img)"

definition meta_create :: "crc_lib \<Rightarrow> meta \<Rightarrow> bytes" where
  "meta_create C m = meta_write C CopyB m (meta_write C CopyA m (replicate (META_FILE_BLOCKS * BLOCK) 0))"

text \<open>\<open>open\<close> and \<open>peek\<close>: no file is no journal; the value, and on open the stale copy rewritten.\<close>

definition meta_open ::
  "crc_lib \<Rightarrow> journal_id \<Rightarrow> bytes option \<Rightarrow> open_error + (bytes \<times> meta \<times> bool) option" where
  "meta_open C journal file =
     (case file of None \<Rightarrow> Inr None
      | Some img \<Rightarrow>
        if length img div BLOCK \<noteq> META_FILE_BLOCKS then Inl MetaLost
        else and_then (meta_choose C journal img) (\<lambda>(m, stale).
          Inr (Some (case stale of None \<Rightarrow> img | Some copy \<Rightarrow> meta_write C copy m img, m, stale \<noteq> None))))"

definition meta_peek :: "crc_lib \<Rightarrow> journal_id \<Rightarrow> bytes option \<Rightarrow> open_error + meta option" where
  "meta_peek C journal file =
     (case file of None \<Rightarrow> Inr None
      | Some img \<Rightarrow>
        if length img div BLOCK \<noteq> META_FILE_BLOCKS then Inl MetaLost
        else and_then (meta_choose C journal img) (\<lambda>(m, _). Inr (Some m)))"

section \<open>Writes and reads of a copy\<close>

definition meta_fits :: "meta \<Rightarrow> bool" where
  "meta_fits m = (length (mt_bytes m) \<le> META_MAX)"

definition file_ok :: "bytes \<Rightarrow> bool" where
  "file_ok img = (length img = META_FILE_BLOCKS * BLOCK)"

fun other :: "mcopy \<Rightarrow> mcopy" where
  "other CopyA = CopyB"
| "other CopyB = CopyA"

lemma other_other [simp]: "other (other c) = c" "other c \<noteq> c"
  by (cases c; simp)+

lemma meta_write_reads:
  assumes "meta_fits m" "file_ok img"
  shows "meta_read C c (meta_write C c m img) = Some m"
    "meta_read C (other c) (meta_write C c m img) = meta_read C (other c) img" "file_ok (meta_write C c m img)"
  using assms
  by (cases c; simp add: meta_read_def meta_write_def meta_fits_def file_ok_def meta_encoded bslice_put_at_same
    bslice_put_at_before bslice_put_at_after META_COPY_B_AT_def META_FILE_BLOCKS_def BLOCK_def)+

section \<open>Crashes\<close>

text \<open>What a crash during the durable write of one copy leaves.\<close>

definition torn_write :: "crc_lib \<Rightarrow> mcopy \<Rightarrow> meta \<Rightarrow> bytes \<Rightarrow> bytes \<Rightarrow> bool" where
  "torn_write C c m img img' =
     (file_ok img' \<and> meta_read C (other c) img' = meta_read C (other c) img
      \<and> (meta_read C c img' = None \<or> meta_read C c img' = meta_read C c img \<or> meta_read C c img' = Some m))"

text \<open>A crash in \<open>update\<close>: during the first copy's write, or during the second's once the first is durable.\<close>

definition update_crash :: "crc_lib \<Rightarrow> meta \<Rightarrow> bytes \<Rightarrow> bytes \<Rightarrow> bool" where
  "update_crash C m img img' =
     (torn_write C CopyA m img img' \<or> torn_write C CopyB m (meta_write C CopyA m img) img')"

text \<open>A crash in \<open>open\<close>, during the rewrite of the stale copy.\<close>

definition repair_crash :: "crc_lib \<Rightarrow> journal_id \<Rightarrow> bytes \<Rightarrow> bytes \<Rightarrow> bool" where
  "repair_crash C journal img img' =
     (case meta_choose C journal img of
        Inr (m, Some c) \<Rightarrow> torn_write C c m img img'
      | _ \<Rightarrow> img' = img)"

text \<open>
  The file holds \<open>m\<close>: one copy is \<open>m\<close>, the other undecodable, \<open>m\<close> too, or older; it is settled when
  both copies are \<open>m\<close>.
\<close>

definition holds :: "crc_lib \<Rightarrow> bytes \<Rightarrow> meta \<Rightarrow> bool" where
  "holds C img m =
     (file_ok img \<and> meta_fits m
      \<and> (\<exists>c. meta_read C c img = Some m
           \<and> (case meta_read C (other c) img of None \<Rightarrow> True | Some o' \<Rightarrow> o' = m \<or> mt_seq o' < mt_seq m)))"

definition settled :: "crc_lib \<Rightarrow> bytes \<Rightarrow> meta \<Rightarrow> bool" where
  "settled C img m =
     (file_ok img \<and> meta_fits m \<and> meta_read C CopyA img = Some m \<and> meta_read C CopyB img = Some m)"

lemma settled_copies: "settled C img m \<longleftrightarrow> file_ok img \<and> meta_fits m \<and> meta_read C c img = Some m \<and> meta_read C (other c) img = Some m"
  by (cases c) (auto simp: settled_def)

lemma holds_cases:
  assumes "holds C img m"
  obtains "settled C img m"
  | c where "meta_read C c img = Some m" "meta_read C (other c) img \<noteq> Some m"
    "case meta_read C (other c) img of None \<Rightarrow> True | Some o' \<Rightarrow> mt_seq o' < mt_seq m"
proof -
  obtain c where c: "meta_read C c img = Some m"
    "case meta_read C (other c) img of None \<Rightarrow> True | Some o' \<Rightarrow> o' = m \<or> mt_seq o' < mt_seq m"
    using assms by (auto simp: holds_def)
  show thesis
  proof (cases "meta_read C (other c) img = Some m")
    case True
    then show ?thesis using that(1) c assms settled_copies [of C img m c] by (simp add: holds_def)
  next
    case False
    then show ?thesis using that(2) [of c] c by (auto split: option.splits)
  qed
qed

lemma choose_settled: "settled C img m \<Longrightarrow> meta_choose C (mt_journal m) img = Inr (m, None)"
  by (simp add: settled_def meta_choose_def)

lemma choose_stale:
  assumes "meta_read C c img = Some m" "meta_read C (other c) img \<noteq> Some m"
    "case meta_read C (other c) img of None \<Rightarrow> True | Some o' \<Rightarrow> mt_seq o' < mt_seq m"
  shows "meta_choose C (mt_journal m) img = Inr (m, Some (other c))"
  using assms by (cases c) (auto simp: meta_choose_def split: option.splits)

lemma holds_choose: "holds C img m \<Longrightarrow> \<exists>stale. meta_choose C (mt_journal m) img = Inr (m, stale)"
  by (elim holds_cases) (auto dest: choose_settled choose_stale)

lemma settled_holds: "settled C img m \<Longrightarrow> holds C img m"
  by (auto simp: settled_def holds_def intro!: exI [of _ CopyA])

text \<open>A crash while the stale copy is rewritten changes no verdict.\<close>

lemma repair_holds:
  assumes "holds C img m" "repair_crash C (mt_journal m) img img'"
  shows "holds C img' m"
  using assms(1)
proof (cases rule: holds_cases)
  case 1
  then show ?thesis using assms by (simp add: repair_crash_def choose_settled)
next
  case (2 c)
  then have "torn_write C (other c) m img img'" using assms(2) by (simp add: repair_crash_def choose_stale [OF 2])
  then show ?thesis using 2 assms(1)
    by (auto simp: torn_write_def holds_def intro!: exI [of _ c] split: option.splits)
qed

lemma open_settles:
  assumes "holds C img m"
  shows "\<exists>img' repaired. meta_open C (mt_journal m) (Some img) = Inr (Some (img', m, repaired)) \<and> settled C img' m"
  using assms
proof (cases rule: holds_cases)
  case 1
  then show ?thesis by (auto simp: meta_open_def choose_settled settled_def file_ok_def BLOCK_def)
next
  case (2 c)
  have "meta_fits m" "file_ok img" using assms by (simp_all add: holds_def)
  then have "settled C (meta_write C (other c) m img) m"
    using meta_write_reads [of m img C "other c"] 2(1) settled_copies [of C _ m c] by simp
  then show ?thesis using choose_stale [OF 2] \<open>file_ok img\<close> by (auto simp: meta_open_def file_ok_def BLOCK_def)
qed

lemma update_settles: "file_ok img \<Longrightarrow> meta_fits m \<Longrightarrow> settled C (meta_update C m img) m"
  using meta_write_reads [of m img C CopyA] meta_write_reads [of m "meta_write C CopyA m img" C CopyB]
  by (simp add: settled_def meta_update_def)

lemma update_crash_holds:
  assumes v: "settled C img v" and w: "meta_fits w" "mt_seq v < mt_seq w" and x: "update_crash C w img img'"
  shows "holds C img' v \<or> holds C img' w"
proof -
  have ok: "file_ok img" "meta_read C CopyA img = Some v" "meta_read C CopyB img = Some v" "meta_fits v"
    using v by (simp_all add: settled_def)
  note wr = meta_write_reads [OF w(1) ok(1), of C CopyA]
  consider "torn_write C CopyA w img img'" | "torn_write C CopyB w (meta_write C CopyA w img) img'"
    using x by (auto simp: update_crash_def)
  then show ?thesis
  proof cases
    case 1
    then consider "meta_read C CopyA img' = None" | "meta_read C CopyA img' = Some v" | "meta_read C CopyA img' = Some w"
      using ok by (auto simp: torn_write_def)
    moreover have "file_ok img'" "meta_read C CopyB img' = Some v" using 1 ok by (simp_all add: torn_write_def)
    ultimately show ?thesis using ok w
      by cases (auto simp: holds_def intro: exI [of _ CopyA] exI [of _ CopyB])
  next
    case 2
    then have "file_ok img'" "meta_read C CopyA img' = Some w"
      "meta_read C CopyB img' = None \<or> meta_read C CopyB img' = Some v \<or> meta_read C CopyB img' = Some w"
      using wr ok by (auto simp: torn_write_def)
    then show ?thesis using w by (auto simp: holds_def intro!: disjI2 exI [of _ CopyA])
  qed
qed

lemma rot_repaired:
  assumes w: "meta_fits w" and s: "settled C (meta_update C w img) w"
    and rot: "file_ok rot" "meta_read C c rot = None" "meta_read C (other c) rot = meta_read C (other c) (meta_update C w img)"
  shows "\<exists>img3. meta_open C (mt_journal w) (Some rot) = Inr (Some (img3, w, True)) \<and> settled C img3 w"
proof -
  have o: "meta_read C (other c) rot = Some w" using s rot(3) settled_copies [of C _ w c] by simp
  have "meta_choose C (mt_journal w) rot = Inr (w, Some c)"
    using choose_stale [of C "other c" rot w] o rot(2) by simp
  moreover have "settled C (meta_write C c w rot) w"
    using meta_write_reads [OF w rot(1), of C c] o settled_copies [of C _ w c] w by simp
  ultimately show ?thesis using rot(1) by (simp add: meta_open_def file_ok_def BLOCK_def)
qed

section \<open>Properties\<close>


lemma create_settles: "meta_fits m \<Longrightarrow> settled C (meta_create C m) m"
  using update_settles [of "replicate (META_FILE_BLOCKS * BLOCK) 0" m C] by (simp add: meta_create_def meta_update_def file_ok_def)


end
