(* ===== verification/Journal_Names.thy ===== *)
theory Journal_Names
  imports Prelude "HOL-Library.List_Lexorder" "HOL-Library.Char_ord" "HOL-Library.Product_Lexorder"
begin

text \<open>
  The names of a journal's files: segments (\<open>segment.rs\<close>) are named after their first batch, spares
  (\<open>spare.rs\<close>) after the generation and a counter, and opening (\<open>journal.rs\<close>) sorts a directory listing into
  segments, spares and leftovers and syncs every ancestor of the journal's directory.
\<close>

section \<open>Strings\<close>

text \<open>\<open>str::strip_prefix\<close>, \<open>strip_suffix\<close>, \<open>split_once\<close> and a zero-padded decimal of width \<open>w\<close>.\<close>

definition strip_prefix :: "string \<Rightarrow> string \<Rightarrow> string option" where
  "strip_prefix p s = (if take (length p) s = p then Some (drop (length p) s) else None)"

definition strip_suffix :: "string \<Rightarrow> string \<Rightarrow> string option" where
  "strip_suffix p s = map_option rev (strip_prefix (rev p) (rev s))"

fun split_once :: "char \<Rightarrow> string \<Rightarrow> (string \<times> string) option" where
  "split_once c [] = None"
| "split_once c (x # xs) = (if x = c then Some ([], xs) else map_option (\<lambda>(a, b). (x # a, b)) (split_once c xs))"

definition digit :: "nat \<Rightarrow> char" where
  "digit n = char_of (48 + n mod 10)"

definition is_digit :: "char \<Rightarrow> bool" where
  "is_digit c = (48 \<le> (of_char c :: nat) \<and> (of_char c :: nat) \<le> 57)"

definition digit_value :: "char \<Rightarrow> nat" where
  "digit_value c = of_char c - 48"

fun padded :: "nat \<Rightarrow> nat \<Rightarrow> string" where
  "padded 0 n = []"
| "padded (Suc w) n = padded w (n div 10) @ [digit n]"

definition parse_nat :: "string \<Rightarrow> nat" where
  "parse_nat s = foldl (\<lambda>n c. 10 * n + digit_value c) 0 s"

definition parse_u64 :: "string \<Rightarrow> u64 option" where
  "parse_u64 s = (if parse_nat s < 2 ^ 64 then Some (of_nat (parse_nat s)) else None)"

section \<open>Segments and spares\<close>

definition segment_name :: "u64 \<Rightarrow> string" where
  "segment_name first_batch = ''seg-'' @ padded 20 (unat first_batch) @ ''.wal''"

definition parse_segment_name :: "string \<Rightarrow> u64 option" where
  "parse_segment_name name =
     Option.bind (strip_prefix ''seg-'' name) (\<lambda>rest.
     Option.bind (strip_suffix ''.wal'' rest) (\<lambda>digits.
       if length digits \<noteq> 20 \<or> \<not> list_all is_digit digits then None else parse_u64 digits))"

definition is_segment_leftover :: "string \<Rightarrow> bool" where
  "is_segment_leftover name = (Option.bind (strip_suffix ''.tmp'' name) parse_segment_name \<noteq> None)"

definition spare_name :: "u32 \<Rightarrow> u32 \<Rightarrow> string" where
  "spare_name generation number =
     ''spare-'' @ padded 10 (unat generation) @ ''-'' @ padded 10 (unat number) @ ''.wal''"

definition is_spare :: "string \<Rightarrow> bool" where
  "is_spare name =
     (case Option.bind (strip_prefix ''spare-'' name) (\<lambda>rest.
           Option.bind (strip_suffix ''.wal'' rest) (split_once (CHR ''-''))) of
        None \<Rightarrow> False
      | Some (generation, number) \<Rightarrow>
          length generation = 10 \<and> list_all is_digit generation \<and> length number = 10 \<and> list_all is_digit number)"

section \<open>A directory listing\<close>

record listing =
  ls_firsts :: "(u64 \<times> string) list"
  ls_spares :: "string list"
  ls_deleted :: "string list"

text \<open>
  What \<open>list_segments\<close> makes of the names in a directory. A spare is a spare whatever else its name says;
  the leftovers are deleted.
\<close>

fun sort_names :: "string list \<Rightarrow> listing \<Rightarrow> listing" where
  "sort_names [] ls = ls"
| "sort_names (name # names) ls =
     sort_names names
       (if is_spare name then ls\<lparr>ls_spares := ls_spares ls @ [name]\<rparr>
        else if is_segment_leftover name then ls\<lparr>ls_deleted := ls_deleted ls @ [name]\<rparr>
        else case parse_segment_name name of
          Some first \<Rightarrow> ls\<lparr>ls_firsts := ls_firsts ls @ [(first, name)]\<rparr>
        | None \<Rightarrow> ls)"

definition list_segments :: "string list \<Rightarrow> listing" where
  "list_segments names =
     (let ls = sort_names names \<lparr>ls_firsts = [], ls_spares = [], ls_deleted = []\<rparr> in
      ls\<lparr>ls_firsts := sort (ls_firsts ls), ls_spares := sort (ls_spares ls)\<rparr>)"

section \<open>Ancestors of the directory\<close>

fun split_char :: "char \<Rightarrow> string \<Rightarrow> string list" where
  "split_char c [] = [[]]"
| "split_char c (x # xs) =
     (if x = c then [] # split_char c xs
      else case split_char c xs of y # ys \<Rightarrow> (x # y) # ys | [] \<Rightarrow> [[x]])"

definition components_of :: "string \<Rightarrow> string list" where
  "components_of dir = filter (\<lambda>c. c \<noteq> [] \<and> c \<noteq> ''.'') (split_char (CHR ''/'') dir)"

definition join_path :: "string \<Rightarrow> string \<Rightarrow> string" where
  "join_path current component =
     (if current = ''.'' then component
      else if current = ''/'' then ''/'' @ component
      else current @ ''/'' @ component)"

fun ancestors_from :: "string \<Rightarrow> string list \<Rightarrow> string list" where
  "ancestors_from current [] = []"
| "ancestors_from current (c # cs) = current # ancestors_from (join_path current c) cs"

definition path_root :: "string \<Rightarrow> string" where
  "path_root dir = (if dir \<noteq> [] \<and> hd dir = CHR ''/'' then ''/'' else ''.'')"

definition ancestors_of :: "string \<Rightarrow> string list" where
  "ancestors_of dir = ancestors_from (path_root dir) (components_of dir)"

section \<open>Decimals\<close>

lemma strip_prefix_append [simp]: "strip_prefix p (p @ s) = Some s"
  by (simp add: strip_prefix_def)

lemma strip_suffix_append [simp]: "strip_suffix p (s @ p) = Some s"
  by (simp add: strip_suffix_def)

lemma strip_prefix_Some: "strip_prefix p s = Some r \<longleftrightarrow> s = p @ r"
  by (auto simp: strip_prefix_def) (metis append_take_drop_id)

lemma strip_suffix_Some: "strip_suffix p s = Some r \<longleftrightarrow> s = r @ p"
  by (auto simp: strip_suffix_def strip_prefix_Some) (metis rev_append rev_rev_ident)

lemma digit_simps [simp]: "is_digit (digit n)" "digit_value (digit n) = n mod 10"
proof -
  have "(of_char (digit n) :: nat) = 48 + n mod 10" by (simp add: digit_def)
  then show "is_digit (digit n)" "digit_value (digit n) = n mod 10" by (simp_all add: is_digit_def digit_value_def)
qed

lemma length_padded [simp]: "length (padded w n) = w"
  by (induction w arbitrary: n) simp_all

lemma padded_digits [simp]: "list_all is_digit (padded w n)"
  by (induction w arbitrary: n) simp_all

lemma parse_nat_snoc: "parse_nat (s @ [c]) = 10 * parse_nat s + digit_value c"
  by (simp add: parse_nat_def)

lemma parse_padded: "parse_nat (padded w n) = n mod 10 ^ w"
proof (induction w arbitrary: n)
  case (Suc w)
  have "10 * (n div 10 mod 10 ^ w) + n mod 10 = n mod (10 * 10 ^ w)"
    by (simp add: mod_mult2_eq)
  then show ?case using Suc by (simp add: parse_nat_snoc)
qed (simp add: parse_nat_def)

lemma digit_of_value: "is_digit c \<Longrightarrow> digit (digit_value c) = c \<and> digit_value c < 10"
proof -
  assume c: "is_digit c"
  then have "48 + digit_value c mod 10 = (of_char c :: nat)" and "digit_value c < 10"
    by (auto simp: is_digit_def digit_value_def)
  then show ?thesis by (simp add: digit_def)
qed

lemma padded_parse: "list_all is_digit s \<Longrightarrow> padded (length s) (parse_nat s) = s"
proof (induction s rule: rev_induct)
  case (snoc c s)
  then have "digit (digit_value c) = c" "digit_value c < 10" using digit_of_value by simp_all
  moreover from this have "digit (10 * parse_nat s + digit_value c) = c" by (simp add: digit_def)
  ultimately show ?case using snoc by (simp add: parse_nat_snoc)
qed (simp add: parse_nat_def)

lemma u64_digits: "unat (n :: u64) mod 10 ^ 20 = unat n"
  using unsigned_less [of n, where 'a = nat] by simp

lemma u32_digits: "unat (n :: u32) mod 10 ^ 10 = unat n"
  using unsigned_less [of n, where 'a = nat] by simp

section \<open>Names are unambiguous\<close>

lemma parse_padded_u64: "parse_u64 (padded 20 (unat n)) = Some n"
proof -
  have "parse_nat (padded 20 (unat n)) = unat n" using parse_padded [of 20 "unat n"] by (simp only: u64_digits)
  then show ?thesis using unsigned_less [of n, where 'a = nat] by (simp add: parse_u64_def del: padded.simps)
qed

lemma parse_segment_name [simp]: "parse_segment_name (segment_name n) = Some n"
  unfolding parse_segment_name_def segment_name_def strip_prefix_append Option.bind.simps strip_suffix_append
  by (simp add: parse_padded_u64 del: padded.simps)

lemma parse_segment_name_Some: "parse_segment_name name = Some n \<longleftrightarrow> name = segment_name n"
proof
  assume "parse_segment_name name = Some n"
  then obtain digits where d: "name = ''seg-'' @ digits @ ''.wal''" "length digits = 20" "list_all is_digit digits" "parse_u64 digits = Some n"
    by (auto simp: parse_segment_name_def bind_eq_Some_conv strip_prefix_Some strip_suffix_Some split: if_splits)
  then have "unat n = parse_nat digits" by (auto simp: parse_u64_def unat_of_nat split: if_splits)
  then show "name = segment_name n" using padded_parse [OF d(3)] d(1,2) by (simp add: segment_name_def del: padded.simps)
qed (simp add: parse_segment_name)

lemma segment_name_inj [simp]: "segment_name m = segment_name n \<longleftrightarrow> m = n"
  using parse_segment_name by (metis option.inject)

lemma split_once_append: "c \<notin> set a \<Longrightarrow> split_once c (a @ c # b) = Some (a, b)"
  by (induction a) auto

lemma digit_no_dash: "is_digit c \<Longrightarrow> c \<noteq> CHR ''-''"
  by (auto simp: is_digit_def)

lemma digits_no_dash: "CHR ''-'' \<notin> set (padded w n)"
  using padded_digits [of w n] digit_no_dash by (auto simp: list_all_iff)

lemma spare_is_spare: "is_spare (spare_name g k)"
proof -
  have "strip_prefix ''spare-'' (spare_name g k) = Some (padded 10 (unat g) @ ''-'' @ padded 10 (unat k) @ ''.wal'')"
    by (simp only: spare_name_def strip_prefix_append)
  moreover have "strip_suffix ''.wal'' (padded 10 (unat g) @ ''-'' @ padded 10 (unat k) @ ''.wal'') = Some (padded 10 (unat g) @ ''-'' @ padded 10 (unat k))"
    by (simp only: strip_suffix_Some append_assoc)
  ultimately show ?thesis
    using split_once_append [OF digits_no_dash, of 10 "unat g" "padded 10 (unat k)"]
    by (simp add: is_spare_def del: padded.simps)
qed

lemma spare_name_inj: "spare_name g k = spare_name g' k' \<longleftrightarrow> g = g' \<and> k = k'"
proof
  assume eq: "spare_name g k = spare_name g' k'"
  then have "padded 10 (unat g) = padded 10 (unat g')" "padded 10 (unat k) = padded 10 (unat k')"
    by (simp_all add: spare_name_def append_eq_append_conv del: padded.simps)
  then have "unat g mod 10 ^ 10 = unat g' mod 10 ^ 10" "unat k mod 10 ^ 10 = unat k' mod 10 ^ 10"
    using parse_padded by metis+
  then show "g = g' \<and> k = k'" by (simp only: u32_digits word_unat_eq_iff)
qed simp

lemma leftover_iff: "is_segment_leftover name \<longleftrightarrow> (\<exists>n. name = segment_name n @ ''.tmp'')"
  by (auto simp: is_segment_leftover_def bind_eq_Some_conv strip_suffix_Some parse_segment_name_Some)

lemma spare_not_segment:
  "is_spare name \<Longrightarrow> parse_segment_name name = None \<and> \<not> is_segment_leftover name"
proof -
  assume "is_spare name"
  then obtain r where r: "name = ''spare-'' @ r"
    by (auto simp: is_spare_def bind_eq_Some_conv strip_prefix_Some split: option.splits)
  have "segment_name n \<noteq> ''spare-'' @ r" "segment_name n @ ''.tmp'' \<noteq> ''spare-'' @ r" for n
    by (simp_all add: segment_name_def del: padded.simps)
  then show ?thesis using r leftover_iff [of name] parse_segment_name_Some [of name]
    by (cases "parse_segment_name name") auto
qed

lemma leftover_not_segment: "parse_segment_name (segment_name n @ ''.tmp'') = None"
proof -
  have "segment_name m \<noteq> segment_name n @ ''.tmp''" for m
    by (rule notI) (drule arg_cong [where f = length], simp add: segment_name_def del: padded.simps)
  then show ?thesis by (metis not_None_eq parse_segment_name_Some)
qed

section \<open>Listings\<close>

lemma sort_names_spec:
  "sort_names names ls =
    \<lparr>ls_firsts = ls_firsts ls @ List.map_filter (\<lambda>name. map_option (\<lambda>n. (n, name)) (parse_segment_name name)) names,
     ls_spares = ls_spares ls @ filter is_spare names,
     ls_deleted = ls_deleted ls @ filter is_segment_leftover names\<rparr>"
proof (induction names arbitrary: ls)
  case (Cons name names)
  consider "is_spare name" | "\<not> is_spare name" "is_segment_leftover name"
    | "\<not> is_spare name" "\<not> is_segment_leftover name" by blast
  then show ?case
  proof cases
    case 1
    then show ?thesis using Cons spare_not_segment [OF 1] by (simp add: map_filter_simps)
  next
    case 2
    then have "parse_segment_name name = None" using leftover_iff leftover_not_segment by auto
    then show ?thesis using Cons 2 by (simp add: map_filter_simps)
  next
    case 3
    then show ?thesis using Cons by (simp add: map_filter_simps split: option.splits)
  qed
qed (simp add: map_filter_simps)

lemma map_filter_segments:
  "List.map_filter (\<lambda>name. map_option (\<lambda>n. (n, name)) (parse_segment_name name)) names =
   map (\<lambda>name. (the (parse_segment_name name), name)) (filter (\<lambda>name. parse_segment_name name \<noteq> None) names)"
  by (induction names) (auto simp: map_filter_simps split: option.splits)

lemma sorted_fst: "sorted xs \<Longrightarrow> sorted (map fst xs)" for xs :: "('a :: linorder \<times> 'b :: linorder) list"
  by (induction xs) (auto simp: less_eq_prod_def)

lemma list_segments_spec:
  assumes "distinct names"
  shows "sorted_wrt (<) (map fst (ls_firsts (list_segments names))) \<and>
    set (ls_firsts (list_segments names)) = {(n, name). name \<in> set names \<and> name = segment_name n} \<and>
    set (ls_spares (list_segments names)) = {name \<in> set names. is_spare name} \<and>
    set (ls_deleted (list_segments names)) = {name \<in> set names. is_segment_leftover name}"
proof -
  let ?fs = "map (\<lambda>name. (the (parse_segment_name name), name)) (filter (\<lambda>name. parse_segment_name name \<noteq> None) names)"
  have ls: "ls_firsts (list_segments names) = sort ?fs"
    by (simp add: list_segments_def sort_names_spec map_filter_segments Let_def)
  have set: "set ?fs = {(n, name). name \<in> set names \<and> name = segment_name n}"
    by (auto simp: parse_segment_name_Some image_iff)
  have "inj_on (\<lambda>name. the (parse_segment_name name)) {name \<in> set names. parse_segment_name name \<noteq> None}"
    by (auto simp: inj_on_def parse_segment_name_Some)
  then have "distinct (map fst ?fs)" using assms by (simp add: distinct_map comp_def)
  then have "distinct (map fst (sort ?fs))"
    by (simp only: distinct_map distinct_sort set_sort)
  moreover have "sorted (map fst (sort ?fs))"
    by (rule sorted_fst [OF sorted_sort])
  ultimately have "sorted_wrt (<) (map fst (sort ?fs))" by (simp add: strict_sorted_iff)
  then show ?thesis using ls set
    by (simp add: list_segments_def sort_names_spec Let_def)
qed

section \<open>Paths\<close>

fun joined :: "string list \<Rightarrow> string" where
  "joined [] = []"
| "joined [c] = c"
| "joined (c # cs) = c @ ''/'' @ joined cs"

lemma ancestors_from_prefixes:
  "ancestors_from current cs = map (\<lambda>k. foldl join_path current (take k cs)) [0 ..< length cs]"
proof (induction cs arbitrary: current)
  case (Cons c cs)
  have "map (\<lambda>k. foldl join_path current (take k (c # cs))) [Suc 0 ..< Suc (length cs)] =
      map (\<lambda>k. foldl join_path (join_path current c) (take k cs)) [0 ..< length cs]"
    by (simp add: map_Suc_upt [symmetric] del: upt_Suc)
  then show ?case using Cons by (simp add: upt_conv_Cons del: upt_Suc)
qed simp

lemma components_proper: "c \<in> set (components_of dir) \<Longrightarrow> c \<noteq> [] \<and> c \<noteq> ''.''"
  by (simp add: components_of_def)

lemma split_char_pieces: "s \<in> set (split_char c xs) \<Longrightarrow> c \<notin> set s"
  by (induction xs arbitrary: s) (auto split: if_splits list.splits)

lemma joined_snoc: "cs \<noteq> [] \<Longrightarrow> joined (cs @ [c]) = joined cs @ ''/'' @ c"
  by (induction cs rule: joined.induct) simp_all

text \<open>Below the root a path is its components joined; it is never \<open>.\<close> or \<open>/\<close> again.\<close>

lemma foldl_join_path:
  assumes "\<forall>c \<in> set cs. c \<noteq> [] \<and> c \<noteq> ''.'' \<and> CHR ''/'' \<notin> set c" "cs \<noteq> []"
  shows "foldl join_path ''.'' cs = joined cs \<and> foldl join_path ''/'' cs = ''/'' @ joined cs \<and>
    joined cs \<noteq> ''.'' \<and> joined cs \<noteq> ''/'' \<and> joined cs \<noteq> []"
  using assms
proof (induction cs rule: rev_induct)
  case (snoc c cs)
  show ?case
  proof (cases "cs = []")
    case True
    then show ?thesis using snoc.prems by (auto simp: join_path_def)
  next
    case False
    then have IH: "foldl join_path ''.'' cs = joined cs" "foldl join_path ''/'' cs = ''/'' @ joined cs"
      "joined cs \<noteq> ''.''" "joined cs \<noteq> ''/''" "joined cs \<noteq> []" using snoc by auto
    have "joined (cs @ [c]) = joined cs @ ''/'' @ c" by (rule joined_snoc [OF False])
    moreover have "join_path (joined cs) c = joined cs @ ''/'' @ c" "join_path (''/'' @ joined cs) c = ''/'' @ joined cs @ ''/'' @ c"
      using IH(3-5) by (simp_all add: join_path_def)
    moreover have "joined cs @ ''/'' @ c \<noteq> ''.''" "joined cs @ ''/'' @ c \<noteq> ''/''"
      using IH(5) by (cases "joined cs"; simp)+
    ultimately show ?thesis using IH(1,2) by simp
  qed
qed simp

section \<open>Properties\<close>

text \<open>C31. Names are unambiguous: a segment's name parses back to its first batch and nothing else parses to it;
  spare names are spares, one per generation and number; and no name is taken for two of segment, spare and
  leftover of a crashed creation.\<close>

theorem names_unambiguous:
  "(parse_segment_name name = Some n \<longleftrightarrow> name = segment_name n) \<and>
   (is_segment_leftover name \<longleftrightarrow> (\<exists>n. name = segment_name n @ ''.tmp'')) \<and>
   is_spare (spare_name g k) \<and> (spare_name g k = spare_name g' k' \<longleftrightarrow> g = g' \<and> k = k') \<and>
   \<not> (is_spare name \<and> parse_segment_name name \<noteq> None) \<and>
   \<not> (is_spare name \<and> is_segment_leftover name) \<and>
   \<not> (is_segment_leftover name \<and> parse_segment_name name \<noteq> None)"
proof (intro conjI)
  show "\<not> (is_segment_leftover name \<and> parse_segment_name name \<noteq> None)"
    using leftover_not_segment leftover_iff by auto
  show "\<not> (is_spare name \<and> parse_segment_name name \<noteq> None)" by (cases "is_spare name") (simp_all add: spare_not_segment)
qed (use spare_not_segment [of name] in \<open>simp_all add: parse_segment_name_Some leftover_iff spare_is_spare spare_name_inj\<close>)

text \<open>C32. Opening sees every segment once, in the order of their first batches: in a directory whose names are
  distinct, the segments listed are exactly the names that name one, strictly sorted by first batch, the
  spares are the spare names and the names deleted are the leftovers, and nothing is in two of them.\<close>

theorem listing_exact:
  assumes "distinct names"
  shows "sorted_wrt (<) (map fst (ls_firsts (list_segments names))) \<and>
    set (ls_firsts (list_segments names)) = {(n, name). name \<in> set names \<and> name = segment_name n} \<and>
    set (ls_spares (list_segments names)) = {name \<in> set names. is_spare name} \<and>
    set (ls_deleted (list_segments names)) = {name \<in> set names. is_segment_leftover name}"
  using assms by (rule list_segments_spec)

text \<open>Every name on the way to the journal's directory is synced: the directories \<open>ancestors_of\<close> gives for a
  directory are the root it starts from and then each proper prefix of its path, from the root down, each
  the parent of the next component.\<close>

theorem ancestors_are_prefixes:
  "ancestors_of dir =
    map (\<lambda>k. if k = 0 then path_root dir
      else (if path_root dir = ''/'' then ''/'' else []) @ joined (take k (components_of dir)))
    [0 ..< length (components_of dir)]"
proof -
  have proper: "\<forall>c \<in> set (components_of dir). c \<noteq> [] \<and> c \<noteq> ''.'' \<and> CHR ''/'' \<notin> set c"
    by (auto simp: components_of_def dest: split_char_pieces)
  have "foldl join_path (path_root dir) (take k (components_of dir)) =
      (if k = 0 then path_root dir else (if path_root dir = ''/'' then ''/'' else []) @ joined (take k (components_of dir)))"
    if "k < length (components_of dir)" for k
  proof (cases "k = 0")
    case False
    then have "take k (components_of dir) \<noteq> []" using that by auto
    moreover have "\<forall>c \<in> set (take k (components_of dir)). c \<noteq> [] \<and> c \<noteq> ''.'' \<and> CHR ''/'' \<notin> set c"
      using proper set_take_subset by fast
    ultimately show ?thesis using foldl_join_path [of "take k (components_of dir)"] False by (auto simp: path_root_def)
  qed simp
  then show ?thesis by (simp add: ancestors_of_def ancestors_from_prefixes)
qed

lemma listing_exact_witness:
  "distinct [segment_name 7, spare_name 1 2, segment_name 3] \<and>
   sorted_wrt (<) (map fst (ls_firsts (list_segments [segment_name 7, spare_name 1 2, segment_name 3]))) \<and>
   (3, segment_name 3) \<in> set (ls_firsts (list_segments [segment_name 7, spare_name 1 2, segment_name 3]))"
proof -
  have "segment_name n \<noteq> spare_name 1 2" for n
    using spare_not_segment [OF spare_is_spare, of 1 2] parse_segment_name [of n] by force
  then have "distinct [segment_name 7, spare_name 1 2, segment_name 3]"
    by (simp add: not_sym del: segment_name_inj) (simp only: segment_name_inj, simp)
  from listing_exact [OF this] this show ?thesis by simp
qed

end
