(* ===== verification/Ordered_Map.thy ===== *)
theory Ordered_Map
  imports Prelude "HOL-Library.Multiset"
begin

text \<open>
  The standard library's \<open>BTreeMap\<close> as the code uses it: an association list in strictly ascending key
  order. The locale \<open>keyed_store\<close> is the contract its clients rely on, with what they prove of counts of
  stored values.
\<close>

section \<open>The map\<close>

type_synonym ('k, 'v) omap = "('k \<times> 'v) list"

definition om_ok :: "('k :: linorder, 'v) omap \<Rightarrow> bool" where
  "om_ok m = sorted_wrt (<) (map fst m)"

definition om_get :: "('k, 'v) omap \<Rightarrow> 'k \<Rightarrow> 'v option" where
  "om_get m k = map_of m k"

fun om_insert :: "'k :: linorder \<Rightarrow> 'v \<Rightarrow> ('k, 'v) omap \<Rightarrow> 'v option \<times> ('k, 'v) omap" where
  "om_insert k v [] = (None, [(k, v)])"
| "om_insert k v ((k', v') # m) =
     (if k < k' then (None, (k, v) # (k', v') # m)
      else if k = k' then (Some v', (k, v) # m)
      else case om_insert k v m of (old, m) \<Rightarrow> (old, (k', v') # m))"

fun om_remove :: "'k \<Rightarrow> ('k, 'v) omap \<Rightarrow> 'v option \<times> ('k, 'v) omap" where
  "om_remove k [] = (None, [])"
| "om_remove k ((k', v') # m) =
     (if k = k' then (Some v', m)
      else case om_remove k m of (old, m) \<Rightarrow> (old, (k', v') # m))"

text \<open>The keys of \<open>BTreeMap::range(lo..hi)\<close>, in order.\<close>

definition om_range :: "'k :: linorder \<Rightarrow> 'k \<Rightarrow> ('k, 'v) omap \<Rightarrow> 'k list" where
  "om_range lo hi m = filter (\<lambda>k. lo \<le> k \<and> k < hi) (map fst m)"

definition om_values :: "('k, 'v) omap \<Rightarrow> 'v multiset" where
  "om_values m = mset (map snd m)"

section \<open>The contract\<close>

locale keyed_store =
  fixes ok :: "'m \<Rightarrow> bool"
    and get :: "'m \<Rightarrow> 'k \<Rightarrow> 'v option"
    and ins :: "'k \<Rightarrow> 'v \<Rightarrow> 'm \<Rightarrow> 'v option \<times> 'm"
    and del :: "'k \<Rightarrow> 'm \<Rightarrow> 'v option \<times> 'm"
    and vals :: "'m \<Rightarrow> 'v multiset"
  assumes ins_ok: "ok m \<Longrightarrow> ok (snd (ins k v m))"
    and del_ok: "ok m \<Longrightarrow> ok (snd (del k m))"
    and ins_old: "ok m \<Longrightarrow> fst (ins k v m) = get m k"
    and del_old: "ok m \<Longrightarrow> fst (del k m) = get m k"
    and ins_get: "ok m \<Longrightarrow> get (snd (ins k v m)) = (get m)(k \<mapsto> v)"
    and del_get: "ok m \<Longrightarrow> get (snd (del k m)) = (get m)(k := None)"
    and ins_vals: "ok m \<Longrightarrow> vals (snd (ins k v m)) + (case get m k of None \<Rightarrow> {#} | Some old \<Rightarrow> {#old#}) = add_mset v (vals m)"
    and del_vals: "ok m \<Longrightarrow> vals (snd (del k m)) + (case get m k of None \<Rightarrow> {#} | Some old \<Rightarrow> {#old#}) = vals m"
    and get_vals: "ok m \<Longrightarrow> set_mset (vals m) = {v. \<exists>k. get m k = Some v}"
begin

definition counting :: "('v \<Rightarrow> bool) \<Rightarrow> 'm \<Rightarrow> nat" where
  "counting P m = size (filter_mset P (vals m))"

lemma counting_insert:
  "ok m \<Longrightarrow> counting P (snd (ins k v m)) + (case get m k of None \<Rightarrow> 0 | Some old \<Rightarrow> if P old then 1 else 0)
    = counting P m + (if P v then 1 else 0)"
  using arg_cong [OF ins_vals [of m k v], of "\<lambda>M. size (filter_mset P M)"]
  by (auto simp: counting_def split: option.splits)

lemma counting_remove:
  "ok m \<Longrightarrow> counting P (snd (del k m)) + (case get m k of None \<Rightarrow> 0 | Some old \<Rightarrow> if P old then 1 else 0) = counting P m"
  using arg_cong [OF del_vals [of m k], of "\<lambda>M. size (filter_mset P M)"]
  by (auto simp: counting_def split: option.splits)

lemma counting_zero: "ok m \<Longrightarrow> counting P m = 0 \<longleftrightarrow> (\<forall>k v. get m k = Some v \<longrightarrow> \<not> P v)"
  by (auto simp: counting_def get_vals simp flip: set_mset_eq_empty_iff)

lemma counting_pos: "ok m \<Longrightarrow> get m k = Some v \<Longrightarrow> P v \<Longrightarrow> 0 < counting P m"
  using counting_zero [of m P] by (metis gr0I)

end

section \<open>The map meets it\<close>

lemma om_insert_keys: "fst ` set (snd (om_insert k v m)) = insert k (fst ` set m)"
proof (induction k v m rule: om_insert.induct)
  case (2 k v k' v' m)
  then show ?case by (cases "om_insert k v m") (simp add: insert_commute)
qed simp

lemma om_remove_keys: "fst ` set (snd (om_remove k m)) \<subseteq> fst ` set m"
proof (induction k m rule: om_remove.induct)
  case (2 k k' v' m)
  then show ?case by (cases "om_remove k m") (simp add: subset_insertI2)
qed simp

lemma om_ok_Cons: "om_ok ((k, v) # m) \<longleftrightarrow> (\<forall>k' \<in> fst ` set m. k < k') \<and> om_ok m"
  by (simp add: om_ok_def)

lemma om_ok_Nil [simp]: "om_ok []"
  by (simp add: om_ok_def)

lemma om_insert_ok: "om_ok m \<Longrightarrow> om_ok (snd (om_insert k v m))"
proof (induction k v m rule: om_insert.induct)
  case (2 k v k' v' m)
  have keys: "\<forall>x \<in> fst ` set m. k' < x" "om_ok m" using "2.prems" unfolding om_ok_Cons by blast+
  obtain old m' where m': "om_insert k v m = (old, m')" by (cases "om_insert k v m")
  consider "k < k'" | "k = k'" | "k' < k" by fastforce
  then show ?case
  proof cases
    case 1
    then have "\<forall>x \<in> fst ` set ((k', v') # m). k < x" using keys(1) by auto
    then show ?thesis using 1 "2.prems" by (simp only: om_insert.simps if_True snd_conv om_ok_Cons) simp
  next
    case 2
    then show ?thesis using keys by (simp add: om_ok_Cons)
  next
    case 3
    then have ne: "k \<noteq> k'" "\<not> k < k'" by auto
    then have "om_ok m'" using "2.IH" keys m' by auto
    moreover have "\<forall>x \<in> fst ` set m'. k' < x" using om_insert_keys [of k v m] m' keys 3 by simp
    ultimately show ?thesis using ne m' by (simp add: om_ok_Cons)
  qed
qed (simp add: om_ok_def)

lemma om_remove_ok: "om_ok m \<Longrightarrow> om_ok (snd (om_remove k m))"
proof (induction k m rule: om_remove.induct)
  case (2 k k' v' m)
  obtain old m' where m': "om_remove k m = (old, m')" by (cases "om_remove k m")
  have keys: "\<forall>x \<in> fst ` set m. k' < x" "om_ok m" using "2.prems" unfolding om_ok_Cons by blast+
  show ?case
  proof (cases "k = k'")
    case False
    then have "om_ok m'" using "2.IH" keys m' by auto
    moreover have "\<forall>x \<in> fst ` set m'. k' < x" using om_remove_keys [of k m] keys(1) unfolding m' snd_conv by blast
    ultimately show ?thesis using False m' by (simp add: om_ok_Cons)
  qed (use keys in simp)
qed simp

lemma om_get_Cons [simp]: "om_get [] k = None" "om_get ((k', v) # m) k = (if k = k' then Some v else om_get m k)"
  by (simp_all add: om_get_def)

lemma om_get_fresh: "\<forall>k' \<in> fst ` set m. k < k' \<Longrightarrow> om_get m k = None" for m :: "('k :: linorder, 'v) omap"
  by (induction m) auto

lemma om_values_Cons [simp]: "om_values [] = {#}" "om_values ((k, v) # m) = add_mset v (om_values m)"
  by (simp_all add: om_values_def)

lemma om_insert_spec:
  "om_ok m \<Longrightarrow> fst (om_insert k v m) = om_get m k \<and> om_get (snd (om_insert k v m)) = (om_get m)(k \<mapsto> v) \<and>
   om_values (snd (om_insert k v m)) + (case om_get m k of None \<Rightarrow> {#} | Some old \<Rightarrow> {#old#}) = add_mset v (om_values m)"
proof (induction k v m rule: om_insert.induct)
  case (2 k v k' v' m)
  have ok: "\<forall>x \<in> fst ` set m. k' < x" "om_ok m" using "2.prems" unfolding om_ok_Cons by blast+
  obtain old m' where m': "om_insert k v m = (old, m')" by (cases "om_insert k v m")
  consider "k < k'" | "k = k'" | "k' < k" by fastforce
  then show ?case
  proof cases
    case 1
    then have none: "om_get m k = None" using ok(1) by (intro om_get_fresh) auto
    have step: "om_insert k v ((k', v') # m) = (None, (k, v) # (k', v') # m)" using 1 by simp
    show ?thesis unfolding step fst_conv snd_conv using none 1 by auto
  next
    case 2
    have step: "om_insert k v ((k', v') # m) = (Some v', (k, v) # m)" using 2 by simp
    show ?thesis unfolding step fst_conv snd_conv using 2 by auto
  next
    case 3
    have IH: "old = om_get m k" "om_get m' = (om_get m)(k \<mapsto> v)"
      "om_values m' + (case om_get m k of None \<Rightarrow> {#} | Some old \<Rightarrow> {#old#}) = add_mset v (om_values m)"
      using "2.IH" 3 ok m' by auto
    have ne: "k \<noteq> k'" "\<not> k < k'" using 3 by auto
    have step: "om_insert k v ((k', v') # m) = (old, (k', v') # m')" using ne m' by simp
    show ?thesis unfolding step fst_conv snd_conv
    proof (intro conjI ext)
      show "old = om_get ((k', v') # m) k" using ne IH(1) by simp
      show "om_get ((k', v') # m') x = ((om_get ((k', v') # m))(k \<mapsto> v)) x" for x using ne IH(2) by simp
      show "om_values ((k', v') # m') + (case om_get ((k', v') # m) k of None \<Rightarrow> {#} | Some old \<Rightarrow> {#old#})
          = add_mset v (om_values ((k', v') # m))" using ne IH(3) by simp
    qed
  qed
qed (simp add: fun_eq_iff)

lemma om_remove_spec:
  "om_ok m \<Longrightarrow> fst (om_remove k m) = om_get m k \<and> om_get (snd (om_remove k m)) = (om_get m)(k := None) \<and>
   om_values (snd (om_remove k m)) + (case om_get m k of None \<Rightarrow> {#} | Some old \<Rightarrow> {#old#}) = om_values m"
proof (induction k m rule: om_remove.induct)
  case (2 k k' v' m)
  have ok: "\<forall>x \<in> fst ` set m. k' < x" "om_ok m" using "2.prems" unfolding om_ok_Cons by blast+
  obtain old m' where m': "om_remove k m = (old, m')" by (cases "om_remove k m")
  show ?case
  proof (cases "k = k'")
    case True
    then have none: "om_get m k = None" using ok(1) by (intro om_get_fresh) simp
    have step: "om_remove k ((k', v') # m) = (Some v', m)" using True by simp
    show ?thesis unfolding step fst_conv snd_conv
    proof (intro conjI ext)
      show "om_get m x = ((om_get ((k', v') # m))(k := None)) x" for x using none True by simp
    qed (use True in simp_all)
  next
    case False
    have IH: "old = om_get m k" "om_get m' = (om_get m)(k := None)"
      "om_values m' + (case om_get m k of None \<Rightarrow> {#} | Some old \<Rightarrow> {#old#}) = om_values m"
      using "2.IH" [OF False ok(2)] unfolding m' fst_conv snd_conv by blast+
    have step: "om_remove k ((k', v') # m) = (old, (k', v') # m')" using False m' by simp
    show ?thesis unfolding step fst_conv snd_conv
    proof (intro conjI ext)
      show "old = om_get ((k', v') # m) k" using False IH(1) by simp
      show "om_get ((k', v') # m') x = ((om_get ((k', v') # m))(k := None)) x" for x using False IH(2) by simp
      show "om_values ((k', v') # m') + (case om_get ((k', v') # m) k of None \<Rightarrow> {#} | Some old \<Rightarrow> {#old#})
          = om_values ((k', v') # m)" using False IH(3) by simp
    qed
  qed
qed (simp add: fun_eq_iff)

lemma om_get_Some_mem: "om_ok m \<Longrightarrow> om_get m k = Some v \<longleftrightarrow> (k, v) \<in> set m"
  unfolding om_get_def
  by (rule map_of_eq_Some_iff) (simp add: om_ok_def strict_sorted_iff)

interpretation om: keyed_store om_ok om_get om_insert om_remove om_values
proof
  fix m :: "('a :: linorder, 'b) omap" and k v
  assume ok: "om_ok m"
  show "om_ok (snd (om_insert k v m))" "om_ok (snd (om_remove k m))"
    using ok by (simp_all add: om_insert_ok om_remove_ok)
  show "fst (om_insert k v m) = om_get m k" "fst (om_remove k m) = om_get m k"
    "om_get (snd (om_insert k v m)) = (om_get m)(k \<mapsto> v)" "om_get (snd (om_remove k m)) = (om_get m)(k := None)"
    "om_values (snd (om_insert k v m)) + (case om_get m k of None \<Rightarrow> {#} | Some old \<Rightarrow> {#old#}) = add_mset v (om_values m)"
    "om_values (snd (om_remove k m)) + (case om_get m k of None \<Rightarrow> {#} | Some old \<Rightarrow> {#old#}) = om_values m"
    using om_insert_spec [OF ok] om_remove_spec [OF ok] by blast+
  show "set_mset (om_values m) = {v. \<exists>k. om_get m k = Some v}"
    by (auto simp: om_values_def om_get_Some_mem [OF ok]) (metis image_eqI snd_conv)
qed

section \<open>Ranges\<close>

lemma om_range_mem: "om_ok m \<Longrightarrow> k \<in> set (om_range lo hi m) \<longleftrightarrow> lo \<le> k \<and> k < hi \<and> om_get m k \<noteq> None"
  by (auto simp: om_range_def om_get_def map_of_eq_None_iff)

lemma om_range_distinct: "om_ok m \<Longrightarrow> distinct (om_range lo hi m)"
  by (simp add: om_range_def om_ok_def strict_sorted_iff)

lemma om_eqI:
  "om_ok m \<Longrightarrow> om_ok m' \<Longrightarrow> om_get m = om_get m' \<Longrightarrow> m = m'"
proof -
  assume ok: "om_ok m" "om_ok m'" and eq: "om_get m = om_get m'"
  have "set m = set m'" using om_get_Some_mem [OF ok(1)] om_get_Some_mem [OF ok(2)] eq by auto
  moreover have "sorted_wrt (\<lambda>x y. fst x < fst y) m" "sorted_wrt (\<lambda>x y. fst x < fst y) m'"
    using ok by (simp_all add: om_ok_def sorted_wrt_map)
  ultimately show "m = m'"
  proof (induction m arbitrary: m')
    case (Cons a m)
    then obtain b n where m': "m' = b # n" by (cases m') auto
    have "a = b"
    proof (rule ccontr)
      assume "a \<noteq> b"
      then have "b \<in> set m" "a \<in> set n" using Cons.prems(1) m' by auto
      then have "fst a < fst b" "fst b < fst a" using Cons.prems(2,3) m' by auto
      then show False by simp
    qed
    moreover have "a \<notin> set m" "b \<notin> set n" using Cons.prems(2,3) m' by auto
    ultimately have "set m = set n" using Cons.prems(1) m' by auto
    then show ?case using Cons m' \<open>a = b\<close> by auto
  qed simp
qed

end
