(* ===== verification/Journal_Index.thy ===== *)
theory Journal_Index
  imports Journal_Recover Ordered_Map
begin

text \<open>
  A journal in memory and its index (\<open>crates/moonpool-journal/src/journal.rs\<close>): which entry each position
  holds, and how many live entries each segment holds. Every \<open>expect\<close>, \<open>assert!\<close> and panicking call of the
  standard library on the way is the error \<open>AssertionFailed\<close>; the theory shows that none is reached and that
  the index implements a map from positions to entries.
\<close>

section \<open>The journal\<close>

text \<open>
  The provider, the directory and the direct-I/O policy are not state of the model: a file is its bytes. The
  layout a simulator asks for (\<open>publish_layout\<close>) is not part of it. A spare is its name and the file behind it.
\<close>

record journal =
  jn_id :: journal_id
  jn_tag :: u32
  jn_durability :: durability
  jn_geometry :: geometry
  jn_meta_file :: bytes
  jn_meta :: meta
  jn_segments :: "segment list"
  jn_index :: "(u64, located) omap"
  jn_last_batch :: u64
  jn_ambiguous_batch :: "u64 option"
  jn_generation :: u32
  jn_poisoned :: bool
  jn_spare :: "(string \<times> bytes) option"
  jn_spares_named :: u32
  jn_onto_spare :: nat
  jn_created :: nat

section \<open>The index\<close>

text \<open>\<open>segment_index\<close> is a binary search over segments sorted by their first batch; \<open>None\<close> is its \<open>expect\<close>.\<close>

fun find_segment :: "segment list \<Rightarrow> u64 \<Rightarrow> nat option" where
  "find_segment [] first_batch = None"
| "find_segment (s # ss) first_batch =
     (if sg_first_batch s = first_batch then Some 0 else map_option Suc (find_segment ss first_batch))"

definition segment_index :: "journal \<Rightarrow> u64 \<Rightarrow> nat option" where
  "segment_index j first_batch = find_segment (jn_segments j) first_batch"

definition set_live :: "nat \<Rightarrow> (nat \<Rightarrow> nat) \<Rightarrow> journal \<Rightarrow> journal" where
  "set_live at f j =
     j\<lparr>jn_segments := (jn_segments j)[at := (jn_segments j ! at)\<lparr>sg_live := f (sg_live (jn_segments j ! at))\<rparr>]\<rparr>"

definition release :: "located \<Rightarrow> journal \<Rightarrow> commit_error + journal" where
  "release old j =
     (case segment_index j (lo_segment old) of None \<Rightarrow> Inl AssertionFailed
      | Some at \<Rightarrow>
        if sg_live (jn_segments j ! at) = 0 then Inl AssertionFailed
        else Inr (set_live at (\<lambda>n. n - 1) j))"

fun remove_positions :: "u64 list \<Rightarrow> journal \<Rightarrow> commit_error + journal" where
  "remove_positions [] j = Inr j"
| "remove_positions (p # ps) j =
     (case om_remove p (jn_index j) of
        (None, _) \<Rightarrow> Inl AssertionFailed
      | (Some old, index) \<Rightarrow> and_then (release old (j\<lparr>jn_index := index\<rparr>)) (remove_positions ps))"

fun apply_op :: "jop \<Rightarrow> journal \<Rightarrow> commit_error + journal" where
  "apply_op (JPut position at) j =
     (case segment_index j (lo_segment at) of None \<Rightarrow> Inl AssertionFailed
      | Some new \<Rightarrow>
        let j = set_live new Suc j in
        case om_insert position at (jn_index j) of (old, index) \<Rightarrow>
          let j = j\<lparr>jn_index := index\<rparr> in
          (case old of None \<Rightarrow> Inr j | Some old \<Rightarrow> release old j))"
| "apply_op (JClear start stop) j =
     (if stop < start then Inl AssertionFailed
      else remove_positions (om_range start stop (jn_index j)) j)"

fun apply_ops :: "jop list \<Rightarrow> journal \<Rightarrow> commit_error + journal" where
  "apply_ops [] j = Inr j"
| "apply_ops (op # ops) j = and_then (apply_op op j) (apply_ops ops)"

definition drop_below_floor :: "journal \<Rightarrow> commit_error + journal" where
  "drop_below_floor j = remove_positions (om_range 0 (mt_floor (jn_meta j)) (jn_index j)) j"

definition live_total :: "journal \<Rightarrow> nat" where
  "live_total j = sum_list (map sg_live (jn_segments j))"

definition assert_invariants :: "journal \<Rightarrow> bool" where
  "assert_invariants j =
     (live_total j = length (jn_index j)
      \<and> (case jn_index j of [] \<Rightarrow> True | (p, _) # _ \<Rightarrow> p \<ge> mt_floor (jn_meta j))
      \<and> sorted_wrt (<) (map sg_first_batch (jn_segments j))
      \<and> length (mt_bytes (jn_meta j)) \<le> META_MAX)"

section \<open>What the journal knows\<close>

datatype entry_state = StEmpty | StLive ident u32 | StCorrupt ident | StAmbiguous ident

definition state_of :: "journal \<Rightarrow> located \<Rightarrow> entry_state" where
  "state_of j at =
     (if \<not> lo_damaged at then StLive (lo_id at) (lo_len at)
      else if jn_ambiguous_batch j = Some (lo_batch at) \<and> lo_flags at AND FLAG_ORDERED = 0 then StAmbiguous (lo_id at)
      else StCorrupt (lo_id at))"

definition state_at :: "journal \<Rightarrow> u64 \<Rightarrow> entry_state" where
  "state_at j position =
     (case om_get (jn_index j) position of None \<Rightarrow> StEmpty | Some at \<Rightarrow> state_of j at)"

definition positions :: "journal \<Rightarrow> (u64 \<times> entry_state) list" where
  "positions j = map (\<lambda>(p, at). (p, state_of j at)) (jn_index j)"

definition last_position :: "journal \<Rightarrow> u64 option" where
  "last_position j = (if jn_index j = [] then None else Some (fst (last (jn_index j))))"

section \<open>The invariant of the index\<close>

definition firsts :: "journal \<Rightarrow> u64 list" where
  "firsts j = map sg_first_batch (jn_segments j)"

definition live_in :: "u64 \<Rightarrow> (u64, located) omap \<Rightarrow> nat" where
  "live_in b index = om.counting (\<lambda>at. lo_segment at = b) index"

definition index_ok :: "journal \<Rightarrow> bool" where
  "index_ok j =
     (om_ok (jn_index j) \<and> sorted_wrt (<) (firsts j)
      \<and> (\<forall>p at. om_get (jn_index j) p = Some at \<longrightarrow> lo_segment at \<in> set (firsts j))
      \<and> (\<forall>s \<in> set (jn_segments j). sg_live s = live_in (sg_first_batch s) (jn_index j)))"

text \<open>The live counts before the entry \<open>extra\<close> of the index is released.\<close>

definition live_with :: "located option \<Rightarrow> journal \<Rightarrow> bool" where
  "live_with extra j =
     (om_ok (jn_index j) \<and> sorted_wrt (<) (firsts j)
      \<and> (\<forall>p at. om_get (jn_index j) p = Some at \<longrightarrow> lo_segment at \<in> set (firsts j))
      \<and> (\<forall>at. extra = Some at \<longrightarrow> lo_segment at \<in> set (firsts j))
      \<and> (\<forall>s \<in> set (jn_segments j). sg_live s = live_in (sg_first_batch s) (jn_index j)
           + (case extra of None \<Rightarrow> 0 | Some at \<Rightarrow> if lo_segment at = sg_first_batch s then 1 else 0)))"

lemma live_with_None: "live_with None j = index_ok j"
  by (simp add: live_with_def index_ok_def)

lemma find_segment_Some:
  "find_segment ss b = Some i \<Longrightarrow> i < length ss \<and> sg_first_batch (ss ! i) = b"
  by (induction ss arbitrary: i) (auto split: if_splits)

lemma find_segment_None: "find_segment ss b = None \<longleftrightarrow> b \<notin> sg_first_batch ` set ss"
  by (induction ss) auto

lemma segment_index_mem: "b \<in> set (firsts j) \<Longrightarrow> \<exists>i. segment_index j b = Some i \<and> i < length (jn_segments j)
    \<and> sg_first_batch (jn_segments j ! i) = b"
  using find_segment_None [of "jn_segments j" b] find_segment_Some [of "jn_segments j" b]
  by (cases "find_segment (jn_segments j) b") (auto simp: firsts_def segment_index_def)

lemma firsts_set_live [simp]: "i < length (jn_segments j) \<Longrightarrow> firsts (set_live i f j) = firsts j"
  by (simp add: firsts_def set_live_def map_update list_update_same_conv)

lemma set_live_simps [simp]:
  "jn_index (set_live i f j) = jn_index j" "jn_meta (set_live i f j) = jn_meta j"
  by (simp_all add: set_live_def)

lemma firsts_index [simp]: "firsts (j\<lparr>jn_index := x\<rparr>) = firsts j"
  by (simp add: firsts_def)

lemma sorted_nth_first:
  "sorted_wrt (<) (firsts j) \<Longrightarrow> i < length (jn_segments j) \<Longrightarrow> s \<in> set ((jn_segments j)[i := x]) \<Longrightarrow>
   s = x \<or> (s \<in> set (jn_segments j) \<and> sg_first_batch s \<noteq> sg_first_batch (jn_segments j ! i))"
proof -
  assume so: "sorted_wrt (<) (firsts j)" and i: "i < length (jn_segments j)" and s: "s \<in> set ((jn_segments j)[i := x])"
  then obtain k where k: "k < length (jn_segments j)" "(jn_segments j)[i := x] ! k = s" by (auto simp: in_set_conv_nth)
  have d: "distinct (map sg_first_batch (jn_segments j))" using so by (simp add: firsts_def strict_sorted_iff)
  show ?thesis
  proof (cases "k = i")
    case False
    then have "s = jn_segments j ! k" using k i by simp
    moreover have "sg_first_batch (jn_segments j ! k) \<noteq> sg_first_batch (jn_segments j ! i)"
      using d k i False by (metis length_map nth_eq_iff_index_eq nth_map)
    ultimately show ?thesis using k by simp
  qed (use k i in simp)
qed

text \<open>Changing one segment's count changes what the counts stand for accordingly.\<close>

lemma set_live_counts:
  assumes so: "sorted_wrt (<) (firsts j)" and i: "i < length (jn_segments j)"
    and live: "\<forall>s \<in> set (jn_segments j). sg_live s = n (sg_first_batch s)"
    and at: "f (n (sg_first_batch (jn_segments j ! i))) = n' (sg_first_batch (jn_segments j ! i))"
    and other: "\<And>b. b \<noteq> sg_first_batch (jn_segments j ! i) \<Longrightarrow> n b = n' b"
  shows "\<forall>s \<in> set (jn_segments (set_live i f j)). sg_live s = n' (sg_first_batch s)"
proof
  fix s assume "s \<in> set (jn_segments (set_live i f j))"
  then have "s \<in> set ((jn_segments j)[i := (jn_segments j ! i)\<lparr>sg_live := f (sg_live (jn_segments j ! i))\<rparr>])"
    by (simp add: set_live_def)
  from sorted_nth_first [OF so i this] show "sg_live s = n' (sg_first_batch s)"
    using live at other i by auto
qed

text \<open>What the index operations leave alone: everything but the index and the live counts.\<close>

definition frozen :: "journal \<Rightarrow> journal" where
  "frozen j = j\<lparr>jn_index := [], jn_segments := map (\<lambda>s. s\<lparr>sg_live := 0\<rparr>) (jn_segments j)\<rparr>"

lemma frozen_simps [simp]:
  "frozen (j\<lparr>jn_index := x\<rparr>) = frozen j" "i < length (jn_segments j) \<Longrightarrow> frozen (set_live i f j) = frozen j"
  by (simp_all add: frozen_def set_live_def map_update list_update_same_conv)

lemma frozen_same:
  assumes "frozen j = frozen j'"
  shows "jn_meta j = jn_meta j'" "firsts j = firsts j'" "length (jn_segments j) = length (jn_segments j')"
    "jn_last_batch j = jn_last_batch j'" "jn_poisoned j = jn_poisoned j'"
proof -
  have m: "map (\<lambda>s. s\<lparr>sg_live := 0\<rparr>) (jn_segments j) = map (\<lambda>s. s\<lparr>sg_live := 0\<rparr>) (jn_segments j')"
    using arg_cong [OF assms, of jn_segments] by (simp add: frozen_def)
  then show "length (jn_segments j) = length (jn_segments j')" by (metis length_map)
  have "map sg_first_batch (map (\<lambda>s. s\<lparr>sg_live := 0\<rparr>) (jn_segments j)) = map sg_first_batch (map (\<lambda>s. s\<lparr>sg_live := 0\<rparr>) (jn_segments j'))"
    using m by simp
  then show "firsts j = firsts j'" by (simp add: firsts_def comp_def)
  show "jn_meta j = jn_meta j'" "jn_last_batch j = jn_last_batch j'" "jn_poisoned j = jn_poisoned j'"
    using arg_cong [OF assms, of jn_meta] arg_cong [OF assms, of jn_last_batch] arg_cong [OF assms, of jn_poisoned]
    by (simp_all add: frozen_def)
qed

lemma release_ok:
  assumes "live_with (Some old) j"
  shows "\<exists>j'. release old j = Inr j' \<and> index_ok j' \<and> jn_index j' = jn_index j \<and> frozen j' = frozen j"
proof -
  have so: "sorted_wrt (<) (firsts j)" and mem: "lo_segment old \<in> set (firsts j)"
    and live: "\<forall>s \<in> set (jn_segments j). sg_live s = live_in (sg_first_batch s) (jn_index j)
      + (if lo_segment old = sg_first_batch s then 1 else 0)"
    using assms by (simp_all add: live_with_def)
  obtain i where i: "segment_index j (lo_segment old) = Some i" "i < length (jn_segments j)"
    "sg_first_batch (jn_segments j ! i) = lo_segment old"
    using segment_index_mem [OF mem] by blast
  have pos: "sg_live (jn_segments j ! i) \<noteq> 0" using live i by auto
  have "\<forall>s \<in> set (jn_segments (set_live i (\<lambda>n. n - 1) j)). sg_live s = live_in (sg_first_batch s) (jn_index j)"
    by (rule set_live_counts [OF so i(2), of "\<lambda>b. live_in b (jn_index j) + (if lo_segment old = b then 1 else 0)"])
      (use live i in auto)
  then have "index_ok (set_live i (\<lambda>n. n - 1) j)" using assms i by (simp add: index_ok_def live_with_def)
  then show ?thesis using i pos by (simp add: release_def)
qed

lemma remove_live:
  assumes "index_ok j" "om_get (jn_index j) p = Some old"
  shows "live_with (Some old) (j\<lparr>jn_index := snd (om_remove p (jn_index j))\<rparr>)"
proof -
  have ok: "om_ok (jn_index j)" using assms by (simp add: index_ok_def)
  have "live_in b (jn_index j) = live_in b (snd (om_remove p (jn_index j))) + (if lo_segment old = b then 1 else 0)" for b
    using om.counting_remove [OF ok, of "\<lambda>at. lo_segment at = b" p] assms(2) by (simp add: live_in_def)
  then show ?thesis using assms om.del_ok [OF ok] om.del_get [OF ok]
    by (auto simp: live_with_def index_ok_def split: if_splits)
qed

lemma remove_positions_ok:
  "index_ok j \<Longrightarrow> distinct ps \<Longrightarrow> \<forall>p \<in> set ps. om_get (jn_index j) p \<noteq> None \<Longrightarrow>
   \<exists>j'. remove_positions ps j = Inr j' \<and> index_ok j' \<and> frozen j' = frozen j \<and>
     om_get (jn_index j') = (\<lambda>p. if p \<in> set ps then None else om_get (jn_index j) p)"
proof (induction ps arbitrary: j)
  case (Cons p ps)
  have ok: "om_ok (jn_index j)" using Cons.prems by (simp add: index_ok_def)
  obtain old where old: "om_get (jn_index j) p = Some old" using Cons.prems(3) by auto
  define j1 where "j1 = j\<lparr>jn_index := snd (om_remove p (jn_index j))\<rparr>"
  obtain j2 where j2: "release old j1 = Inr j2" "index_ok j2" "jn_index j2 = jn_index j1" "frozen j2 = frozen j1"
    using release_ok [OF remove_live [OF Cons.prems(1) old]] j1_def by blast
  have get: "om_get (jn_index j2) = (om_get (jn_index j))(p := None)" using j2(3) om.del_get [OF ok] by (simp add: j1_def)
  have "\<forall>q \<in> set ps. om_get (jn_index j2) q \<noteq> None" using get Cons.prems(2,3) by auto
  then obtain j3 where j3: "remove_positions ps j2 = Inr j3" "index_ok j3" "frozen j3 = frozen j2"
    "om_get (jn_index j3) = (\<lambda>q. if q \<in> set ps then None else om_get (jn_index j2) q)"
    using Cons.IH [OF j2(2)] Cons.prems(2) by auto
  have "remove_positions (p # ps) j = Inr j3"
    using om.del_old [OF ok, of p] old j2 j3(1) j1_def by (cases "om_remove p (jn_index j)") simp
  moreover have "om_get (jn_index j3) = (\<lambda>q. if q \<in> set (p # ps) then None else om_get (jn_index j) q)"
    using j3(4) get by (auto simp: fun_eq_iff)
  ultimately show ?case using j2 j3 by (auto simp: j1_def)
qed simp

section \<open>The index implements a map\<close>

definition op_placed :: "journal \<Rightarrow> jop \<Rightarrow> bool" where
  "op_placed j op = (case op of JPut _ at \<Rightarrow> lo_segment at \<in> set (firsts j) | JClear a z \<Rightarrow> a \<le> z)"

fun map_op :: "jop \<Rightarrow> (u64 \<Rightarrow> located option) \<Rightarrow> u64 \<Rightarrow> located option" where
  "map_op (JPut p at) m = m(p \<mapsto> at)"
| "map_op (JClear a z) m = (\<lambda>p. if a \<le> p \<and> p < z then None else m p)"

definition map_ops :: "jop list \<Rightarrow> (u64 \<Rightarrow> located option) \<Rightarrow> u64 \<Rightarrow> located option" where
  "map_ops ops m = foldl (\<lambda>m op. map_op op m) m ops"

lemma apply_op_ok:
  assumes j: "index_ok j" and op: "op_placed j op"
  shows "\<exists>j'. apply_op op j = Inr j' \<and> index_ok j' \<and> frozen j' = frozen j \<and>
    om_get (jn_index j') = map_op op (om_get (jn_index j))"
proof (cases op)
  case (JPut p at)
  have ok: "om_ok (jn_index j)" and so: "sorted_wrt (<) (firsts j)" using j by (simp_all add: index_ok_def)
  obtain i where i: "segment_index j (lo_segment at) = Some i" "i < length (jn_segments j)"
    "sg_first_batch (jn_segments j ! i) = lo_segment at"
    using segment_index_mem [of "lo_segment at" j] op JPut by (auto simp: op_placed_def)
  define j1 where "j1 = (set_live i Suc j)\<lparr>jn_index := snd (om_insert p at (jn_index j))\<rparr>"
  define old where "old = om_get (jn_index j) p"
  have count: "live_in b (jn_index j) + (if lo_segment at = b then 1 else 0) =
      live_in b (snd (om_insert p at (jn_index j))) + (case old of None \<Rightarrow> 0 | Some o' \<Rightarrow> if lo_segment o' = b then 1 else 0)" for b
    using om.counting_insert [OF ok, of "\<lambda>at. lo_segment at = b" p at] by (simp add: live_in_def old_def)
  have "\<forall>s \<in> set (jn_segments (set_live i Suc j)). sg_live s =
      live_in (sg_first_batch s) (jn_index j) + (if lo_segment at = sg_first_batch s then 1 else 0)"
    by (rule set_live_counts [OF so i(2), of "\<lambda>b. live_in b (jn_index j)"]) (use j i in \<open>auto simp: index_ok_def\<close>)
  moreover have "firsts (set_live i Suc j) = firsts j" using i by simp
  ultimately have lw: "live_with old j1"
    using j op JPut ok om.ins_ok [OF ok] om.ins_get [OF ok] count i
    by (auto simp: live_with_def index_ok_def j1_def op_placed_def old_def split: if_splits)
  have get: "om_get (jn_index j1) = (om_get (jn_index j))(p \<mapsto> at)" using om.ins_get [OF ok] by (simp add: j1_def)
  have fz: "frozen j1 = frozen j" using i by (simp add: j1_def)
  have step: "apply_op op j = (case old of None \<Rightarrow> Inr j1 | Some o' \<Rightarrow> release o' j1)"
    using JPut i om.ins_old [OF ok, of p at]
    by (cases "om_insert p at (jn_index j)") (auto simp: j1_def old_def Let_def split: option.splits)
  show ?thesis
  proof (cases old)
    case None
    then show ?thesis using step lw get fz JPut by (simp add: live_with_None)
  next
    case (Some o')
    then show ?thesis using step release_ok [of o' j1] lw get fz JPut by auto
  qed
next
  case (JClear a z)
  have ok: "om_ok (jn_index j)" using j by (simp add: index_ok_def)
  have "\<forall>p \<in> set (om_range a z (jn_index j)). om_get (jn_index j) p \<noteq> None" using om_range_mem [OF ok] by auto
  from remove_positions_ok [OF j om_range_distinct [OF ok] this] show ?thesis
    using JClear op om_range_mem [OF ok, of _ a z] by (auto simp: op_placed_def fun_eq_iff)
qed

lemma apply_ops_ok:
  "index_ok j \<Longrightarrow> \<forall>op \<in> set ops. op_placed j op \<Longrightarrow>
   \<exists>j'. apply_ops ops j = Inr j' \<and> index_ok j' \<and> frozen j' = frozen j \<and>
     om_get (jn_index j') = map_ops ops (om_get (jn_index j))"
proof (induction ops arbitrary: j)
  case (Cons op ops)
  obtain j1 where j1: "apply_op op j = Inr j1" "index_ok j1" "frozen j1 = frozen j"
    "om_get (jn_index j1) = map_op op (om_get (jn_index j))"
    using apply_op_ok [OF Cons.prems(1), of op] Cons.prems(2) by auto
  have "\<forall>op \<in> set ops. op_placed j1 op"
    using Cons.prems(2) frozen_same(2) [OF j1(3)] by (auto simp: op_placed_def split: jop.splits)
  from Cons.IH [OF j1(2) this] show ?case using j1 by (auto simp: map_ops_def)
qed (simp add: map_ops_def)

lemma drop_below_floor_ok:
  assumes "index_ok j"
  shows "\<exists>j'. drop_below_floor j = Inr j' \<and> index_ok j' \<and> frozen j' = frozen j \<and>
    om_get (jn_index j') = (\<lambda>p. if p < mt_floor (jn_meta j) then None else om_get (jn_index j) p)"
proof -
  have ok: "om_ok (jn_index j)" using assms by (simp add: index_ok_def)
  have "\<forall>p \<in> set (om_range 0 (mt_floor (jn_meta j)) (jn_index j)). om_get (jn_index j) p \<noteq> None" using om_range_mem [OF ok] by auto
  from remove_positions_ok [OF assms om_range_distinct [OF ok] this] show ?thesis
    using om_range_mem [OF ok, of _ 0 "mt_floor (jn_meta j)"] by (auto simp: drop_below_floor_def fun_eq_iff)
qed

text \<open>The counts cover the index.\<close>

lemma live_total_index:
  assumes "index_ok j"
  shows "live_total j = length (jn_index j)"
proof -
  have so: "distinct (map sg_first_batch (jn_segments j))" using assms by (simp add: index_ok_def firsts_def strict_sorted_iff)
  have mem: "\<forall>at \<in># om_values (jn_index j). lo_segment at \<in> set (map sg_first_batch (jn_segments j))"
    using assms om.get_vals [of "jn_index j"] by (auto simp: index_ok_def firsts_def)
  have "sum_list (map (\<lambda>b. size {#at \<in># M. lo_segment at = b#}) bs) = size {#at \<in># M. lo_segment at \<in> set bs#}"
    if "distinct bs" for bs and M :: "located multiset"
    using that
  proof (induction bs)
    case (Cons b bs)
    have "{#at \<in># M. lo_segment at \<in> set (b # bs)#} = {#at \<in># M. lo_segment at = b#} + {#at \<in># M. lo_segment at \<in> set bs#}"
      using Cons.prems by (auto simp: multiset_eq_iff)
    then show ?case using Cons by simp
  qed simp
  from this [OF so, of "om_values (jn_index j)"]
  have "sum_list (map (\<lambda>b. live_in b (jn_index j)) (map sg_first_batch (jn_segments j))) = size (om_values (jn_index j))"
    using filter_mset_cong [OF refl, of "om_values (jn_index j)" "\<lambda>at. lo_segment at \<in> sg_first_batch ` set (jn_segments j)" "\<lambda>_. True"] mem
    by (simp add: live_in_def om.counting_def comp_def)
  moreover have "map sg_live (jn_segments j) = map (\<lambda>b. live_in b (jn_index j)) (map sg_first_batch (jn_segments j))"
    using assms by (simp add: index_ok_def)
  ultimately show ?thesis unfolding live_total_def om_values_def by (simp only: size_mset length_map)
qed

lemma assert_invariants_ok:
  assumes "index_ok j" "\<forall>p. om_get (jn_index j) p \<noteq> None \<longrightarrow> mt_floor (jn_meta j) \<le> p"
    "length (mt_bytes (jn_meta j)) \<le> META_MAX"
  shows "assert_invariants j"
  using assms live_total_index [OF assms(1)]
  by (auto simp: assert_invariants_def index_ok_def firsts_def split: list.splits)

section \<open>Properties\<close>

text \<open>C30. The index implements a map and its counts never fail: applying operations whose entries lie in open
  segments, then dropping what is below the floor, passes every \<open>expect\<close> and \<open>assert\<close>, gives exactly the
  map that the operations describe, keeps the live counts of the segments and the order of the positions,
  changes nothing else of the journal, and ends with the checks of \<open>assert_invariants\<close> true.\<close>

theorem index_implements_map:
  assumes "index_ok j" and "\<forall>op \<in> set ops. op_placed j op" and "length (mt_bytes (jn_meta j)) \<le> META_MAX"
  shows "\<exists>j' j''. apply_ops ops j = Inr j' \<and> drop_below_floor j' = Inr j'' \<and> index_ok j'' \<and> frozen j'' = frozen j \<and>
    om_get (jn_index j'') = (\<lambda>p. if p < mt_floor (jn_meta j) then None else map_ops ops (om_get (jn_index j)) p) \<and>
    assert_invariants j''"
proof -
  obtain j' where j': "apply_ops ops j = Inr j'" "index_ok j'" "frozen j' = frozen j"
    "om_get (jn_index j') = map_ops ops (om_get (jn_index j))"
    using apply_ops_ok [OF assms(1,2)] by blast
  obtain j'' where j'': "drop_below_floor j' = Inr j''" "index_ok j''" "frozen j'' = frozen j'"
    "om_get (jn_index j'') = (\<lambda>p. if p < mt_floor (jn_meta j') then None else om_get (jn_index j') p)"
    using drop_below_floor_ok [OF j'(2)] by blast
  have same: "jn_meta j' = jn_meta j" "jn_meta j'' = jn_meta j"
    using frozen_same(1) [OF j'(3)] frozen_same(1) [OF j''(3)] by simp_all
  have "assert_invariants j''"
    by (rule assert_invariants_ok [OF j''(2)]) (use j''(4) same assms(3) in \<open>auto split: if_splits\<close>)
  then show ?thesis using j' j'' same by auto
qed

definition sample_journal :: journal where
  "sample_journal =
     \<lparr>jn_id = 1, jn_tag = 7, jn_durability = Ordered, jn_geometry = geometry_small, jn_meta_file = [],
      jn_meta = sample_meta\<lparr>mt_floor := 2\<rparr>,
      jn_segments = [\<lparr>sg_first_batch = 5, sg_prev_batch = 4, sg_geometry = geometry_small, sg_persist_next = 0,
        sg_entry_next = 0, sg_live = 0, sg_image = []\<rparr>],
      jn_index = [], jn_last_batch = 5, jn_ambiguous_batch = None, jn_generation = 1, jn_poisoned = False,
      jn_spare = None, jn_spares_named = 0, jn_onto_spare = 0, jn_created = 0\<rparr>"

definition sample_located :: located where
  "sample_located = \<lparr>lo_segment = 5, lo_record_at = 0, lo_offset = 0, lo_len = 3, lo_entry_crc = 0,
     lo_id = replicate 24 0, lo_batch = 5, lo_index = 0, lo_count = 1, lo_flags = 1, lo_damaged = False\<rparr>"

lemma index_implements_map_witness:
  "index_ok sample_journal \<and> list_all (op_placed sample_journal) [JPut 9 sample_located, JPut 1 sample_located, JClear 9 12] \<and>
   length (mt_bytes (jn_meta sample_journal)) \<le> META_MAX \<and>
   (\<exists>j' j''. apply_ops [JPut 9 sample_located, JPut 1 sample_located, JClear 9 12] sample_journal = Inr j' \<and>
      drop_below_floor j' = Inr j'' \<and> om_get (jn_index j'') 9 = None \<and> om_get (jn_index j'') 1 = None)"
proof -
  have ok: "index_ok sample_journal"
    by (simp add: index_ok_def sample_journal_def firsts_def live_in_def om.counting_def)
  have pl: "\<forall>op \<in> set [JPut 9 sample_located, JPut 1 sample_located, JClear 9 12]. op_placed sample_journal op"
    by (simp add: op_placed_def firsts_def sample_journal_def sample_located_def)
  have len: "length (mt_bytes (jn_meta sample_journal)) \<le> META_MAX"
    by (simp add: sample_journal_def sample_meta_def META_MAX_def META_CRC_AT_def META_BYTES_AT_def BLOCK_def)
  have fl: "mt_floor (jn_meta sample_journal) = 2" by (simp add: sample_journal_def)
  from index_implements_map [OF ok pl len] ok pl len show ?thesis
    by (auto simp: fl map_ops_def simp del: apply_ops.simps)
qed

end
