(* ===== verification/Journal_Read.thy ===== *)
theory Journal_Read
  imports Journal_Index
begin

text \<open>
  Reading entries back (\<open>read\<close>, \<open>judge\<close> and \<open>replay\<close> of \<open>crates/moonpool-journal/src/journal.rs\<close>): an entry is
  returned only when its bytes are exactly the entry its persist record names. \<open>replay\<close> reads runs of
  neighbouring entries with one read; the theory shows it answers what one \<open>read\<close> per position answers.
  A panic (\<open>expect\<close>, \<open>assert_eq!\<close>) is \<open>ReadPanic\<close>, or \<open>None\<close> for \<open>replay\<close>; a segment's file is its bytes, damaged
  blocks zero-filled, so an I/O error that is not the medium's does not appear.
\<close>

section \<open>Reads\<close>

record jentry =
  en_position :: u64
  en_id :: ident
  en_payload :: bytes

datatype read_error = ReadEmpty u64 | ReadDamaged u64 ident | ReadPanic

definition entry_bytes :: "located \<Rightarrow> nat" where
  "entry_bytes at = RECORD_SIZE + unat (lo_len at)"

definition record_of :: "u64 \<Rightarrow> located \<Rightarrow> precord" where
  "record_of position at =
     \<lparr>pr_kind = Put, pr_flags = lo_flags at, pr_index = lo_index at, pr_count = lo_count at, pr_batch = lo_batch at,
      pr_position = position, pr_id = lo_id at, pr_offset = lo_offset at, pr_len = lo_len at,
      pr_entry_crc = lo_entry_crc at\<rparr>"

definition judge :: "crc_lib \<Rightarrow> u32 \<Rightarrow> u64 \<Rightarrow> located \<Rightarrow> bytes \<Rightarrow> read_error + jentry" where
  "judge C tag position at bs =
     (if length bs \<noteq> entry_bytes at then Inl ReadPanic
      else let r = record_of position at;
               intact = (case entry_parse bs of None \<Rightarrow> False
                 | Some (h, stored) \<Rightarrow>
                     eh_tag h = tag \<and> entry_matches r h stored
                     \<and> entry_crc C (bslice 0 RECORD_SIZE bs) (drop RECORD_SIZE bs) = stored)
        in if \<not> intact then Inl (ReadDamaged position (lo_id at))
           else Inr \<lparr>en_position = position, en_id = lo_id at, en_payload = drop RECORD_SIZE bs\<rparr>)"

definition read :: "crc_lib \<Rightarrow> journal \<Rightarrow> u64 \<Rightarrow> read_error + jentry" where
  "read C j position =
     (case om_get (jn_index j) position of None \<Rightarrow> Inl (ReadEmpty position)
      | Some at \<Rightarrow>
        if lo_damaged at then Inl (ReadDamaged position (lo_id at))
        else case segment_index j (lo_segment at) of None \<Rightarrow> Inl ReadPanic
        | Some i \<Rightarrow> judge C (jn_tag j) position at (read_at (jn_segments j ! i) (unat (lo_offset at)) (entry_bytes at)))"

section \<open>Replay\<close>

definition REPLAY_READ :: nat where "REPLAY_READ = 1048576"

definition REPLAY_GAP :: nat where "REPLAY_GAP = 64 * BLOCK"

text \<open>The entries after \<open>at\<close> that one read covers, where they end, and what is left for the next read.\<close>

fun split_run :: "located \<Rightarrow> nat \<Rightarrow> nat \<Rightarrow> (u64 \<times> located) list \<Rightarrow> (u64 \<times> located) list \<times> nat \<times> (u64 \<times> located) list" where
  "split_run at start stop [] = ([], stop, [])"
| "split_run at start stop ((p, next) # rest) =
     (let next_start = unat (lo_offset next); next_end = next_start + entry_bytes next in
      if lo_segment next \<noteq> lo_segment at \<or> lo_damaged next \<or> next_start < stop
         \<or> next_start - stop > REPLAY_GAP \<or> next_end - start > REPLAY_READ
      then ([], stop, (p, next) # rest)
      else case split_run at start next_end rest of (grp, stop, rest) \<Rightarrow> ((p, next) # grp, stop, rest))"

lemma split_run_length: "split_run at start stop xs = (grp, stop', rest) \<Longrightarrow> length rest \<le> length xs"
proof (induction at start stop xs arbitrary: grp stop' rest rule: split_run.induct)
  case (2 at start stop p nx xs)
  then show ?case by (fastforce simp: Let_def split: if_splits prod.splits)
qed simp

function replay_loop ::
  "crc_lib \<Rightarrow> journal \<Rightarrow> (u64 \<times> located) list \<Rightarrow> (u64 \<times> (read_error + jentry)) list option" where
  "replay_loop C j [] = Some []"
| "replay_loop C j ((position, at) # rest) =
     (if lo_damaged at
      then map_option (\<lambda>out. (position, Inl (ReadDamaged position (lo_id at))) # out) (replay_loop C j rest)
      else let start = unat (lo_offset at) in
        case split_run at start (start + entry_bytes at) rest of (grp, stop, rest) \<Rightarrow>
          case segment_index j (lo_segment at) of None \<Rightarrow> None
          | Some i \<Rightarrow>
            let bs = read_at (jn_segments j ! i) start (stop - start) in
            if length bs \<noteq> stop - start then None
            else map_option
              (\<lambda>out. map (\<lambda>(p, at). (p, judge C (jn_tag j) p at (bslice (unat (lo_offset at) - start) (entry_bytes at) bs)))
                       ((position, at) # grp) @ out)
              (replay_loop C j rest))"
  by pat_completeness auto
termination
  by (relation "measure (\<lambda>(C, j, xs). length xs)") (auto dest!: split_run_length [OF sym])

text \<open>\<open>wanted\<close> is the positions asked for; the last check is that every position was replayed once.\<close>

definition replay ::
  "crc_lib \<Rightarrow> journal \<Rightarrow> (u64 \<Rightarrow> bool) \<Rightarrow> (u64 \<times> (read_error + jentry)) list option" where
  "replay C j wanted =
     (let located = filter (\<lambda>(p, _). wanted p) (jn_index j) in
      case replay_loop C j located of None \<Rightarrow> None
      | Some out \<Rightarrow> if length out = length located then Some out else None)"

section \<open>A grp reads what single reads read\<close>

text \<open>Every undamaged entry of the index lies within the file of its segment.\<close>

definition entries_inside :: "journal \<Rightarrow> bool" where
  "entries_inside j =
     (\<forall>(p, at) \<in> set (jn_index j). \<forall>s \<in> set (jn_segments j).
        lo_segment at = sg_first_batch s \<longrightarrow> \<not> lo_damaged at \<longrightarrow>
        unat (lo_offset at) + entry_bytes at \<le> length (sg_image s))"

lemma find_segment_mem: "b \<in> set (map sg_first_batch ss) \<Longrightarrow> \<exists>i. find_segment ss b = Some i"
  by (induction ss) auto

lemma split_run_spec:
  assumes "split_run at start stop xs = (grp, stop', rest)" "start \<le> stop"
  shows "xs = grp @ rest \<and> stop \<le> stop' \<and>
    (\<forall>(p, next) \<in> set grp. lo_segment next = lo_segment at \<and> \<not> lo_damaged next \<and>
       start \<le> unat (lo_offset next) \<and> unat (lo_offset next) + entry_bytes next \<le> stop') \<and>
    (stop' = stop \<or> (\<exists>(p, next) \<in> set grp. stop' = unat (lo_offset next) + entry_bytes next))"
  using assms
proof (induction at start stop xs arbitrary: grp stop' rest rule: split_run.induct)
  case (2 at start stop p nx xs)
  let ?e = "unat (lo_offset nx) + entry_bytes nx"
  show ?case
  proof (cases "lo_segment nx \<noteq> lo_segment at \<or> lo_damaged nx \<or> unat (lo_offset nx) < stop
         \<or> unat (lo_offset nx) - stop > REPLAY_GAP \<or> ?e - start > REPLAY_READ")
    case True
    then show ?thesis using "2.prems" by (auto simp: Let_def)
  next
    case False
    then obtain grp' where r: "split_run at start ?e xs = (grp', stop', rest)" "grp = (p, nx) # grp'"
      using "2.prems"(1) by (auto simp: Let_def split: prod.splits)
    have "start \<le> ?e" using False "2.prems"(2) by simp
    from "2.IH" [OF refl refl False r(1) this] show ?thesis using False r(2) "2.prems"(2) by auto
  qed
qed simp

lemma read_of_mem:
  assumes ok: "index_ok j" and mem: "(p, at) \<in> set (jn_index j)"
  shows "read C j p =
    (if lo_damaged at then Inl (ReadDamaged p (lo_id at))
     else case segment_index j (lo_segment at) of None \<Rightarrow> Inl ReadPanic
       | Some i \<Rightarrow> judge C (jn_tag j) p at (read_at (jn_segments j ! i) (unat (lo_offset at)) (entry_bytes at)))"
proof -
  have "om_get (jn_index j) p = Some at" using ok mem by (simp add: index_ok_def om_get_Some_mem)
  then show ?thesis by (simp add: read_def)
qed

lemma entry_segment:
  assumes ok: "index_ok j" and mem: "(p, at) \<in> set (jn_index j)"
  obtains i where "segment_index j (lo_segment at) = Some i" "i < length (jn_segments j)"
    "sg_first_batch (jn_segments j ! i) = lo_segment at"
proof -
  have "om_get (jn_index j) p = Some at" using ok mem by (simp add: index_ok_def om_get_Some_mem)
  then have "lo_segment at \<in> set (map sg_first_batch (jn_segments j))" using ok by (auto simp: index_ok_def firsts_def)
  then show thesis using that find_segment_mem find_segment_Some unfolding segment_index_def by blast
qed

lemma replay_loop_reads:
  assumes ok: "index_ok j" "entries_inside j" and sub: "set xs \<subseteq> set (jn_index j)"
  shows "replay_loop C j xs = Some (map (\<lambda>(p, at). (p, read C j p)) xs)"
  using sub
proof (induction "length xs" arbitrary: xs rule: less_induct)
  case less
  show ?case
  proof (cases xs)
    case Nil
    then show ?thesis by simp
  next
    case (Cons x rest)
    obtain position at where x: "x = (position, at)" by (cases x)
    have mem: "(position, at) \<in> set (jn_index j)" using less.prems Cons x by auto
    show ?thesis
    proof (cases "lo_damaged at")
      case True
      have "replay_loop C j rest = Some (map (\<lambda>(p, at). (p, read C j p)) rest)"
        using less Cons by auto
      then show ?thesis using Cons x True read_of_mem [OF ok(1) mem, of C] by simp
    next
      case False
      let ?start = "unat (lo_offset at)"
      obtain grp stop rest' where sp: "split_run at ?start (?start + entry_bytes at) rest = (grp, stop, rest')"
        by (cases "split_run at ?start (?start + entry_bytes at) rest")
      note r = split_run_spec [OF sp le_add1]
      obtain i where i: "segment_index j (lo_segment at) = Some i" "i < length (jn_segments j)"
        "sg_first_batch (jn_segments j ! i) = lo_segment at"
        by (rule entry_segment [OF ok(1) mem])
      let ?s = "jn_segments j ! i"
      have "rest = grp @ rest'" using r by simp
      then have grps: "set grp \<subseteq> set (jn_index j)" "set rest' \<subseteq> set (jn_index j)" "length rest' < length xs"
        using less.prems Cons by auto
      have inside: "unat (lo_offset a) + entry_bytes a \<le> length (sg_image ?s)"
        if "(p, a) \<in> set (jn_index j)" "lo_segment a = lo_segment at" "\<not> lo_damaged a" for p a
        using ok(2) that i unfolding entries_inside_def by (fastforce dest: nth_mem)
      have stop: "stop \<le> length (sg_image ?s)"
        using r inside [OF mem refl False] grps(1) inside by fastforce
      define bs where "bs = read_at ?s ?start (stop - ?start)"
      have len: "length bs = stop - ?start" using stop by (simp add: bs_def read_at_def)
      have one: "judge C (jn_tag j) p a (bslice (unat (lo_offset a) - ?start) (entry_bytes a) bs) = read C j p"
        if m: "(p, a) \<in> set ((position, at) # grp)" for p a
      proof -
        have a: "(p, a) \<in> set (jn_index j)" "lo_segment a = lo_segment at" "\<not> lo_damaged a"
          "?start \<le> unat (lo_offset a)" "unat (lo_offset a) + entry_bytes a \<le> stop"
          using m mem False r grps(1) by auto
        then have "bslice (unat (lo_offset a) - ?start) (entry_bytes a) bs = read_at ?s (unat (lo_offset a)) (entry_bytes a)"
          unfolding bs_def read_at_def by (subst bslice_slice) auto
        then show ?thesis using read_of_mem [OF ok(1) a(1), of C] a i by simp
      qed
      have "replay_loop C j rest' = Some (map (\<lambda>(p, at). (p, read C j p)) rest')"
        using less.hyps grps by blast
      moreover have "map (\<lambda>(p, a). (p, judge C (jn_tag j) p a (bslice (unat (lo_offset a) - ?start) (entry_bytes a) bs))) ((position, at) # grp)
          = map (\<lambda>(p, a). (p, read C j p)) ((position, at) # grp)"
        using one by (intro map_cong refl) auto
      ultimately show ?thesis
        using Cons x False sp i len \<open>rest = grp @ rest'\<close> by (simp add: Let_def bs_def)
    qed
  qed
qed

section \<open>Properties\<close>


definition sample_index :: "(u64, located) omap" where
  "sample_index = [(3, sample_located), (9, sample_located\<lparr>lo_offset := 72\<rparr>), (12, sample_located\<lparr>lo_damaged := True\<rparr>)]"

definition sample_readable :: journal where
  "sample_readable = sample_journal\<lparr>jn_index := sample_index,
     jn_segments := map (\<lambda>s. s\<lparr>sg_live := 3, sg_image := replicate 200 0\<rparr>) (jn_segments sample_journal)\<rparr>"


end
