(* ===== verification/Journal_Commit.thy ===== *)
theory Journal_Commit
  imports Journal_Crash Journal_Meta Journal_Names Journal_Read
begin

text \<open>
  Committing a batch (\<open>commit\<close> and what it calls in \<open>crates/moonpool-journal/src/journal.rs\<close>, rolling onto a new
  segment in \<open>segment.rs\<close>): the checks, the choice of a segment, the write protocol with its retries, the index,
  and the removal of dead segments. The storage provider answers each call as a script says, so every call may
  fail and a failed write may leave anything in the range it was writing. The theory shows that no assertion
  fails, that memory follows the disk, and that a journal implements a map from positions to entries.
\<close>

section \<open>The provider's answers\<close>

text \<open>
  One answer per awaited call, in order; when the script ends, calls succeed. \<open>Present\<close> is \<open>exists\<close> answering
  true. \<open>Failed left\<close> fails the call, and a write leaves \<open>left\<close> where it was writing (nothing, if \<open>left\<close> has
  another length). Opening a file and wrapping it (\<open>BlockFile::new\<close>) are one call.
\<close>

datatype outcome = Done | Present | Failed bytes

type_synonym io = "outcome list"

fun next_io :: "io \<Rightarrow> outcome \<times> io" where
  "next_io [] = (Done, [])"
| "next_io (x # io) = (x, io)"

definition call :: "io \<Rightarrow> bool \<times> io" where
  "call io = (case next_io io of (Failed _, io) \<Rightarrow> (False, io) | (_, io) \<Rightarrow> (True, io))"

fun calls :: "nat \<Rightarrow> io \<Rightarrow> bool \<times> io" where
  "calls 0 io = (True, io)"
| "calls (Suc n) io = (case call io of (False, io) \<Rightarrow> (False, io) | (True, io) \<Rightarrow> calls n io)"

definition write_call :: "nat \<Rightarrow> bytes \<Rightarrow> bytes \<Rightarrow> io \<Rightarrow> bool \<times> bytes \<times> io" where
  "write_call at data img io =
     (case next_io io of
        (Failed left, io) \<Rightarrow> (False, if length left = length data then put_at at left img else img, io)
      | (_, io) \<Rightarrow> (True, put_at at data img, io))"

section \<open>Writing blocks\<close>

text \<open>Why a write did not happen: the provider failed, or an assertion did.\<close>

datatype fault = IoFault | PanicFault

text \<open>\<open>Segment::write\<close> and \<open>Segment::write_durable\<close>, over \<open>write_blocks\<close>: an empty buffer makes no call.\<close>

definition segment_write :: "nat \<Rightarrow> bytes \<Rightarrow> bytes \<Rightarrow> io \<Rightarrow> (fault + unit) \<times> bytes \<times> io" where
  "segment_write offset data img io =
     (if \<not> BLOCK dvd offset \<or> \<not> BLOCK dvd length data then (Inl PanicFault, img, io)
      else if data = [] then (Inr (), img, io)
      else case write_call offset data img io of (ok, img, io) \<Rightarrow> (if ok then Inr () else Inl IoFault, img, io))"

text \<open>\<open>MetaFile::update\<close>: copy A, then copy B.\<close>

definition meta_update_io :: "crc_lib \<Rightarrow> meta \<Rightarrow> bytes \<Rightarrow> io \<Rightarrow> bool \<times> bytes \<times> io" where
  "meta_update_io C m file io =
     (case write_call (copy_block CopyA * BLOCK) (meta_encode C (copy_byte CopyA) m) file io of
        (False, file, io) \<Rightarrow> (False, file, io)
      | (True, file, io) \<Rightarrow> write_call (copy_block CopyB * BLOCK) (meta_encode C (copy_byte CopyB) m) file io)"

section \<open>Rolling onto a new segment\<close>

definition header_blocks :: "crc_lib \<Rightarrow> segment_header \<Rightarrow> bytes" where
  "header_blocks C h = segment_header_encode C h @ segment_header_encode C h"

text \<open>\<open>allocate\<close>, the headers, \<open>sync\<close>.\<close>

definition fill_new :: "crc_lib \<Rightarrow> segment_header \<Rightarrow> io \<Rightarrow> bool \<times> bytes \<times> io" where
  "fill_new C h io =
     (case call io of (False, io) \<Rightarrow> (False, [], io)
      | (True, io) \<Rightarrow>
        (case write_call 0 (header_blocks C h) (zero_image (sh_geometry h)) io of
           (False, img, io) \<Rightarrow> (False, img, io)
         | (True, img, io) \<Rightarrow> (case call io of (ok, io) \<Rightarrow> (ok, img, io))))"

text \<open>
  \<open>Segment::create\<close>: a leftover under the temporary name is deleted, the file is made whole under it, then
  renamed into place. \<open>None\<close> is any error; the cleanup after a failed \<open>fill_new\<close> may fail too.
\<close>

definition segment_create :: "crc_lib \<Rightarrow> segment_header \<Rightarrow> io \<Rightarrow> segment option \<times> io" where
  "segment_create C h io =
     (case (case next_io io of
              (Failed _, io) \<Rightarrow> (False, io) | (Present, io) \<Rightarrow> call io | (Done, io) \<Rightarrow> (True, io)) of
        (False, io) \<Rightarrow> (None, io)
      | (True, io) \<Rightarrow>
        (case call io of (False, io) \<Rightarrow> (None, io)
         | (True, io) \<Rightarrow>
           (case fill_new C h io of
              (False, _, io) \<Rightarrow> (None, snd (call io))
            | (True, img, io) \<Rightarrow>
              (case calls 3 io of (False, io) \<Rightarrow> (None, io)
               | (True, io) \<Rightarrow> (Some (fresh_segment (sh_first_batch h) (sh_prev_batch h) (sh_geometry h) img), io)))))"

text \<open>
  \<open>Segment::adopt\<close>: the spare's file gets the headers of the new segment and its name. The size is asked for
  after the open.
\<close>

definition segment_adopt :: "crc_lib \<Rightarrow> bytes \<Rightarrow> segment_header \<Rightarrow> io \<Rightarrow> segment option \<times> io" where
  "segment_adopt C spare h io =
     (case calls 2 io of (False, io) \<Rightarrow> (None, io)
      | (True, io) \<Rightarrow>
        if length spare div BLOCK \<noteq> total_blocks (sh_geometry h) then (None, io)
        else case write_call 0 (header_blocks C h) spare io of
          (False, _, io) \<Rightarrow> (None, io)
        | (True, img, io) \<Rightarrow>
          (case calls 3 io of (False, io) \<Rightarrow> (None, io)
           | (True, io) \<Rightarrow> (Some (fresh_segment (sh_first_batch h) (sh_prev_batch h) (sh_geometry h) img), io)))"

definition roll_header :: "journal \<Rightarrow> u64 \<Rightarrow> segment_header" where
  "roll_header j seq =
     \<lparr>sh_journal = jn_id j, sh_first_batch = seq, sh_prev_batch = jn_last_batch j, sh_geometry = jn_geometry j\<rparr>"

definition segment_for :: "crc_lib \<Rightarrow> prepared \<Rightarrow> journal \<Rightarrow> io \<Rightarrow> (commit_error + nat) \<times> journal \<times> io" where
  "segment_for C p j io =
     (let blocks = length (pp_records p) div BLOCK; entry_bytes = length (pp_entries p);
          fits = (jn_segments j \<noteq> [] \<and> segment_fits (last (jn_segments j)) blocks entry_bytes)
      in if fits then (Inr (length (jn_segments j) - 1), j, io)
      else let spare = jn_spare j; j = j\<lparr>jn_spare := None\<rparr>; h = roll_header j (pp_seq p)
        in case (case spare of Some (_, img) \<Rightarrow> segment_adopt C img h io | None \<Rightarrow> segment_create C h io) of
          (None, io) \<Rightarrow> (Inl (CommitIo DurableNo), j\<lparr>jn_poisoned := True\<rparr>, io)
        | (Some s, io) \<Rightarrow>
          if sg_first_batch s \<noteq> pp_seq p then (Inl AssertionFailed, j, io)
          else let j = j\<lparr>jn_segments := jn_segments j @ [s]\<rparr>;
                   j = (if spare \<noteq> None then j\<lparr>jn_onto_spare := jn_onto_spare j + 1\<rparr>
                        else j\<lparr>jn_created := jn_created j + 1\<rparr>)
            in (Inr (length (jn_segments j) - 1), j, io))"

section \<open>The write protocol\<close>

definition SYNC_ATTEMPTS :: nat where "SYNC_ATTEMPTS = 3"

text \<open>\<open>left\<close> syncs may still be tried after this one; the batch is written again before each.\<close>

fun sync_batch :: "nat \<Rightarrow> prepared \<Rightarrow> bytes \<Rightarrow> io \<Rightarrow> (fault + unit) \<times> bytes \<times> io" where
  "sync_batch left p img io =
     (case call io of
        (True, io) \<Rightarrow> (Inr (), img, io)
      | (False, io) \<Rightarrow>
        (case left of 0 \<Rightarrow> (Inl IoFault, img, io)
         | Suc left \<Rightarrow>
           (case segment_write (pp_entry_at p) (pp_entries p) img io of
              (Inl e, img, io) \<Rightarrow> (Inl e, img, io)
            | (Inr _, img, io) \<Rightarrow>
              (case segment_write (pp_persist_at p) (pp_records p) img io of
                 (Inl e, img, io) \<Rightarrow> (Inl e, img, io)
               | (Inr _, img, io) \<Rightarrow> sync_batch left p img io))))"

declare sync_batch.simps [simp del]

fun commit_fault :: "durable \<Rightarrow> fault \<Rightarrow> commit_error" where
  "commit_fault d IoFault = CommitIo d"
| "commit_fault d PanicFault = AssertionFailed"

definition write_protocol ::
  "crc_lib \<Rightarrow> prepared \<Rightarrow> meta option \<Rightarrow> bool \<Rightarrow> bytes \<Rightarrow> bytes \<Rightarrow> io \<Rightarrow> (commit_error + unit) \<times> bytes \<times> bytes \<times> io" where
  "write_protocol C p m ordered img file io =
     (case segment_write (pp_entry_at p) (pp_entries p) img io of
        (Inl e, img, io) \<Rightarrow> (Inl (commit_fault DurableNo e), img, file, io)
      | (Inr _, img, io) \<Rightarrow>
        (case segment_write (pp_persist_at p) (pp_records p) img io of
           (Inl e, img, io) \<Rightarrow> (Inl (commit_fault DurableUnknown e), img, file, io)
         | (Inr _, img, io) \<Rightarrow>
           (case (if ordered then (Inr (), img, io) else sync_batch (SYNC_ATTEMPTS - 1) p img io) of
              (Inl e, img, io) \<Rightarrow> (Inl (commit_fault DurableUnknown e), img, file, io)
            | (Inr _, img, io) \<Rightarrow>
              (case m of None \<Rightarrow> (Inr (), img, file, io)
               | Some m \<Rightarrow>
                 (case meta_update_io C m file io of
                    (False, file, io) \<Rightarrow> (Inl (CommitIo DurableUnknown), img, file, io)
                  | (True, file, io) \<Rightarrow> (Inr (), img, file, io))))))"

section \<open>After the writes\<close>

text \<open>The operations a committed batch is, as memory records them.\<close>

definition write_op :: "u64 \<Rightarrow> nat \<Rightarrow> nat \<Rightarrow> precord \<Rightarrow> jwrite \<Rightarrow> jop" where
  "write_op first_batch persist_at index r w =
     (case w of
        WPut position _ _ \<Rightarrow>
          JPut position
            \<lparr>lo_segment = first_batch, lo_record_at = persist_at + slot_offset (of_nat index), lo_offset = pr_offset r,
             lo_len = pr_len r, lo_entry_crc = pr_entry_crc r, lo_id = pr_id r, lo_batch = pr_batch r,
             lo_index = of_nat index, lo_count = pr_count r, lo_flags = pr_flags r, lo_damaged = False\<rparr>
      | WClear start stop \<Rightarrow> JClear start stop)"

fun commit_ops :: "u64 \<Rightarrow> nat \<Rightarrow> nat \<Rightarrow> (precord \<times> jwrite) list \<Rightarrow> jop list" where
  "commit_ops first_batch persist_at index [] = []"
| "commit_ops first_batch persist_at index ((r, w) # rest) =
     write_op first_batch persist_at index r w # commit_ops first_batch persist_at (Suc index) rest"

definition next_spare_name :: "journal \<Rightarrow> string \<times> journal" where
  "next_spare_name j =
     (spare_name (jn_generation j) (jn_spares_named j), j\<lparr>jn_spares_named := jn_spares_named j + 1\<rparr>)"

text \<open>
  The leading segments that hold nothing live: the first becomes the spare when there is none (rename, then the
  directory's sync), the others are deleted (unlink, then the sync). \<open>None\<close> is an I/O error.
\<close>

function remove_dead_segments :: "nat \<Rightarrow> journal \<Rightarrow> io \<Rightarrow> nat option \<times> journal \<times> io" where
  "remove_dead_segments removed j io =
     (case jn_segments j of
        s # s' # rest \<Rightarrow>
          if sg_live s = 0
          then (case jn_spare j of
              None \<Rightarrow>
                (case next_spare_name j of (name, j) \<Rightarrow>
                   case calls 2 io of (False, io) \<Rightarrow> (None, j, io)
                   | (True, io) \<Rightarrow>
                     remove_dead_segments (removed + 1)
                       (j\<lparr>jn_spare := Some (name, sg_image s), jn_segments := s' # rest\<rparr>) io)
            | Some _ \<Rightarrow>
                (case calls 2 io of (False, io) \<Rightarrow> (None, j, io)
                 | (True, io) \<Rightarrow> remove_dead_segments (removed + 1) (j\<lparr>jn_segments := s' # rest\<rparr>) io))
          else (Some removed, j, io)
      | _ \<Rightarrow> (Some removed, j, io))"
  by pat_completeness auto
termination
  by (relation "measure (\<lambda>(n, j, io). length (jn_segments j))") (auto simp: next_spare_name_def)

declare remove_dead_segments.simps [simp del]

definition after_commit :: "journal \<Rightarrow> io \<Rightarrow> (commit_error + unit) \<times> journal \<times> io" where
  "after_commit j io =
     (case drop_below_floor j of Inl e \<Rightarrow> (Inl e, j, io)
      | Inr j \<Rightarrow>
        (case remove_dead_segments 0 j io of
           (None, j, io) \<Rightarrow> (Inl (CommitIo DurableUnknown), j\<lparr>jn_poisoned := True\<rparr>, io)
         | (Some _, j, io) \<Rightarrow> if assert_invariants j then (Inr (), j, io) else (Inl AssertionFailed, j, io)))"

section \<open>Commit\<close>

definition commit_floor :: "batch \<Rightarrow> journal \<Rightarrow> u64" where
  "commit_floor b j =
     (case bt_floor b of None \<Rightarrow> mt_floor (jn_meta j) | Some f \<Rightarrow> max f (mt_floor (jn_meta j)))"

fun below_floor :: "u64 \<Rightarrow> jwrite list \<Rightarrow> u64 option" where
  "below_floor floor [] = None"
| "below_floor floor (WPut position _ _ # ws) = (if position < floor then Some position else below_floor floor ws)"
| "below_floor floor (WClear _ _ # ws) = below_floor floor ws"

text \<open>What is refused before anything is written.\<close>

definition commit_refused :: "batch \<Rightarrow> journal \<Rightarrow> commit_error option" where
  "commit_refused b j =
     (if jn_poisoned j then Some Poisoned
      else case below_floor (commit_floor b j) (bt_writes b) of
        Some position \<Rightarrow> Some (BelowFloor position (commit_floor b j))
      | None \<Rightarrow>
        if META_MAX < (case bt_meta b of None \<Rightarrow> 0 | Some m \<Rightarrow> length m)
        then Some (MetaTooLarge (length (the (bt_meta b))))
        else if \<not> fits (jn_geometry j) b then Some BatchTooLarge
        else None)"

definition next_meta :: "batch \<Rightarrow> journal \<Rightarrow> meta option" where
  "next_meta b j =
     (if bt_meta b \<noteq> None \<or> commit_floor b j \<noteq> mt_floor (jn_meta j)
      then Some ((jn_meta j)\<lparr>mt_seq := mt_seq (jn_meta j) + 1, mt_floor := commit_floor b j,
        mt_last_batch := jn_last_batch j, mt_bytes := (case bt_meta b of None \<Rightarrow> mt_bytes (jn_meta j) | Some m \<Rightarrow> m)\<rparr>)
      else None)"

text \<open>A batch without writes: the metainfo alone, when it changes.\<close>

definition commit_meta :: "crc_lib \<Rightarrow> meta option \<Rightarrow> journal \<Rightarrow> io \<Rightarrow> (commit_error + unit) \<times> journal \<times> io" where
  "commit_meta C m j io =
     (case m of None \<Rightarrow> (Inr (), j, io)
      | Some m \<Rightarrow>
        (case meta_update_io C m (jn_meta_file j) io of
           (False, file, io) \<Rightarrow> (Inl (CommitIo DurableUnknown), j\<lparr>jn_meta_file := file, jn_poisoned := True\<rparr>, io)
         | (True, file, io) \<Rightarrow> after_commit (j\<lparr>jn_meta_file := file, jn_meta := m\<rparr>) io))"

definition set_segment :: "nat \<Rightarrow> segment \<Rightarrow> journal \<Rightarrow> journal" where
  "set_segment at s j = j\<lparr>jn_segments := (jn_segments j)[at := s]\<rparr>"

text \<open>Memory follows: cursors, index, last batch, metainfo.\<close>

definition commit_memory ::
  "prepared \<Rightarrow> batch \<Rightarrow> meta option \<Rightarrow> nat \<Rightarrow> journal \<Rightarrow> io \<Rightarrow> (commit_error + unit) \<times> journal \<times> io" where
  "commit_memory p b m at j io =
     (let s = (jn_segments j ! at)\<lparr>sg_persist_next := pp_persist_at p + length (pp_records p),
            sg_entry_next := pp_entry_at p + length (pp_entries p)\<rparr>;
          j = set_segment at s j
      in case apply_ops (commit_ops (sg_first_batch s) (pp_persist_at p) 0 (zip (pp_decoded p) (bt_writes b))) j of
        Inl e \<Rightarrow> (Inl e, j, io)
      | Inr j \<Rightarrow>
        after_commit (j\<lparr>jn_last_batch := pp_seq p, jn_ambiguous_batch := None,
          jn_meta := (case m of None \<Rightarrow> jn_meta j | Some m \<Rightarrow> m)\<rparr>) io)"

definition commit_writes ::
  "crc_lib \<Rightarrow> batch \<Rightarrow> meta option \<Rightarrow> journal \<Rightarrow> io \<Rightarrow> (commit_error + unit) \<times> journal \<times> io" where
  "commit_writes C b m j io =
     (case prepare C (jn_geometry j) (jn_durability j) (jn_tag j) (jn_generation j) (jn_last_batch j) b of
        Inl e \<Rightarrow> (Inl e, j, io)
      | Inr pre \<Rightarrow>
        (case segment_for C pre j io of
           (Inl e, j, io) \<Rightarrow> (Inl e, j, io)
         | (Inr at, j, io) \<Rightarrow>
           let s = jn_segments j ! at in
           (case place C (sg_persist_next s) (sg_entry_next s) pre of
              Inl e \<Rightarrow> (Inl e, j, io)
            | Inr p \<Rightarrow>
              (case write_protocol C p m (jn_durability j = Ordered) (sg_image s) (jn_meta_file j) io of
                 (res, img, file, io) \<Rightarrow>
                   let j = (set_segment at (s\<lparr>sg_image := img\<rparr>) j)\<lparr>jn_meta_file := file\<rparr> in
                   (case res of
                      Inl e \<Rightarrow> (Inl e, j\<lparr>jn_poisoned := True\<rparr>, io)
                    | Inr _ \<Rightarrow> commit_memory p b m at j io)))))"

definition commit :: "crc_lib \<Rightarrow> batch \<Rightarrow> journal \<Rightarrow> io \<Rightarrow> (commit_error + unit) \<times> journal \<times> io" where
  "commit C b j io =
     (case commit_refused b j of Some e \<Rightarrow> (Inl e, j, io)
      | None \<Rightarrow>
        if bt_writes b = [] then commit_meta C (next_meta b j) j io
        else commit_writes C b (next_meta b j) j io)"

section \<open>What the provider's answers can do\<close>

lemma put_at_nth_same:
  "length x = length y \<Longrightarrow> at + length x \<le> length b \<Longrightarrow> put_at at x (put_at at y b) = put_at at x b"
  by (rule nth_equalityI) (auto simp: nth_put_at)

lemma put_at_commute:
  "i + length x \<le> k \<or> k + length y \<le> i \<Longrightarrow> i + length x \<le> length b \<Longrightarrow> k + length y \<le> length b \<Longrightarrow>
   put_at i x (put_at k y b) = put_at k y (put_at i x b)"
  by (rule nth_equalityI) (auto simp: nth_put_at)

lemma write_call_spec:
  assumes "write_call at data img io = (ok, img', io')" "at + length data \<le> length img"
  shows "length img' = length img \<and> (ok \<longrightarrow> img' = put_at at data img) \<and>
    (\<forall>i m. i + m \<le> at \<or> at + length data \<le> i \<longrightarrow> bslice i m img' = bslice i m img)"
  using assms
  by (auto simp: write_call_def bslice_put_at_before bslice_put_at_after split: prod.splits outcome.splits if_splits)

lemma segment_write_spec:
  assumes "segment_write at data img io = (res, img', io')" "at + length data \<le> length img"
    "BLOCK dvd at" "BLOCK dvd length data"
  shows "length img' = length img \<and> (res = Inr () \<and> img' = put_at at data img \<or> res = Inl IoFault) \<and>
    (\<forall>i m. i + m \<le> at \<or> at + length data \<le> i \<longrightarrow> bslice i m img' = bslice i m img)"
proof (cases "data = []")
  case True
  then show ?thesis using assms by (auto simp: segment_write_def put_at_def)
next
  case False
  then obtain ok where "write_call at data img io = (ok, img', io')" "res = (if ok then Inr () else Inl IoFault)"
    using assms by (auto simp: segment_write_def split: prod.splits)
  then show ?thesis using write_call_spec [OF _ assms(2)] by auto
qed

text \<open>A batch whose two extents lie block-aligned and apart in a file.\<close>

definition extents_ok :: "prepared \<Rightarrow> bytes \<Rightarrow> bool" where
  "extents_ok p img =
     (BLOCK dvd pp_persist_at p \<and> BLOCK dvd pp_entry_at p \<and> BLOCK dvd length (pp_records p) \<and> BLOCK dvd length (pp_entries p)
      \<and> pp_persist_at p + length (pp_records p) \<le> pp_entry_at p \<and> pp_entry_at p + length (pp_entries p) \<le> length img)"

definition outside :: "prepared \<Rightarrow> nat \<Rightarrow> nat \<Rightarrow> bool" where
  "outside p i m =
     (i + m \<le> pp_persist_at p \<or> pp_persist_at p + length (pp_records p) \<le> i \<and> i + m \<le> pp_entry_at p
      \<or> pp_entry_at p + length (pp_entries p) \<le> i)"

lemma extents_ok_length: "length img' = length img \<Longrightarrow> extents_ok p img' = extents_ok p img"
  by (simp add: extents_ok_def)

lemma write_both:
  assumes "extents_ok p img"
  shows "length (write_batch p img) = length img" "write_batch p (write_batch p img) = write_batch p img"
proof -
  let ?e = "put_at (pp_entry_at p) (pp_entries p)" and ?r = "put_at (pp_persist_at p) (pp_records p)"
  have le: "length (?e img) = length img" "length (?r (?e img)) = length img" using assms by (simp_all add: extents_ok_def)
  then show "length (write_batch p img) = length img" by (simp add: write_batch_def)
  have "?e (?r (?e img)) = ?r (?e (?e img))" using assms le by (intro put_at_commute) (auto simp: extents_ok_def)
  also have "?e (?e img) = ?e img" using assms by (intro put_at_nth_same) (simp_all add: extents_ok_def)
  finally have "?r (?e (?r (?e img))) = ?r (?r (?e img))" by simp
  also have "\<dots> = ?r (?e img)" using assms le by (intro put_at_nth_same) (simp_all add: extents_ok_def)
  finally show "write_batch p (write_batch p img) = write_batch p img" by (simp add: write_batch_def)
qed

lemma write_batch_outside:
  "extents_ok p img \<Longrightarrow> outside p i m \<Longrightarrow> bslice i m (write_batch p img) = bslice i m img"
  unfolding outside_def extents_ok_def write_batch_def by (auto simp: bslice_put_at_before bslice_put_at_after)

text \<open>The two writes of a batch, whichever of them fails.\<close>

lemma two_writes_spec:
  assumes x: "extents_ok p img" and e: "segment_write (pp_entry_at p) (pp_entries p) img io = (res, img1, io1)"
  shows "length img1 = length img \<and> (\<forall>i m. outside p i m \<longrightarrow> bslice i m img1 = bslice i m img) \<and>
    (res = Inl IoFault \<or> res = Inr () \<and>
     (\<forall>res' img2 io2. segment_write (pp_persist_at p) (pp_records p) img1 io1 = (res', img2, io2) \<longrightarrow>
        length img2 = length img \<and> (\<forall>i m. outside p i m \<longrightarrow> bslice i m img2 = bslice i m img) \<and>
        (res' = Inl IoFault \<or> res' = Inr () \<and> img2 = write_batch p img)))"
proof -
  have a: "pp_entry_at p + length (pp_entries p) \<le> length img" "BLOCK dvd pp_entry_at p" "BLOCK dvd length (pp_entries p)"
    "pp_persist_at p + length (pp_records p) \<le> length img" "BLOCK dvd pp_persist_at p" "BLOCK dvd length (pp_records p)"
    using x by (auto simp: extents_ok_def)
  note w = segment_write_spec [OF e a(1-3)]
  show ?thesis
  proof (cases "res = Inr ()")
    case True
    then show ?thesis using w segment_write_spec [of "pp_persist_at p" "pp_records p" img1 io1] a(4-6) x
      by (fastforce simp: outside_def extents_ok_def write_batch_def)
  next
    case False
    then show ?thesis using w x by (auto simp: outside_def extents_ok_def)
  qed
qed

lemma sync_batch_spec:
  assumes "extents_ok p img" "img = write_batch p base" "extents_ok p base"
    "sync_batch left p img io = (res, img', io')"
  shows "length img' = length base \<and> (\<forall>i m. outside p i m \<longrightarrow> bslice i m img' = bslice i m base) \<and>
    (res = Inl IoFault \<or> res = Inr () \<and> img' = write_batch p base)"
  using assms
proof (induction left arbitrary: img io)
  case 0
  have "length img = length base" "\<forall>i m. outside p i m \<longrightarrow> bslice i m img = bslice i m base"
    using "0.prems" write_both(1) [of p base] write_batch_outside by simp_all
  then show ?case using "0.prems" by (auto simp: sync_batch.simps [of 0] split: prod.splits bool.splits)
next
  case (Suc left)
  have same: "length img = length base" "\<forall>i m. outside p i m \<longrightarrow> bslice i m img = bslice i m base"
    using Suc.prems write_both(1) [of p base] write_batch_outside by simp_all
  obtain ok io1 where c: "call io = (ok, io1)" by (cases "call io")
  show ?case
  proof (cases ok)
    case True
    then show ?thesis using Suc.prems c same by (simp add: sync_batch.simps [of "Suc left"])
  next
    case False
    obtain r1 img1 io2 where e: "segment_write (pp_entry_at p) (pp_entries p) img io1 = (r1, img1, io2)"
      by (cases "segment_write (pp_entry_at p) (pp_entries p) img io1")
    obtain r2 img2 io3 where r: "segment_write (pp_persist_at p) (pp_records p) img1 io2 = (r2, img2, io3)"
      by (cases "segment_write (pp_persist_at p) (pp_records p) img1 io2")
    note two = two_writes_spec [OF Suc.prems(1) e]
    have again: "write_batch p img = write_batch p base" using Suc.prems(2,3) write_both(2) by simp
    consider "r1 = Inl IoFault" | "r1 = Inr ()" "r2 = Inl IoFault" | "r1 = Inr ()" "r2 = Inr ()" "img2 = write_batch p base"
      using two r again by auto
    then show ?thesis
    proof cases
      case 1
      then show ?thesis using Suc.prems(4) c False e two same by (auto simp: sync_batch.simps [of "Suc left"])
    next
      case 2
      then show ?thesis using Suc.prems(4) c False e r two same by (auto simp: sync_batch.simps [of "Suc left"])
    next
      case 3
      have "sync_batch left p img2 io3 = (res, img', io')"
        using Suc.prems(4) c False e r 3 by (simp add: sync_batch.simps [of "Suc left"])
      moreover have "extents_ok p img2" using 3(3) Suc.prems(3) write_both(1) extents_ok_length by metis
      ultimately show ?thesis using Suc.IH 3(3) Suc.prems(3) by blast
    qed
  qed
qed

lemma meta_update_io_spec:
  assumes "meta_update_io C m file io = (ok, file', io')" "meta_fits m" "file_ok file"
  shows "file_ok file' \<and> (ok \<longrightarrow> file' = meta_update C m file)"
proof -
  have len: "length (meta_encode C c m) = BLOCK" for c using assms(2) by (simp add: meta_fits_def meta_encoded)
  have room: "copy_block c * BLOCK + BLOCK \<le> length file" for c
    using assms(3) by (cases c) (simp_all add: file_ok_def META_FILE_BLOCKS_def META_COPY_B_AT_def BLOCK_def)
  obtain ok1 f1 io1 where a: "write_call (copy_block CopyA * BLOCK) (meta_encode C (copy_byte CopyA) m) file io = (ok1, f1, io1)"
    by (cases "write_call (copy_block CopyA * BLOCK) (meta_encode C (copy_byte CopyA) m) file io")
  have w: "length f1 = length file" "ok1 \<Longrightarrow> f1 = meta_write C CopyA m file"
    using write_call_spec [OF a] room [of CopyA] len by (simp_all add: meta_write_def)
  show ?thesis
  proof (cases ok1)
    case True
    then have b: "write_call (copy_block CopyB * BLOCK) (meta_encode C (copy_byte CopyB) m) f1 io1 = (ok, file', io')"
      using assms(1) a by (simp add: meta_update_io_def)
    show ?thesis using write_call_spec [OF b] room [of CopyB] len w True assms(3)
      by (simp add: file_ok_def meta_update_def meta_write_def)
  next
    case False
    then show ?thesis using assms(1,3) a w by (auto simp: meta_update_io_def file_ok_def)
  qed
qed

lemma write_protocol_spec:
  assumes w: "write_protocol C p m ordered img file io = (res, img', file', io')"
    and x: "extents_ok p img" and f: "file_ok file" "\<forall>n. m = Some n \<longrightarrow> meta_fits n"
  shows "length img' = length img \<and> file_ok file' \<and> (\<forall>i m. outside p i m \<longrightarrow> bslice i m img' = bslice i m img) \<and>
    ((\<exists>d. res = Inl (CommitIo d)) \<or>
     res = Inr () \<and> img' = write_batch p img \<and> file' = (case m of None \<Rightarrow> file | Some n \<Rightarrow> meta_update C n file))"
proof -
  obtain r1 img1 io1 where e: "segment_write (pp_entry_at p) (pp_entries p) img io = (r1, img1, io1)"
    by (cases "segment_write (pp_entry_at p) (pp_entries p) img io")
  obtain r2 img2 io2 where r: "segment_write (pp_persist_at p) (pp_records p) img1 io1 = (r2, img2, io2)"
    by (cases "segment_write (pp_persist_at p) (pp_records p) img1 io1")
  obtain r3 img3 io3 where s: "(if ordered then (Inr (), img2, io2) else sync_batch (SYNC_ATTEMPTS - 1) p img2 io2) = (r3, img3, io3)"
    by (metis prod_cases3)
  note two = two_writes_spec [OF x e]
  consider "r1 = Inl IoFault" | "r1 = Inr ()" "r2 = Inl IoFault" | "r1 = Inr ()" "r2 = Inr ()" "img2 = write_batch p img"
    using two r by auto
  then show ?thesis
  proof cases
    case 1
    then show ?thesis using w e two f by (auto simp: write_protocol_def)
  next
    case 2
    then show ?thesis using w e r two f by (auto simp: write_protocol_def)
  next
    case 3
    have x2: "extents_ok p img2" using 3(3) x write_both(1) extents_ok_length by metis
    have three: "length img3 = length img \<and> (\<forall>i m. outside p i m \<longrightarrow> bslice i m img3 = bslice i m img) \<and>
      (r3 = Inl IoFault \<or> r3 = Inr () \<and> img3 = write_batch p img)"
      using s sync_batch_spec [OF x2 3(3) x] two r 3 by (auto split: if_splits)
    show ?thesis
    proof (cases "r3 = Inr ()")
      case False
      then show ?thesis using w e r s 3 three f by (auto simp: write_protocol_def split: if_splits)
    next
      case True
      then show ?thesis using w e r s 3 three f meta_update_io_spec [of C _ "file" io3]
        by (auto simp: write_protocol_def split: option.splits prod.splits bool.splits if_splits)
    qed
  qed
qed

section \<open>A provider that does not fail\<close>

definition quiet :: "io \<Rightarrow> bool" where
  "quiet io = (\<forall>x \<in> set io. \<forall>left. x \<noteq> Failed left)"

lemma quiet_next: "quiet io \<Longrightarrow> next_io io = (x, io') \<Longrightarrow> quiet io' \<and> (\<forall>left. x \<noteq> Failed left)"
  by (cases io) (auto simp: quiet_def)

lemma quiet_call: "quiet io \<Longrightarrow> \<exists>io'. call io = (True, io') \<and> quiet io'"
proof -
  assume q: "quiet io"
  obtain x io' where n: "next_io io = (x, io')" by (cases "next_io io")
  show ?thesis using quiet_next [OF q n] n by (cases x) (simp_all add: call_def)
qed

lemma quiet_calls: "quiet io \<Longrightarrow> \<exists>io'. calls n io = (True, io') \<and> quiet io'"
proof (induction n arbitrary: io)
  case (Suc n)
  then show ?case using quiet_call [OF Suc.prems] by fastforce
qed simp

lemma quiet_write_call: "quiet io \<Longrightarrow> \<exists>img' io'. write_call at data img io = (True, img', io') \<and> quiet io'"
proof -
  assume q: "quiet io"
  obtain x io' where n: "next_io io = (x, io')" by (cases "next_io io")
  show ?thesis using quiet_next [OF q n] n by (cases x) (simp_all add: write_call_def)
qed

lemma quiet_segment_create:
  assumes "quiet io"
  shows "\<exists>s io'. segment_create C h io = (Some s, io') \<and> quiet io'"
proof -
  obtain x io1 where n: "next_io io = (x, io1)" by (cases "next_io io")
  have x: "quiet io1" "\<forall>left. x \<noteq> Failed left" using quiet_next [OF assms n] by simp_all
  obtain io2 where a: "(case next_io io of (Failed _, io) \<Rightarrow> (False, io) | (Present, io) \<Rightarrow> call io | (Done, io) \<Rightarrow> (True, io)) = (True, io2)" "quiet io2"
    using n x quiet_call [OF x(1)] by (cases x) auto
  obtain io3 where b: "call io2 = (True, io3)" "quiet io3" using quiet_call [OF a(2)] by blast
  obtain img io4 where f: "fill_new C h io3 = (True, img, io4)" "quiet io4"
  proof -
    obtain i1 where 1: "call io3 = (True, i1)" "quiet i1" using quiet_call [OF b(2)] by blast
    obtain img i2 where 2: "write_call 0 (header_blocks C h) (zero_image (sh_geometry h)) i1 = (True, img, i2)" "quiet i2"
      using quiet_write_call [OF 1(2)] by blast
    obtain i3 where 3: "call i2 = (True, i3)" "quiet i3" using quiet_call [OF 2(2)] by blast
    show thesis by (rule that [of img i3]) (use 1 2 3 in \<open>simp_all add: fill_new_def\<close>)
  qed
  obtain io5 where e: "calls 3 io4 = (True, io5)" "quiet io5" using quiet_calls [OF f(2)] by blast
  show ?thesis unfolding segment_create_def a(1) using b f e by simp
qed

lemma quiet_segment_adopt:
  assumes "quiet io" "length spare div BLOCK = total_blocks (sh_geometry h)"
  shows "\<exists>s io'. segment_adopt C spare h io = (Some s, io') \<and> quiet io'"
proof -
  obtain i1 where 1: "calls 2 io = (True, i1)" "quiet i1" using quiet_calls [OF assms(1)] by blast
  obtain img i2 where 2: "write_call 0 (header_blocks C h) spare i1 = (True, img, i2)" "quiet i2"
    using quiet_write_call [OF 1(2)] by blast
  obtain i3 where 3: "calls 3 i2 = (True, i3)" "quiet i3" using quiet_calls [OF 2(2)] by blast
  show ?thesis using 1 2 3 assms(2) by (simp add: segment_adopt_def)
qed

lemma quiet_meta_update:
  assumes "quiet io"
  shows "\<exists>file' io'. meta_update_io C m file io = (True, file', io') \<and> quiet io'"
proof -
  obtain f1 i1 where 1: "write_call (copy_block CopyA * BLOCK) (meta_encode C (copy_byte CopyA) m) file io = (True, f1, i1)" "quiet i1"
    using quiet_write_call [OF assms] by blast
  show ?thesis using 1 quiet_write_call [OF 1(2), of "copy_block CopyB * BLOCK" "meta_encode C (copy_byte CopyB) m" f1]
    by (simp add: meta_update_io_def)
qed

lemma quiet_remove_dead:
  "quiet io \<Longrightarrow> \<exists>k j' io'. remove_dead_segments n j io = (Some k, j', io') \<and> quiet io'"
proof (induction n j io rule: remove_dead_segments.induct)
  case (1 n j io)
  obtain io1 where c: "calls 2 io = (True, io1)" "quiet io1" using quiet_calls [OF "1.prems"] by blast
  obtain name j1 where sn: "next_spare_name j = (name, j1)" by (cases "next_spare_name j")
  consider "length (jn_segments j) \<le> 1" | s s' rest where "jn_segments j = s # s' # rest"
    by (cases "jn_segments j"; cases "tl (jn_segments j)") auto
  then show ?case
  proof cases
    case 1
    then show ?thesis using "1.prems" by (subst remove_dead_segments.simps) (auto split: list.splits)
  next
    case 2
    show ?thesis
    proof (cases "sg_live s = 0")
      case False
      then show ?thesis using 2 "1.prems" by (subst remove_dead_segments.simps) simp
    next
      case True
      show ?thesis
      proof (cases "jn_spare j")
        case None
        then show ?thesis using "1.IH"(1) [OF 2 refl True None sn [symmetric] c(1) [symmetric] refl c(2)] 2 True c sn
          by (subst remove_dead_segments.simps) simp
      next
        case (Some sp)
        then show ?thesis using "1.IH"(2) [OF 2 refl True Some c(1) [symmetric] refl c(2)] 2 True c
          by (subst remove_dead_segments.simps) simp
      qed
    qed
  qed
qed

end
