(* ===== verification/Journal_Store.thy ===== *)
theory Journal_Store
  imports Journal_Commit
begin

text \<open>
  What \<open>commit\<close> promises its caller: the invariant of a journal in memory, that a commit keeps it whatever the
  provider answers, and that the journal implements a map from positions to entries, read back byte for byte.
\<close>

section \<open>The invariant\<close>

definition seg_at :: "segment list \<Rightarrow> u64 \<Rightarrow> segment option" where
  "seg_at ss b = find (\<lambda>s. sg_first_batch s = b) ss"

definition segment_sound :: "geometry \<Rightarrow> segment \<Rightarrow> bool" where
  "segment_sound g s =
     (sg_geometry s = g \<and> length (sg_image s) = total_blocks g * BLOCK \<and> BLOCK dvd sg_persist_next s
      \<and> BLOCK dvd sg_entry_next s \<and> entry_start g \<le> sg_entry_next s \<and> sg_entry_next s \<le> entry_end g)"

text \<open>The entry lies in the part of its segment's entry log that is written.\<close>

definition entry_held :: "geometry \<Rightarrow> segment list \<Rightarrow> located \<Rightarrow> bool" where
  "entry_held g ss at =
     (case seg_at ss (lo_segment at) of None \<Rightarrow> False
      | Some s \<Rightarrow> entry_start g \<le> unat (lo_offset at) \<and> unat (lo_offset at) + entry_bytes at \<le> sg_entry_next s)"

text \<open>Between the steps of a commit: all of the invariant but that the segments are older than the last batch.\<close>

definition journal_core :: "journal \<Rightarrow> bool" where
  "journal_core j =
     (is_valid (jn_geometry j) \<and> index_ok j \<and> (\<forall>s \<in> set (jn_segments j). segment_sound (jn_geometry j) s)
      \<and> (\<forall>p at. om_get (jn_index j) p = Some at \<longrightarrow> entry_held (jn_geometry j) (jn_segments j) at)
      \<and> file_ok (jn_meta_file j)
      \<and> (case jn_spare j of None \<Rightarrow> True | Some (_, img) \<Rightarrow> length img = total_blocks (jn_geometry j) * BLOCK))"

definition journal_ok :: "journal \<Rightarrow> bool" where
  "journal_ok j =
     (journal_core j \<and> (\<forall>s \<in> set (jn_segments j). sg_first_batch s \<le> jn_last_batch j) \<and> meta_fits (jn_meta j)
      \<and> (\<forall>p. om_get (jn_index j) p \<noteq> None \<longrightarrow> mt_floor (jn_meta j) \<le> p))"

text \<open>What the batch API only builds: identities of their size, clears that are not empty.\<close>

definition batch_ok :: "batch \<Rightarrow> bool" where
  "batch_ok b = (ids_ok (bt_writes b) \<and> (\<forall>w \<in> set (bt_writes b). case w of WPut _ _ _ \<Rightarrow> True | WClear a z \<Rightarrow> a < z))"

text \<open>The open generation has numbers left for another batch.\<close>

definition numbers_left :: "journal \<Rightarrow> bool" where
  "numbers_left j = (jn_last_batch j < next_seq (jn_generation j) (jn_last_batch j))"

lemma batch_ok_api:
  "batch_ok batch_new" "batch_ok b \<Longrightarrow> length i = ID_SIZE \<Longrightarrow> batch_ok (batch_put p i payload b)"
  "batch_ok b \<Longrightarrow> batch_ok (batch_clear a z b)" "batch_ok b \<Longrightarrow> batch_ok (truncate_prefix f b)"
  "batch_ok b \<Longrightarrow> batch_ok (set_meta m b)"
  by (auto simp: batch_ok_def ids_ok_def batch_new_def batch_put_def batch_clear_def truncate_prefix_def set_meta_def)

lemma seg_at_Cons: "seg_at [] b = None" "seg_at (s # ss) b = (if sg_first_batch s = b then Some s else seg_at ss b)"
  by (simp_all add: seg_at_def)

lemma seg_at_mem: "seg_at ss b = Some s \<Longrightarrow> s \<in> set ss \<and> sg_first_batch s = b"
  by (induction ss) (auto simp: seg_at_Cons split: if_splits)

lemma seg_at_find: "seg_at ss b = map_option ((!) ss) (find_segment ss b)"
  by (induction ss) (auto simp: seg_at_Cons option.map_comp comp_def)

lemma seg_at_append: "seg_at (ss @ [s]) b = (case seg_at ss b of Some x \<Rightarrow> Some x | None \<Rightarrow> if sg_first_batch s = b then Some s else None)"
  by (induction ss) (auto simp: seg_at_Cons)

lemma seg_at_fresh: "b \<notin> sg_first_batch ` set ss \<Longrightarrow> seg_at ss b = None"
  by (induction ss) (auto simp: seg_at_Cons)

section \<open>Rolling\<close>

text \<open>
  The segments a batch goes to: the active one is the last, with room; it is the one the journal has, or a new
  one for this batch whose file is a whole segment's with the headers written over its first two blocks.
\<close>

definition rolled :: "crc_lib \<Rightarrow> prepared \<Rightarrow> journal \<Rightarrow> segment list \<Rightarrow> segment \<Rightarrow> bool" where
  "rolled C p j ss s =
     (segment_fits s (length (pp_records p) div BLOCK) (length (pp_entries p)) \<and>
      (jn_segments j = ss @ [s] \<or>
       jn_segments j = ss \<and> (\<exists>base. base \<in> insert (zero_image (jn_geometry j)) (snd ` set_option (jn_spare j)) \<and>
         s = fresh_segment (pp_seq p) (jn_last_batch j) (jn_geometry j)
           (put_at 0 (header_blocks C (roll_header j (pp_seq p))) base))))"

lemma length_header_blocks: "length (header_blocks C h) = 2 * BLOCK"
proof -
  have "length (segment_header_encode C h) = BLOCK"
    unfolding segment_header_encode_def by (rule length_seal) (simp_all add: put_defs BLOCK_def)
  then show ?thesis by (simp add: header_blocks_def)
qed

lemma write_call_ok: "write_call at data img io = (True, img', io') \<Longrightarrow> img' = put_at at data img"
  by (auto simp: write_call_def split: prod.splits outcome.splits)

lemma segment_create_spec:
  "segment_create C h io = (Some s, io') \<Longrightarrow>
   s = fresh_segment (sh_first_batch h) (sh_prev_batch h) (sh_geometry h) (put_at 0 (header_blocks C h) (zero_image (sh_geometry h)))"
  by (auto simp: segment_create_def fill_new_def dest!: write_call_ok split: prod.splits bool.splits outcome.splits)

lemma segment_adopt_spec:
  "segment_adopt C spare h io = (Some s, io') \<Longrightarrow>
   s = fresh_segment (sh_first_batch h) (sh_prev_batch h) (sh_geometry h) (put_at 0 (header_blocks C h) spare)"
  by (auto simp: segment_adopt_def dest!: write_call_ok split: prod.splits bool.splits if_splits)

lemma fresh_fits:
  "blocks \<le> unat (persist_blocks g) \<Longrightarrow> bytes \<le> unat (entry_blocks g) * BLOCK \<Longrightarrow>
   segment_fits (fresh_segment f q g img) blocks bytes"
  by (simp add: segment_fits_def fresh_segment_def geometry_defs algebra_simps)

lemma segment_for_spec:
  assumes sf: "segment_for C p j io = (res, j', io')"
    and room: "length (pp_records p) div BLOCK \<le> unat (persist_blocks (jn_geometry j))"
      "length (pp_entries p) \<le> unat (entry_blocks (jn_geometry j)) * BLOCK"
  shows "res = Inl (CommitIo DurableNo) \<and> jn_poisoned j' \<or>
    (\<exists>ss s spare x y. res = Inr (length ss) \<and> rolled C p j ss s \<and>
       j' = j\<lparr>jn_segments := ss @ [s], jn_spare := spare, jn_onto_spare := x, jn_created := y\<rparr> \<and>
       (spare = None \<or> spare = jn_spare j))"
proof (cases "jn_segments j \<noteq> [] \<and> segment_fits (last (jn_segments j)) (length (pp_records p) div BLOCK) (length (pp_entries p))")
  case True
  then have "rolled C p j (butlast (jn_segments j)) (last (jn_segments j))" by (simp add: rolled_def)
  moreover have "j' = j\<lparr>jn_segments := butlast (jn_segments j) @ [last (jn_segments j)], jn_spare := jn_spare j,
      jn_onto_spare := jn_onto_spare j, jn_created := jn_created j\<rparr>" "res = Inr (length (butlast (jn_segments j)))"
    using sf True by (auto simp: segment_for_def Let_def)
  ultimately show ?thesis by blast
next
  case False
  let ?j = "j\<lparr>jn_spare := None\<rparr>"
  let ?h = "roll_header ?j (pp_seq p)"
  obtain so io1 where made: "(case jn_spare j of Some (_, img) \<Rightarrow> segment_adopt C img ?h io | None \<Rightarrow> segment_create C ?h io) = (so, io1)"
    by (metis prod.exhaust)
  show ?thesis
  proof (cases so)
    case None
    then show ?thesis using sf False made by (auto simp: segment_for_def Let_def)
  next
    case (Some s)
    have h: "sh_first_batch ?h = pp_seq p" "sh_prev_batch ?h = jn_last_batch j" "sh_geometry ?h = jn_geometry j" "?h = roll_header j (pp_seq p)"
      by (simp_all add: roll_header_def)
    have s: "\<exists>base. base \<in> insert (zero_image (jn_geometry j)) (snd ` set_option (jn_spare j)) \<and>
         s = fresh_segment (pp_seq p) (jn_last_batch j) (jn_geometry j) (put_at 0 (header_blocks C (roll_header j (pp_seq p))) base)"
      using made Some segment_create_spec [of C ?h io s io1] segment_adopt_spec [of C _ ?h io s io1] h
      by (auto split: option.splits)
    then have "rolled C p j (jn_segments j) s" "sg_first_batch s = pp_seq p"
      using fresh_fits [OF room] by (auto simp: rolled_def fresh_segment_def)
    moreover from this have "j' = j\<lparr>jn_segments := jn_segments j @ [s], jn_spare := None, jn_onto_spare := jn_onto_spare j', jn_created := jn_created j'\<rparr>"
      and "res = Inr (length (jn_segments j))"
      using sf False made Some by (auto simp: segment_for_def Let_def split: if_splits)
    ultimately show ?thesis by blast
  qed
qed

section \<open>The batch in its segment\<close>

lemma committed_in_segment:
  assumes sound: "segment_sound g s" and valid: "is_valid g" and fit: "fits g b" and ids: "ids_ok (bt_writes b)"
    and seq: "l < next_seq generation l" and ne: "bt_writes b \<noteq> []" and pre: "prepare C g d tag generation l b = Inr pre"
    and room: "segment_fits s (length (pp_records pre) div BLOCK) (length (pp_entries pre))"
  obtains post prs where "place C (sg_persist_next s) (sg_entry_next s) pre = Inr post"
    "batch_at C tag (write_batch post (sg_image s)) (sg_persist_next s) (sg_entry_next s) prs"
    "extents_ok post (sg_image s)" "pp_persist_at post = sg_persist_next s" "pp_entry_at post = sg_entry_next s"
    "pp_seq post = next_seq generation l" "pp_decoded post = map fst prs" "map snd prs = map payload_of (bt_writes b)"
    "records_for (flags_of d) (of_nat (length (bt_writes b))) (next_seq generation l) 0 (bt_writes b) (map fst prs)"
    "length (pp_entries post) = align_up (extent prs) BLOCK" "sg_entry_next s + length (pp_entries post) \<le> entry_end g"
    "length (pp_records post) = length (pp_records pre)"
proof -
  let ?ws = "bt_writes b" and ?p = "sg_persist_next s" and ?e = "sg_entry_next s"
  have s: "sg_geometry s = g" "length (sg_image s) = total_blocks g * BLOCK" "BLOCK dvd ?p" "BLOCK dvd ?e" "entry_start g \<le> ?e"
    using sound by (simp_all add: segment_sound_def)
  have recs: "length (pp_records pre) = blocks_for (length ?ws) * BLOCK" "pp_seq pre = next_seq generation l"
    using prepare_ok [OF fit valid ids seq, of C d tag] pre by (metis Inr_inject length_replicate)+
  have pb: "?p + blocks_for (length ?ws) * BLOCK \<le> persist_end g" "?e + length (pp_entries pre) \<le> entry_end g"
    using room recs s(1) by (simp_all add: segment_fits_def)
  have pe: "?p + blocks_for (length ?ws) * BLOCK \<le> ?e" using pb(1) s(5) by (simp add: geometry_defs)
  have full: "?e + length (pp_entries pre) \<le> length (sg_image s)" using pb(2) s(2) by (simp add: entry_end_total)
  show thesis
    apply (rule committed_batch [OF fit valid ids seq ne s(2) s(3) pe s(4), of C d tag])
    subgoal premises q for pre' post prs
    proof -
      have eq: "pre' = pre" using q(1) pre by simp
      have place: "place C ?p ?e pre = Inr post" using q(2) full eq by simp
      then have po: "pp_persist_at post = ?p" "pp_entry_at post = ?e" "pp_entries post = pp_entries pre" "pp_seq post = pp_seq pre"
        by (auto simp: place_def Let_def split: if_splits)
      have dvd: "BLOCK dvd length (pp_entries post)" "BLOCK dvd length (pp_records post)"
        using q(8,12) eq po by (simp_all add: align_up_dvd)
      show thesis
        by (rule that [OF place]) (use q eq full po recs pb pe s dvd in \<open>simp_all add: extents_ok_def\<close>)
    qed
    done
qed

section \<open>Reading what was written\<close>

text \<open>What a read returns, as a function of the segments and of the index at that position.\<close>

definition entry_in :: "crc_lib \<Rightarrow> u32 \<Rightarrow> segment list \<Rightarrow> u64 \<Rightarrow> located option \<Rightarrow> read_error + jentry" where
  "entry_in C tag ss position lo =
     (case lo of None \<Rightarrow> Inl (ReadEmpty position)
      | Some at \<Rightarrow>
        if lo_damaged at then Inl (ReadDamaged position (lo_id at))
        else case seg_at ss (lo_segment at) of None \<Rightarrow> Inl ReadPanic
        | Some s \<Rightarrow> judge C tag position at (bslice (unat (lo_offset at)) (entry_bytes at) (sg_image s)))"

lemma read_entry_in: "read C j p = entry_in C (jn_tag j) (jn_segments j) p (om_get (jn_index j) p)"
  by (auto simp: read_def entry_in_def seg_at_find segment_index_def read_at_def split: option.splits)

lemma entry_in_cong:
  assumes "\<And>at. lo = Some at \<Longrightarrow> map_option (\<lambda>s. bslice (unat (lo_offset at)) (entry_bytes at) (sg_image s)) (seg_at ss (lo_segment at))
    = map_option (\<lambda>s. bslice (unat (lo_offset at)) (entry_bytes at) (sg_image s)) (seg_at ss' (lo_segment at))"
  shows "entry_in C tag ss p lo = entry_in C tag ss' p lo"
  using assms by (cases lo) (auto simp: entry_in_def split: option.splits)

lemma judge_written:
  assumes enc: "entry_encode C (header_of tag r) payload = (pr_entry_crc r, bs)" and r: "record_ok r"
    and len: "unat (pr_len r) = length payload"
    and at: "record_of (pr_position r) at = r"
  shows "judge C tag (pr_position r) at bs = Inr \<lparr>en_position = pr_position r, en_id = pr_id r, en_payload = payload\<rparr>"
proof -
  have h: "header_ok (header_of tag r)" using r by (simp add: header_ok_def header_of_def record_ok_def)
  note e = entry_round_trip [OF h enc]
  have f: "lo_len at = pr_len r" "lo_id at = pr_id r" by (subst at [symmetric], simp add: record_of_def)+
  have "drop RECORD_SIZE bs = payload" using e(1) e(4) [of "[]"] by (simp add: bslice_def)
  then show ?thesis using e(1) e(2) [of "[]"] e(3) [of "[]"] f at len
    by (simp add: judge_def entry_bytes_def entry_matches_def header_of_def)
qed

text \<open>What a list of writes does to the answers of \<open>read\<close>.\<close>

fun write_effect :: "jwrite \<Rightarrow> (u64 \<Rightarrow> read_error + jentry) \<Rightarrow> u64 \<Rightarrow> read_error + jentry" where
  "write_effect (WPut p i payload) f = f(p := Inr \<lparr>en_position = p, en_id = i, en_payload = payload\<rparr>)"
| "write_effect (WClear a z) f = (\<lambda>p. if a \<le> p \<and> p < z then Inl (ReadEmpty p) else f p)"

definition writes_effect :: "jwrite list \<Rightarrow> (u64 \<Rightarrow> read_error + jentry) \<Rightarrow> u64 \<Rightarrow> read_error + jentry" where
  "writes_effect ws f = foldl (\<lambda>f w. write_effect w f) f ws"

fun op_reads :: "crc_lib \<Rightarrow> u32 \<Rightarrow> segment list \<Rightarrow> jwrite \<Rightarrow> jop \<Rightarrow> bool" where
  "op_reads C tag ss (WPut p i payload) (JPut q at) =
     (q = p \<and> entry_in C tag ss p (Some at) = Inr \<lparr>en_position = p, en_id = i, en_payload = payload\<rparr>)"
| "op_reads C tag ss (WClear a z) (JClear a' z') = (a' = a \<and> z' = z)"
| "op_reads C tag ss _ _ = False"

lemma entry_in_ops:
  "list_all2 (op_reads C tag ss) ws ops \<Longrightarrow>
   entry_in C tag ss p (map_ops ops m p) = writes_effect ws (\<lambda>p. entry_in C tag ss p (m p)) p"
proof (induction ws arbitrary: ops m)
  case Nil
  then show ?case by (simp add: map_ops_def writes_effect_def)
next
  case (Cons w ws)
  then obtain op ops' where ops: "ops = op # ops'" "op_reads C tag ss w op" "list_all2 (op_reads C tag ss) ws ops'"
    by (auto simp: list_all2_Cons1)
  have "(\<lambda>p. entry_in C tag ss p (map_op op m p)) = write_effect w (\<lambda>p. entry_in C tag ss p (m p))"
    using ops(2) by (cases w; cases op) (auto simp: fun_eq_iff entry_in_def)
  then show ?case using Cons.IH [OF ops(3), of "map_op op m"] ops(1) by (simp add: map_ops_def writes_effect_def)
qed

text \<open>The entries of a batch that lies intact in the last segment.\<close>

lemma commit_ops_read:
  assumes pk: "packed C tag (sg_image s) e prs" and ok: "\<forall>pr \<in> set prs. record_ok (fst pr)"
    and last: "seg_at ss (sg_first_batch s) = Some s"
    and rf: "records_for f c seq k ws (map fst prs)" and pl: "map snd prs = map payload_of ws" and k: "k + length ws < 2 ^ 16"
  shows "list_all2 (op_reads C tag ss) ws (commit_ops (sg_first_batch s) q k (zip (map fst prs) ws))"
  using pk ok rf pl k
proof (induction ws arbitrary: prs e k)
  case Nil
  then show ?case by simp
next
  case (Cons w ws)
  then obtain r payload prs' where prs: "prs = (r, payload) # prs'" by (cases prs) auto
  have enc: "entry_encode C (header_of tag r) payload = (pr_entry_crc r, bslice (unat (pr_offset r)) (RECORD_SIZE + length payload) (sg_image s))"
    and len: "unat (pr_len r) = length payload" and rest: "packed C tag (sg_image s) (e + footprint (pr_len r)) prs'"
    using Cons.prems(1) prs by (auto split: prod.splits)
  have "list_all2 (op_reads C tag ss) ws (commit_ops (sg_first_batch s) q (Suc k) (zip (map fst prs') ws))"
    using Cons.prems rest prs by (intro Cons.IH [OF rest]) auto
  moreover have "op_reads C tag ss w (write_op (sg_first_batch s) q k r w)"
  proof (cases w)
    case (WPut p i pay)
    have r: "pr_kind r = Put" "pr_position r = p" "pr_id r = i" "unat (pr_index r) = k" "pay = payload" "record_ok r"
      using Cons.prems prs WPut by auto
    have idx: "of_nat k = pr_index r" unfolding r(4) [symmetric] by simp
    obtain lo where lo: "write_op (sg_first_batch s) q k r w = JPut p lo" "lo_segment lo = sg_first_batch s"
      "lo_offset lo = pr_offset r" "lo_len lo = pr_len r" "\<not> lo_damaged lo" "record_of (pr_position r) lo = r"
      using WPut idx r(1,4) by (cases r) (auto simp: write_op_def record_of_def)
    show ?thesis using judge_written [OF enc r(6) len lo(6)] lo r len last WPut
      by (simp add: entry_in_def entry_bytes_def)
  next
    case (WClear a z)
    then show ?thesis by (simp add: write_op_def)
  qed
  ultimately show ?case using prs by simp
qed

section \<open>Dead segments\<close>

text \<open>The journal while its first segment is on its way out, and once it is gone.\<close>

definition renaming :: "journal \<Rightarrow> journal" where
  "renaming j = (if jn_spare j = None then snd (next_spare_name j) else j)"

definition shifted :: "segment \<Rightarrow> segment list \<Rightarrow> journal \<Rightarrow> journal" where
  "shifted s rest j =
     (if jn_spare j = None
      then (renaming j)\<lparr>jn_spare := Some (fst (next_spare_name j), sg_image s), jn_segments := rest\<rparr>
      else j\<lparr>jn_segments := rest\<rparr>)"

lemma remove_dead_stop: "length (jn_segments j) \<le> 1 \<Longrightarrow> remove_dead_segments n j io = (Some n, j, io)"
  by (subst remove_dead_segments.simps) (auto split: list.splits)

lemma remove_dead_step:
  assumes "jn_segments j = s # s' # rest"
  shows "remove_dead_segments n j io =
    (if sg_live s = 0
     then case calls 2 io of (False, io) \<Rightarrow> (None, renaming j, io)
       | (True, io) \<Rightarrow> remove_dead_segments (n + 1) (shifted s (s' # rest) j) io
     else (Some n, j, io))"
  using assms
  by (subst remove_dead_segments.simps, cases "jn_spare j"; cases "calls 2 io")
    (auto simp: renaming_def shifted_def next_spare_name_def split: bool.splits)

lemma shifted_simps:
  "jn_segments (shifted s rest j) = rest"
  "jn_spare (shifted s rest j) = jn_spare j \<or> (\<exists>name. jn_spare (shifted s rest j) = Some (name, sg_image s))"
  "(shifted s rest j)\<lparr>jn_segments := x, jn_spare := y, jn_spares_named := z\<rparr> = j\<lparr>jn_segments := x, jn_spare := y, jn_spares_named := z\<rparr>"
  by (simp_all add: shifted_def renaming_def next_spare_name_def)

lemma renaming_eq: "renaming j = j\<lparr>jn_segments := jn_segments j, jn_spare := jn_spare j, jn_spares_named := jn_spares_named (renaming j)\<rparr>"
  by (simp add: renaming_def next_spare_name_def)

lemma remove_dead_spec:
  "remove_dead_segments n j io = (res, j', io') \<Longrightarrow>
   \<exists>k spare named. j' = j\<lparr>jn_segments := drop k (jn_segments j), jn_spare := spare, jn_spares_named := named\<rparr> \<and>
     (\<forall>s \<in> set (take k (jn_segments j)). sg_live s = 0) \<and> (k = 0 \<or> k < length (jn_segments j)) \<and>
     (spare = jn_spare j \<or> (\<exists>s \<in> set (take k (jn_segments j)). \<exists>name. spare = Some (name, sg_image s))) \<and>
     (res = None \<or> res = Some (n + k))"
proof (induction "length (jn_segments j)" arbitrary: n j io rule: less_induct)
  case less
  have stop: ?case if "j' = j\<lparr>jn_segments := jn_segments j, jn_spare := jn_spare j, jn_spares_named := x\<rparr>" "res = None \<or> res = Some n" for x
    using that by (intro exI [of _ 0] exI [of _ "jn_spare j"] exI [of _ x]) simp
  show ?case
  proof (cases "length (jn_segments j) \<le> 1")
    case True
    then show ?thesis using less.prems by (intro stop [of "jn_spares_named j"]) (simp_all add: remove_dead_stop)
  next
    case False
    then obtain s s' rest where ss: "jn_segments j = s # s' # rest"
      by (cases "jn_segments j"; cases "tl (jn_segments j)") auto
    obtain ok io1 where c: "calls 2 io = (ok, io1)" by (cases "calls 2 io")
    show ?thesis
    proof (cases "sg_live s = 0 \<and> ok")
      case False
      then consider "j' = j" "res = Some n" | "j' = renaming j" "res = None"
        using less.prems c by (auto simp: remove_dead_step [OF ss] split: if_splits)
      then show ?thesis
      proof cases
        case 1
        then show ?thesis by (intro stop [of "jn_spares_named j"]) simp_all
      next
        case 2
        show ?thesis by (rule stop, unfold 2(1), rule renaming_eq) (simp add: 2(2))
      qed
    next
      case True
      let ?j = "shifted s (s' # rest) j"
      have step: "remove_dead_segments (n + 1) ?j io1 = (res, j', io')"
        using less.prems c True by (simp add: remove_dead_step [OF ss])
      obtain k spare named where
        k: "j' = ?j\<lparr>jn_segments := drop k (s' # rest), jn_spare := spare, jn_spares_named := named\<rparr>"
        "\<forall>s \<in> set (take k (s' # rest)). sg_live s = 0" "k = 0 \<or> k < length (s' # rest)"
        "spare = jn_spare ?j \<or> (\<exists>s \<in> set (take k (s' # rest)). \<exists>name. spare = Some (name, sg_image s))"
        "res = None \<or> res = Some (n + 1 + k)"
        using less.hyps [OF _ step] ss unfolding shifted_simps(1) by (elim exE conjE meta_impE) simp_all
      have "j' = j\<lparr>jn_segments := drop (Suc k) (jn_segments j), jn_spare := spare, jn_spares_named := named\<rparr>"
        using k(1) ss by (simp add: shifted_simps)
      moreover have "spare = jn_spare j \<or> (\<exists>s \<in> set (take (Suc k) (jn_segments j)). \<exists>name. spare = Some (name, sg_image s))"
        using k(4) ss shifted_simps(2) [of s "s' # rest" j] by auto
      ultimately show ?thesis using k(2,3,5) ss True by (intro exI [of _ "Suc k"] exI [of _ spare] exI [of _ named]) auto
    qed
  qed
qed

text \<open>A segment without its live count, and a journal without what \<open>after_commit\<close> changes.\<close>

definition stored :: "segment \<Rightarrow> segment" where
  "stored s = s\<lparr>sg_live := 0\<rparr>"

definition rest_of :: "journal \<Rightarrow> journal" where
  "rest_of j = j\<lparr>jn_index := [], jn_segments := [], jn_spare := None, jn_spares_named := 0\<rparr>"

definition trimmed :: "journal \<Rightarrow> journal \<Rightarrow> bool" where
  "trimmed j j' =
     (rest_of j' = rest_of j \<and> index_ok j' \<and>
      om_get (jn_index j') = (\<lambda>p. if p < mt_floor (jn_meta j) then None else om_get (jn_index j) p) \<and>
      (\<exists>k. map stored (jn_segments j') = drop k (map stored (jn_segments j)) \<and> (k = 0 \<or> k < length (jn_segments j)) \<and>
         (jn_spare j' = jn_spare j \<or> (\<exists>s \<in> set (take k (jn_segments j)). \<exists>name. jn_spare j' = Some (name, sg_image s)))))"

lemma stored_simps [simp]:
  "sg_first_batch (stored s) = sg_first_batch s" "sg_image (stored s) = sg_image s" "sg_geometry (stored s) = sg_geometry s"
  "sg_entry_next (stored s) = sg_entry_next s" "sg_persist_next (stored s) = sg_persist_next s"
  "sg_prev_batch (stored s) = sg_prev_batch s"
  by (simp_all add: stored_def)

lemma rest_of_same:
  assumes "rest_of j = rest_of j'"
  shows "jn_meta j = jn_meta j'" "jn_tag j = jn_tag j'" "jn_geometry j = jn_geometry j'" "jn_meta_file j = jn_meta_file j'"
    "jn_last_batch j = jn_last_batch j'" "jn_poisoned j = jn_poisoned j'" "jn_generation j = jn_generation j'"
    "jn_durability j = jn_durability j'" "jn_id j = jn_id j'" "jn_ambiguous_batch j = jn_ambiguous_batch j'"
  using arg_cong [OF assms, of jn_meta] arg_cong [OF assms, of jn_tag] arg_cong [OF assms, of jn_geometry]
    arg_cong [OF assms, of jn_meta_file] arg_cong [OF assms, of jn_last_batch] arg_cong [OF assms, of jn_poisoned]
    arg_cong [OF assms, of jn_generation] arg_cong [OF assms, of jn_durability] arg_cong [OF assms, of jn_id]
    arg_cong [OF assms, of jn_ambiguous_batch]
  by (simp_all add: rest_of_def)

lemma frozen_stored:
  assumes "frozen j = frozen j'"
  shows "map stored (jn_segments j) = map stored (jn_segments j')" "rest_of j = rest_of j'" "jn_spare j = jn_spare j'"
proof -
  show "map stored (jn_segments j) = map stored (jn_segments j')" "jn_spare j = jn_spare j'"
    using arg_cong [OF assms, of jn_segments] arg_cong [OF assms, of jn_spare] by (simp_all add: frozen_def stored_def [abs_def])
  show "rest_of j = rest_of j'" using arg_cong [OF assms, of rest_of] by (simp add: frozen_def rest_of_def)
qed

lemma seg_at_stored: "seg_at (map stored ss) b = map_option stored (seg_at ss b)"
  by (induction ss) (auto simp: seg_at_Cons)

lemma seg_at_drop:
  "sorted_wrt (<) (map sg_first_batch ss) \<Longrightarrow> b \<in> sg_first_batch ` set (drop k ss) \<Longrightarrow> seg_at (drop k ss) b = seg_at ss b"
proof (induction ss arbitrary: k)
  case (Cons s ss)
  show ?case
  proof (cases k)
    case (Suc i)
    then have "b \<in> sg_first_batch ` set (drop i ss)" using Cons.prems(2) by simp
    then have "sg_first_batch s < b" using Cons.prems(1) set_drop_subset [of i ss] by auto
    then show ?thesis using Cons Suc by (auto simp: seg_at_Cons)
  qed simp
qed simp

text \<open>Segments that agree up to live counts, with dead ones dropped from the front, agree on what the index names.\<close>

lemma trimmed_seg_at:
  assumes "trimmed j j'" "sorted_wrt (<) (firsts j)" "om_get (jn_index j') p = Some at"
  shows "map_option stored (seg_at (jn_segments j') (lo_segment at)) = map_option stored (seg_at (jn_segments j) (lo_segment at))"
proof -
  obtain k where k: "map stored (jn_segments j') = drop k (map stored (jn_segments j))" using assms(1) by (auto simp: trimmed_def)
  have "lo_segment at \<in> set (firsts j')" using assms(1,3) by (auto simp: trimmed_def index_ok_def)
  then have "lo_segment at \<in> sg_first_batch ` set (map stored (jn_segments j'))"
    by (auto simp: firsts_def image_image)
  then have "seg_at (map stored (jn_segments j')) (lo_segment at) = seg_at (map stored (jn_segments j)) (lo_segment at)"
    unfolding k using assms(2) by (intro seg_at_drop) (simp_all add: firsts_def comp_def)
  then show ?thesis by (simp add: seg_at_stored)
qed

lemma of_stored:
  assumes "map_option stored a = map_option stored b" "\<And>s. f (stored s) = f s"
  shows "map_option f a = map_option f b"
proof -
  have "map_option f x = map_option f (map_option stored x)" for x
    using assms(2) by (simp add: option.map_comp comp_def)
  then show ?thesis using assms(1) by metis
qed

lemma entry_held_stored:
  assumes "map_option stored (seg_at ss' (lo_segment at)) = map_option stored (seg_at ss (lo_segment at))"
  shows "entry_held g ss' at = entry_held g ss at"
  using of_stored [OF assms, of sg_entry_next] by (auto simp: entry_held_def split: option.splits)

lemma trimmed_read:
  assumes t: "trimmed j j'" and so: "sorted_wrt (<) (firsts j)"
  shows "read C j' p = (if p < mt_floor (jn_meta j) then Inl (ReadEmpty p) else read C j p)"
proof -
  have ix: "om_get (jn_index j') = (\<lambda>p. if p < mt_floor (jn_meta j) then None else om_get (jn_index j) p)"
    and r: "rest_of j' = rest_of j"
    using t by (simp_all add: trimmed_def)
  have tag: "jn_tag j' = jn_tag j" by (rule rest_of_same(2) [OF r])
  have "entry_in C (jn_tag j) (jn_segments j') p (om_get (jn_index j') p) = entry_in C (jn_tag j) (jn_segments j) p (om_get (jn_index j') p)"
  proof (rule entry_in_cong)
    fix at assume at: "om_get (jn_index j') p = Some at"
    show "map_option (\<lambda>s. bslice (unat (lo_offset at)) (entry_bytes at) (sg_image s)) (seg_at (jn_segments j') (lo_segment at))
      = map_option (\<lambda>s. bslice (unat (lo_offset at)) (entry_bytes at) (sg_image s)) (seg_at (jn_segments j) (lo_segment at))"
      by (rule of_stored [OF trimmed_seg_at [OF t so at]]) simp
  qed
  then show ?thesis using ix tag by (simp add: read_entry_in entry_in_def)
qed

lemma trimmed_core:
  assumes t: "trimmed j j'" and c: "journal_core j"
  shows "journal_core j'"
proof -
  obtain k where k: "map stored (jn_segments j') = drop k (map stored (jn_segments j))"
    "jn_spare j' = jn_spare j \<or> (\<exists>s \<in> set (take k (jn_segments j)). \<exists>name. jn_spare j' = Some (name, sg_image s))"
    using t by (auto simp: trimmed_def)
  have so: "sorted_wrt (<) (firsts j)" using c by (simp add: journal_core_def index_ok_def)
  have r: "rest_of j' = rest_of j" and ix: "index_ok j'"
    "om_get (jn_index j') = (\<lambda>p. if p < mt_floor (jn_meta j) then None else om_get (jn_index j) p)"
    using t by (simp_all add: trimmed_def)
  note same = rest_of_same [OF r]
  have "\<forall>s \<in> set (map stored (jn_segments j')). segment_sound (jn_geometry j) s"
    unfolding k using c set_drop_subset [of k "map stored (jn_segments j)"]
    by (fastforce simp: journal_core_def segment_sound_def)
  then have "\<forall>s \<in> set (jn_segments j'). segment_sound (jn_geometry j) s" by (simp add: segment_sound_def)
  moreover have "entry_held (jn_geometry j) (jn_segments j') at" if "om_get (jn_index j') p = Some at" for p at
    using entry_held_stored [OF trimmed_seg_at [OF t so that], of "jn_geometry j"] that ix(2) c
    by (auto simp: journal_core_def split: if_splits)
  moreover have "case jn_spare j' of None \<Rightarrow> True | Some (_, img) \<Rightarrow> length img = total_blocks (jn_geometry j) * BLOCK"
    using k(2) c set_take_subset [of k "jn_segments j"] by (auto simp: journal_core_def segment_sound_def split: option.splits)
  ultimately show ?thesis using c ix(1) same by (simp add: journal_core_def cong: option.case_cong)
qed

lemma index_ok_drop:
  assumes "index_ok j" "\<forall>s \<in> set (take k (jn_segments j)). sg_live s = 0"
  shows "index_ok (j\<lparr>jn_segments := drop k (jn_segments j), jn_spare := x, jn_spares_named := y\<rparr>)"
proof -
  have dead: "sg_first_batch s \<noteq> lo_segment at" if "s \<in> set (take k (jn_segments j))" "om_get (jn_index j) p = Some at" for s p at
  proof -
    have "sg_live s = live_in (sg_first_batch s) (jn_index j)"
      using assms(1) in_set_takeD [OF that(1)] unfolding index_ok_def by blast
    moreover have "sg_live s = 0" using assms(2) that(1) by blast
    ultimately have "live_in (sg_first_batch s) (jn_index j) = 0" by simp
    then show ?thesis using om.counting_pos [of "jn_index j" p at "\<lambda>at'. lo_segment at' = sg_first_batch s"] assms(1) that(2)
      by (auto simp: live_in_def index_ok_def)
  qed
  have split: "set (jn_segments j) = set (take k (jn_segments j)) \<union> set (drop k (jn_segments j))"
    by (metis append_take_drop_id set_append)
  have "lo_segment at \<in> sg_first_batch ` set (drop k (jn_segments j))" if "om_get (jn_index j) p = Some at" for p at
  proof -
    have "lo_segment at \<in> sg_first_batch ` set (jn_segments j)" using assms(1) that by (auto simp: index_ok_def firsts_def)
    then show ?thesis using dead [OF _ that] split by fastforce
  qed
  moreover have "sorted_wrt (<) (drop k (firsts j))" using assms(1) by (intro sorted_wrt_drop) (simp add: index_ok_def)
  ultimately show ?thesis using assms(1) split by (auto simp: index_ok_def firsts_def drop_map)
qed

lemma after_commit_spec:
  assumes a: "after_commit j io = (res, j', io')" and c: "index_ok j" and m: "meta_fits (jn_meta j)"
  shows "res = Inl (CommitIo DurableUnknown) \<and> jn_poisoned j' \<or> res = Inr () \<and> trimmed j j'"
proof -
  obtain j1 where j1: "drop_below_floor j = Inr j1" "index_ok j1" "frozen j1 = frozen j"
    "om_get (jn_index j1) = (\<lambda>p. if p < mt_floor (jn_meta j) then None else om_get (jn_index j) p)"
    using drop_below_floor_ok [OF c] by blast
  note fz = frozen_stored [OF j1(3)]
  obtain r j2 io2 where r: "remove_dead_segments 0 j1 io = (r, j2, io2)" by (cases "remove_dead_segments 0 j1 io")
  obtain k spare named where k: "j2 = j1\<lparr>jn_segments := drop k (jn_segments j1), jn_spare := spare, jn_spares_named := named\<rparr>"
    "\<forall>s \<in> set (take k (jn_segments j1)). sg_live s = 0" "k = 0 \<or> k < length (jn_segments j1)"
    "spare = jn_spare j1 \<or> (\<exists>s \<in> set (take k (jn_segments j1)). \<exists>name. spare = Some (name, sg_image s))"
    using remove_dead_spec [OF r] by blast
  have ok: "index_ok j2" unfolding k(1) by (rule index_ok_drop [OF j1(2) k(2)])
  have meta: "jn_meta j2 = jn_meta j" using rest_of_same(1) [OF fz(2)] k(1) by simp
  have len: "length (jn_segments j1) = length (jn_segments j)" using fz(1) by (metis length_map)
  have "\<exists>s \<in> set (take k (jn_segments j)). sg_image s = sg_image t" if "t \<in> set (take k (jn_segments j1))" for t
  proof -
    have "stored t \<in> set (take k (map stored (jn_segments j1)))" using that by (simp add: take_map)
    then have "stored t \<in> stored ` set (take k (jn_segments j))" using fz(1) by (simp add: take_map)
    then show ?thesis by (metis imageE stored_simps(2))
  qed
  then have sp: "spare = jn_spare j \<or> (\<exists>s \<in> set (take k (jn_segments j)). \<exists>name. spare = Some (name, sg_image s))"
    using k(4) fz(3) by (metis (no_types, lifting))
  have dr: "map stored (drop k (jn_segments j1)) = drop k (map stored (jn_segments j))" using fz(1) by (metis drop_map)
  have "rest_of j2 = rest_of j1" unfolding k(1) by (simp add: rest_of_def)
  then have "trimmed j j2"
    using k(1,3) sp dr fz(2) j1(4) ok len unfolding trimmed_def by (intro conjI exI [of _ k]) simp_all
  moreover have "assert_invariants j2"
    by (rule assert_invariants_ok [OF ok]) (use meta m k(1) j1(4) in \<open>auto simp: meta_fits_def split: if_splits\<close>)
  ultimately show ?thesis using a j1(1) r by (auto simp: after_commit_def split: option.splits)
qed

section \<open>A batch with writes\<close>

lemma map_ops_held:
  "\<forall>p at. m p = Some at \<longrightarrow> P at \<Longrightarrow> \<forall>p at. JPut p at \<in> set ops \<longrightarrow> P at \<Longrightarrow> map_ops ops m p = Some at \<Longrightarrow> P at"
proof (induction ops arbitrary: m)
  case (Cons op ops)
  have "\<forall>p at. map_op op m p = Some at \<longrightarrow> P at" using Cons.prems by (cases op) (auto split: if_splits)
  then show ?case using Cons by (auto simp: map_ops_def)
qed (simp add: map_ops_def)

lemma commit_ops_puts:
  assumes "packed C tag img e prs" "length prs = length ws" "JPut p at \<in> set (commit_ops f q k (zip (map fst prs) ws))"
  shows "lo_segment at = f \<and> e \<le> unat (lo_offset at) \<and> unat (lo_offset at) + entry_bytes at \<le> e + extent prs"
  using assms
proof (induction prs arbitrary: ws e k)
  case (Cons pr prs)
  obtain r payload where pr: "pr = (r, payload)" by (cases pr)
  obtain w ws' where ws: "ws = w # ws'" using Cons.prems(2) by (cases ws) auto
  have fp: "RECORD_SIZE + unat (pr_len r) \<le> footprint (pr_len r)" by (rule footprint_ge)
  have here: "unat (pr_offset r) = e" and rest: "packed C tag img (e + footprint (pr_len r)) prs" using Cons.prems(1) pr by auto
  consider "JPut p at = write_op f q k r w" | "JPut p at \<in> set (commit_ops f q (Suc k) (zip (map fst prs) ws'))"
    using Cons.prems(3) pr ws by auto
  then show ?case
  proof cases
    case 1
    then show ?thesis using here fp pr by (cases w) (auto simp: write_op_def entry_bytes_def)
  next
    case 2
    then show ?thesis using Cons.IH [OF rest _ 2] Cons.prems(2) ws pr by auto
  qed
qed simp

lemma commit_ops_clears:
  "\<forall>w \<in> set ws. case w of WPut _ _ _ \<Rightarrow> True | WClear a z \<Rightarrow> a < z \<Longrightarrow>
   JClear a z \<in> set (commit_ops f q k (zip rs ws)) \<Longrightarrow> a < z"
proof (induction rs arbitrary: ws k)
  case (Cons r rs)
  show ?case
  proof (cases ws)
    case (Cons w ws')
    then show ?thesis using Cons.IH [of ws' "Suc k"] Cons.prems
      by (cases w) (auto simp: write_op_def)
  qed (use Cons.prems in simp)
qed simp

text \<open>The journal on its way: the batch is in the active segment's file, whose cursors have moved.\<close>

lemma rolled_seq: "rolled C p j ss s \<Longrightarrow> pp_seq p' = pp_seq p \<Longrightarrow> length (pp_records p') = length (pp_records p) \<Longrightarrow>
  length (pp_entries p') = length (pp_entries p) \<Longrightarrow> rolled C p' j ss s"
  by (simp add: rolled_def)

lemma rolled_sound:
  assumes r: "rolled C p j ss s" and c: "journal_core j"
  shows "segment_sound (jn_geometry j) s" "\<forall>t \<in> set ss. segment_sound (jn_geometry j) t"
proof -
  have "\<forall>t \<in> set ss. t \<in> set (jn_segments j)" using r by (auto simp: rolled_def)
  then show "\<forall>t \<in> set ss. segment_sound (jn_geometry j) t" using c by (auto simp: journal_core_def)
  show "segment_sound (jn_geometry j) s"
  proof (cases "jn_segments j = ss @ [s]")
    case True
    then show ?thesis using c by (simp add: journal_core_def)
  next
    case False
    then obtain base where b: "base \<in> insert (zero_image (jn_geometry j)) (snd ` set_option (jn_spare j))"
      "s = fresh_segment (pp_seq p) (jn_last_batch j) (jn_geometry j) (put_at 0 (header_blocks C (roll_header j (pp_seq p))) base)"
      using r by (auto simp: rolled_def)
    have len: "length base = total_blocks (jn_geometry j) * BLOCK"
      using b(1) c by (auto simp: zero_image_def journal_core_def split: option.splits)
    have "2 * BLOCK \<le> total_blocks (jn_geometry j) * BLOCK" by (simp add: total_blocks_def)
    then show ?thesis using b(2) len
      by (simp add: segment_sound_def fresh_segment_def length_header_blocks geometry_defs PERSIST_START_def)
  qed
qed

lemma rolled_index:
  assumes r: "rolled C p j ss s" and c: "journal_core j" and l: "\<forall>t \<in> set (jn_segments j). sg_first_batch t < pp_seq p"
  shows "sorted_wrt (<) (map sg_first_batch (ss @ [s]))"
    "\<forall>t \<in> set (ss @ [s]). sg_live t = live_in (sg_first_batch t) (jn_index j)"
    "set (firsts j) \<subseteq> sg_first_batch ` set (ss @ [s])"
    "om_get (jn_index j) q = Some at \<Longrightarrow> seg_at (jn_segments j) (lo_segment at) = seg_at (ss @ [s]) (lo_segment at)"
proof -
  have ix: "index_ok j" using c by (simp add: journal_core_def)
  have all: "sorted_wrt (<) (map sg_first_batch (ss @ [s])) \<and>
    (\<forall>t \<in> set (ss @ [s]). sg_live t = live_in (sg_first_batch t) (jn_index j)) \<and> set (firsts j) \<subseteq> sg_first_batch ` set (ss @ [s]) \<and>
    (\<forall>q at. om_get (jn_index j) q = Some at \<longrightarrow> seg_at (jn_segments j) (lo_segment at) = seg_at (ss @ [s]) (lo_segment at))"
  proof (cases "jn_segments j = ss @ [s]")
    case True
    then show ?thesis using ix by (auto simp: index_ok_def firsts_def)
  next
    case False
    then have n: "jn_segments j = ss" "sg_first_batch s = pp_seq p" "sg_live s = 0" using r by (auto simp: rolled_def fresh_segment_def)
    have mem: "lo_segment at \<in> sg_first_batch ` set ss" if "om_get (jn_index j) q = Some at" for q at
      using ix n(1) that by (auto simp: index_ok_def firsts_def)
    then have "lo_segment at \<noteq> pp_seq p" if "om_get (jn_index j) q = Some at" for q at using l n(1) that by fastforce
    then have "live_in (pp_seq p) (jn_index j) = 0"
      using ix by (simp add: live_in_def om.counting_zero index_ok_def)
    moreover have "seg_at ss (lo_segment at) = seg_at (ss @ [s]) (lo_segment at)" if "om_get (jn_index j) q = Some at" for q at
    proof -
      have "seg_at ss (lo_segment at) \<noteq> None" using mem [OF that] by (induction ss) (auto simp: seg_at_Cons)
      then show ?thesis by (auto simp: seg_at_append split: option.splits)
    qed
    ultimately show ?thesis using ix n l by (auto simp: index_ok_def firsts_def sorted_wrt_append)
  qed
  then show "sorted_wrt (<) (map sg_first_batch (ss @ [s]))"
    "\<forall>t \<in> set (ss @ [s]). sg_live t = live_in (sg_first_batch t) (jn_index j)" "set (firsts j) \<subseteq> sg_first_batch ` set (ss @ [s])"
    "om_get (jn_index j) q = Some at \<Longrightarrow> seg_at (jn_segments j) (lo_segment at) = seg_at (ss @ [s]) (lo_segment at)"
    by blast+
qed

definition batch_written :: "crc_lib \<Rightarrow> batch \<Rightarrow> journal \<Rightarrow> segment \<Rightarrow> prepared \<Rightarrow> (precord \<times> bytes) list \<Rightarrow> bool" where
  "batch_written C b j s p prs =
     (pp_persist_at p = sg_persist_next s \<and> pp_entry_at p = sg_entry_next s
      \<and> pp_seq p = next_seq (jn_generation j) (jn_last_batch j) \<and> extents_ok p (sg_image s)
      \<and> batch_at C (jn_tag j) (write_batch p (sg_image s)) (sg_persist_next s) (sg_entry_next s) prs
      \<and> pp_decoded p = map fst prs \<and> map snd prs = map payload_of (bt_writes b)
      \<and> records_for (flags_of (jn_durability j)) (of_nat (length (bt_writes b))) (pp_seq p) 0 (bt_writes b) (map fst prs)
      \<and> length (pp_entries p) = align_up (extent prs) BLOCK \<and> sg_entry_next s + length (pp_entries p) \<le> entry_end (jn_geometry j)
      \<and> length (pp_records p) = blocks_for (length (bt_writes b)) * BLOCK)"

definition batch_ops_of :: "segment \<Rightarrow> prepared \<Rightarrow> batch \<Rightarrow> jop list" where
  "batch_ops_of s p b = commit_ops (sg_first_batch s) (pp_persist_at p) 0 (zip (pp_decoded p) (bt_writes b))"

text \<open>The journal once a batch is durable and before dead segments go.\<close>

definition wrote ::
  "crc_lib \<Rightarrow> batch \<Rightarrow> meta option \<Rightarrow> journal \<Rightarrow> segment list \<Rightarrow> segment \<Rightarrow> prepared \<Rightarrow> (precord \<times> bytes) list \<Rightarrow> journal \<Rightarrow> bool" where
  "wrote C b m j ss s p prs j' =
     (rolled C p j ss s \<and> batch_written C b j s p prs
      \<and> map stored (jn_segments j') = map stored (ss @ [advance p s]) \<and> index_ok j'
      \<and> om_get (jn_index j') = map_ops (batch_ops_of s p b) (om_get (jn_index j))
      \<and> (jn_spare j' = None \<or> jn_spare j' = jn_spare j)
      \<and> rest_of j' = (rest_of j)\<lparr>jn_last_batch := pp_seq p, jn_ambiguous_batch := None,
          jn_meta := (case m of None \<Rightarrow> jn_meta j | Some n \<Rightarrow> n),
          jn_meta_file := (case m of None \<Rightarrow> jn_meta_file j | Some n \<Rightarrow> meta_update C n (jn_meta_file j)),
          jn_onto_spare := jn_onto_spare j', jn_created := jn_created j'\<rparr>)"

lemma batch_written_prs:
  assumes "batch_written C b j s p prs"
  shows "packed C (jn_tag j) (sg_image (advance p s)) (sg_entry_next s) prs" "\<forall>pr \<in> set prs. record_ok (fst pr)"
    "length prs = length (bt_writes b)" "length (bt_writes b) < 2 ^ 16"
    "sg_entry_next s + extent prs \<le> sg_entry_next (advance p s)"
proof -
  have b: "batch_at C (jn_tag j) (write_batch p (sg_image s)) (sg_persist_next s) (sg_entry_next s) prs"
    and l: "length (pp_entries p) = align_up (extent prs) BLOCK" "map snd prs = map payload_of (bt_writes b)"
      "pp_entry_at p = sg_entry_next s"
    using assms by (simp_all add: batch_written_def)
  show "packed C (jn_tag j) (sg_image (advance p s)) (sg_entry_next s) prs" using b by (simp add: batch_at_def advance_def)
  show "\<forall>pr \<in> set prs. record_ok (fst pr)" using b unfolding batch_at_def by (metis in_set_conv_nth)
  show len: "length prs = length (bt_writes b)" using l(2) by (metis length_map)
  show "length (bt_writes b) < 2 ^ 16" using b len by (simp add: batch_at_def)
  show "sg_entry_next s + extent prs \<le> sg_entry_next (advance p s)"
    using l align_up_ge [of BLOCK "extent prs"] by (simp add: advance_def)
qed

lemma commit_memory_spec:
  assumes cm: "commit_memory p b m (length ss) j1 io = (res, j', io')"
    and segs: "jn_segments j1 = ss @ [s\<lparr>sg_image := write_batch p (sg_image s)\<rparr>]"
    and r: "rolled C p j ss s" and w: "batch_written C b j s p prs" and c: "journal_core j"
    and l: "\<forall>t \<in> set (jn_segments j). sg_first_batch t < pp_seq p" and b: "batch_ok b"
    and m: "meta_fits (case m of None \<Rightarrow> jn_meta j | Some n \<Rightarrow> n)"
    and rest: "j1 = j\<lparr>jn_segments := jn_segments j1, jn_spare := sp, jn_onto_spare := x, jn_created := y,
      jn_meta_file := (case m of None \<Rightarrow> jn_meta_file j | Some n \<Rightarrow> meta_update C n (jn_meta_file j))\<rparr>"
    and sp: "sp = None \<or> sp = jn_spare j"
  shows "res = Inl (CommitIo DurableUnknown) \<and> jn_poisoned j' \<or>
    res = Inr () \<and> (\<exists>j2. wrote C b m j ss s p prs j2 \<and> trimmed j2 j')"
proof -
  let ?s = "advance p s"
  note prs = batch_written_prs [OF w] and ri = rolled_index [OF r c l]
  define j2 where "j2 = j1\<lparr>jn_segments := ss @ [?s]\<rparr>"
  define ops where "ops = batch_ops_of s p b"
  have adv: "sg_first_batch ?s = sg_first_batch s" "sg_live ?s = sg_live s" by (simp_all add: advance_def)
  have j1: "jn_index j1 = jn_index j" "jn_meta j1 = jn_meta j" "jn_onto_spare j1 = x" "jn_created j1 = y" "jn_spare j1 = sp"
    by (subst rest, simp)+
  have step: "commit_memory p b m (length ss) j1 io =
    (case apply_ops ops j2 of Inl e \<Rightarrow> (Inl e, j2, io)
     | Inr j \<Rightarrow> after_commit (j\<lparr>jn_last_batch := pp_seq p, jn_ambiguous_batch := None,
          jn_meta := (case m of None \<Rightarrow> jn_meta j | Some m \<Rightarrow> m)\<rparr>) io)"
    using segs by (simp add: commit_memory_def set_segment_def Let_def ops_def batch_ops_of_def j2_def advance_def cong: sum.case_cong)
  have fi: "firsts j2 = map sg_first_batch (ss @ [s])" using adv by (simp add: j2_def firsts_def)
  have ix: "index_ok j2"
    using ri(1-3) c adv j1 by (auto simp: index_ok_def fi journal_core_def) (auto simp: j2_def j1)
  have decoded: "pp_decoded p = map fst prs" using w by (simp add: batch_written_def)
  have "op_placed j2 op" if op: "op \<in> set ops" for op
  proof (cases op)
    case (JPut q at)
    then have "lo_segment at = sg_first_batch s"
      using commit_ops_puts [OF prs(1,3)] op by (simp add: ops_def batch_ops_of_def decoded)
    then show ?thesis using JPut by (simp add: op_placed_def fi)
  next
    case (JClear a z)
    then have "a < z" using commit_ops_clears [of "bt_writes b" a z] b op
      by (simp add: ops_def batch_ops_of_def batch_ok_def)
    then show ?thesis using JClear by (simp add: op_placed_def)
  qed
  then obtain j3 where j3: "apply_ops ops j2 = Inr j3" "index_ok j3" "frozen j3 = frozen j2"
    "om_get (jn_index j3) = map_ops ops (om_get (jn_index j2))"
    using apply_ops_ok [OF ix] by blast
  note fz = frozen_stored [OF j3(3)]
  define j4 where "j4 = j3\<lparr>jn_last_batch := pp_seq p, jn_ambiguous_batch := None,
          jn_meta := (case m of None \<Rightarrow> jn_meta j | Some m \<Rightarrow> m)\<rparr>"
  have meta: "jn_meta j3 = jn_meta j" using rest_of_same(1) [OF fz(2)] j1 by (simp add: j2_def)
  have ac: "after_commit j4 io = (res, j', io')" using cm step j3(1) meta by (simp add: j4_def cong: option.case_cong)
  have ix4: "index_ok j4" using j3(2) by (simp add: j4_def index_ok_def firsts_def)
  have ro: "rest_of j4 = (rest_of j)\<lparr>jn_last_batch := pp_seq p, jn_ambiguous_batch := None,
          jn_meta := (case m of None \<Rightarrow> jn_meta j | Some n \<Rightarrow> n),
          jn_meta_file := (case m of None \<Rightarrow> jn_meta_file j | Some n \<Rightarrow> meta_update C n (jn_meta_file j)),
          jn_onto_spare := jn_onto_spare j4, jn_created := jn_created j4\<rparr>"
  proof -
    have "rest_of j4 = (rest_of j2)\<lparr>jn_last_batch := pp_seq p, jn_ambiguous_batch := None,
        jn_meta := (case m of None \<Rightarrow> jn_meta j | Some n \<Rightarrow> n)\<rparr>"
      unfolding fz(2) [symmetric] by (simp add: j4_def rest_of_def)
    moreover have "jn_onto_spare j4 = x" "jn_created j4 = y"
      using arg_cong [OF fz(2), of jn_onto_spare] arg_cong [OF fz(2), of jn_created] j1 by (simp_all add: j4_def j2_def rest_of_def)
    moreover have "rest_of j2 = (rest_of j)\<lparr>jn_meta_file := (case m of None \<Rightarrow> jn_meta_file j | Some n \<Rightarrow> meta_update C n (jn_meta_file j)),
        jn_onto_spare := x, jn_created := y\<rparr>"
      unfolding j2_def by (subst rest) (simp add: rest_of_def)
    ultimately show ?thesis by simp
  qed
  have "wrote C b m j ss s p prs j4"
    unfolding wrote_def
  proof (intro conjI)
    show "map stored (jn_segments j4) = map stored (ss @ [?s])" using fz(1) by (simp add: j4_def j2_def)
    show "om_get (jn_index j4) = map_ops (batch_ops_of s p b) (om_get (jn_index j))"
      using j3(4) j1 by (simp add: j4_def j2_def ops_def)
    have "jn_spare j4 = sp" using fz(3) j1 by (simp add: j4_def j2_def)
    then show "jn_spare j4 = None \<or> jn_spare j4 = jn_spare j" using sp by simp
  qed (fact r w ix4 ro)+
  moreover have "meta_fits (jn_meta j4)" using m by (simp add: j4_def)
  ultimately show ?thesis using after_commit_spec [OF ac ix4] by blast
qed

lemma commit_writes_spec:
  assumes cw: "commit_writes C b m j io = (res, j', io')" and ok: "journal_ok j" and b: "batch_ok b"
    and fit: "fits (jn_geometry j) b" and ne: "bt_writes b \<noteq> []" and nl: "numbers_left j"
    and m: "\<forall>n. m = Some n \<longrightarrow> meta_fits n"
  shows "(\<exists>d. res = Inl (CommitIo d)) \<and> jn_poisoned j' \<or>
    res = Inr () \<and> (\<exists>ss s p prs j1. wrote C b m j ss s p prs j1 \<and> trimmed j1 j')"
proof -
  let ?g = "jn_geometry j" and ?seq = "next_seq (jn_generation j) (jn_last_batch j)"
  have c: "journal_core j" and valid: "is_valid ?g" and ids: "ids_ok (bt_writes b)" and seq: "jn_last_batch j < ?seq"
    and older: "\<forall>t \<in> set (jn_segments j). sg_first_batch t \<le> jn_last_batch j" and mf: "meta_fits (jn_meta j)"
    using ok b nl by (simp_all add: journal_ok_def journal_core_def batch_ok_def numbers_left_def)
  obtain pre where pre: "prepare C ?g (jn_durability j) (jn_tag j) (jn_generation j) (jn_last_batch j) b = Inr pre"
    "pp_seq pre = ?seq" "length (pp_entries pre) \<le> unat (entry_blocks ?g) * BLOCK"
    "pp_records pre = replicate (blocks_for (length (bt_writes b)) * BLOCK) 0"
    "blocks_for (length (bt_writes b)) \<le> unat (persist_blocks ?g)"
    by (rule prepare_ok [OF fit valid ids seq]) blast
  have recs: "length (pp_records pre) div BLOCK \<le> unat (persist_blocks ?g)" using pre(4,5) by simp
  obtain r1 j1 io1 where sf: "segment_for C pre j io = (r1, j1, io1)" by (cases "segment_for C pre j io")
  consider "r1 = Inl (CommitIo DurableNo)" "jn_poisoned j1"
    | ss s spare x y where "r1 = Inr (length ss)" "rolled C pre j ss s"
      "j1 = j\<lparr>jn_segments := ss @ [s], jn_spare := spare, jn_onto_spare := x, jn_created := y\<rparr>" "spare = None \<or> spare = jn_spare j"
    using segment_for_spec [OF sf recs pre(3)] by blast
  then show ?thesis
  proof cases
    case 1
    then show ?thesis using cw pre(1) sf by (auto simp: commit_writes_def)
  next
    case 2
    have room: "segment_fits s (length (pp_records pre) div BLOCK) (length (pp_entries pre))" using 2(2) by (simp add: rolled_def)
    obtain p prs where p: "place C (sg_persist_next s) (sg_entry_next s) pre = Inr p"
      "batch_at C (jn_tag j) (write_batch p (sg_image s)) (sg_persist_next s) (sg_entry_next s) prs"
      "extents_ok p (sg_image s)" "pp_persist_at p = sg_persist_next s" "pp_entry_at p = sg_entry_next s"
      "pp_seq p = ?seq" "pp_decoded p = map fst prs" "map snd prs = map payload_of (bt_writes b)"
      "records_for (flags_of (jn_durability j)) (of_nat (length (bt_writes b))) ?seq 0 (bt_writes b) (map fst prs)"
      "length (pp_entries p) = align_up (extent prs) BLOCK" "sg_entry_next s + length (pp_entries p) \<le> entry_end ?g"
      "length (pp_records p) = length (pp_records pre)"
      by (rule committed_in_segment [OF rolled_sound(1) [OF 2(2) c] valid fit ids seq ne pre(1) room]) blast
    have w: "batch_written C b j s p prs" using p pre(4) by (simp add: batch_written_def)
    have "pp_entries p = pp_entries pre" using p(1) by (auto simp: place_def Let_def split: if_splits)
    then have r: "rolled C p j ss s" using p(6,12) pre(2) by (intro rolled_seq [OF 2(2)]) simp_all
    obtain res2 img meta io2 where wp: "write_protocol C p m (jn_durability j = Ordered) (sg_image s) (jn_meta_file j) io1 = (res2, img, meta, io2)"
      by (metis prod_cases4)
    have fo: "file_ok (jn_meta_file j)" using c by (simp add: journal_core_def)
    note ws = write_protocol_spec [OF wp p(3) fo m]
    define j2 where "j2 = (set_segment (length ss) (s\<lparr>sg_image := img\<rparr>) j1)\<lparr>jn_meta_file := meta\<rparr>"
    have run: "commit_writes C b m j io = (case res2 of Inl e \<Rightarrow> (Inl e, j2\<lparr>jn_poisoned := True\<rparr>, io2) | Inr _ \<Rightarrow> commit_memory p b m (length ss) j2 io2)"
      using pre(1) sf 2 p(1) wp by (simp add: commit_writes_def Let_def j2_def cong: sum.case_cong)
    show ?thesis
    proof (cases "res2 = Inr ()")
      case False
      then obtain d where "res2 = Inl (CommitIo d)" using ws by auto
      then show ?thesis using cw run by auto
    next
      case True
      have cm: "commit_memory p b m (length ss) j2 io2 = (res, j', io')" using cw run True by simp
      have img: "img = write_batch p (sg_image s)" "meta = (case m of None \<Rightarrow> jn_meta_file j | Some n \<Rightarrow> meta_update C n (jn_meta_file j))"
        using ws True by auto
      have "jn_segments j2 = ss @ [s\<lparr>sg_image := write_batch p (sg_image s)\<rparr>]" using 2(3) img by (simp add: j2_def set_segment_def)
      moreover have "j2 = j\<lparr>jn_segments := jn_segments j2, jn_spare := spare, jn_onto_spare := x, jn_created := y, jn_meta_file := meta\<rparr>"
        using 2(3) by (simp add: j2_def set_segment_def)
      moreover have "\<forall>t \<in> set (jn_segments j). sg_first_batch t < pp_seq p" using older seq p(6) by (metis order_le_less_trans)
      moreover have "meta_fits (case m of None \<Rightarrow> jn_meta j | Some n \<Rightarrow> n)" using m mf by (simp split: option.splits)
      ultimately show ?thesis using commit_memory_spec [OF cm _ r w c _ b] img(2) 2(4) by blast
    qed
  qed
qed

text \<open>What a batch that was written leaves of the invariant, and what it makes of the reads.\<close>

lemma wrote_seg_at:
  assumes w: "wrote C b m j ss s p prs j'" and c: "journal_core j"
    and l: "\<forall>t \<in> set (jn_segments j). sg_first_batch t < pp_seq p"
  shows "seg_at (ss @ [advance p s]) (sg_first_batch s) = Some (advance p s)"
    "om_get (jn_index j) q = Some at \<Longrightarrow> seg_at (ss @ [advance p s]) (lo_segment at) =
       (case seg_at (jn_segments j) (lo_segment at) of None \<Rightarrow> None | Some t \<Rightarrow> Some (if sg_first_batch t = sg_first_batch s then advance p s else t))"
    "om_get (jn_index j) q = Some at \<Longrightarrow> sg_first_batch s = lo_segment at \<Longrightarrow> seg_at (jn_segments j) (lo_segment at) = Some s"
proof -
  have r: "rolled C p j ss s" using w by (simp add: wrote_def)
  note ri = rolled_index [OF r c l]
  have adv: "sg_first_batch (advance p s) = sg_first_batch s" by (simp add: advance_def)
  have fresh: "seg_at ss (sg_first_batch s) = None" using ri(1) by (intro seg_at_fresh) (auto simp: sorted_wrt_append)
  then show "seg_at (ss @ [advance p s]) (sg_first_batch s) = Some (advance p s)" using adv by (simp add: seg_at_append)
  assume at: "om_get (jn_index j) q = Some at"
  note same = ri(4) [OF at]
  show "seg_at (ss @ [advance p s]) (lo_segment at) =
       (case seg_at (jn_segments j) (lo_segment at) of None \<Rightarrow> None | Some t \<Rightarrow> Some (if sg_first_batch t = sg_first_batch s then advance p s else t))"
  proof (cases "seg_at ss (lo_segment at)")
    case None
    then show ?thesis using adv by (simp add: same seg_at_append)
  next
    case (Some t)
    then have "sg_first_batch t \<noteq> sg_first_batch s" using seg_at_mem [OF Some] fresh by auto
    then show ?thesis using Some by (simp add: same seg_at_append)
  qed
  show "seg_at (jn_segments j) (lo_segment at) = Some s" if "sg_first_batch s = lo_segment at"
    using fresh that by (simp add: same seg_at_append)
qed

lemma wrote_core:
  assumes w: "wrote C b m j ss s p prs j'" and c: "journal_core j" and m: "\<forall>n. m = Some n \<longrightarrow> meta_fits n"
    and l: "\<forall>t \<in> set (jn_segments j). sg_first_batch t < pp_seq p"
  shows "journal_core j'"
proof -
  let ?g = "jn_geometry j" and ?s = "advance p s"
  have r: "rolled C p j ss s" and bw: "batch_written C b j s p prs" and ix: "index_ok j'"
    and segs: "map stored (jn_segments j') = map stored (ss @ [?s])" and sp: "jn_spare j' = None \<or> jn_spare j' = jn_spare j"
    and get: "om_get (jn_index j') = map_ops (batch_ops_of s p b) (om_get (jn_index j))"
    and ro: "rest_of j' = (rest_of j)\<lparr>jn_last_batch := pp_seq p, jn_ambiguous_batch := None,
          jn_meta := (case m of None \<Rightarrow> jn_meta j | Some n \<Rightarrow> n),
          jn_meta_file := (case m of None \<Rightarrow> jn_meta_file j | Some n \<Rightarrow> meta_update C n (jn_meta_file j)),
          jn_onto_spare := jn_onto_spare j', jn_created := jn_created j'\<rparr>"
    using w by (simp_all only: wrote_def)
  note sa = wrote_seg_at [OF w c l] and prs = batch_written_prs [OF bw] and so = rolled_sound [OF r c]
  have g: "jn_geometry j' = ?g" and mf: "jn_meta_file j' = (case m of None \<Rightarrow> jn_meta_file j | Some n \<Rightarrow> meta_update C n (jn_meta_file j))"
    using arg_cong [OF ro, of jn_geometry] arg_cong [OF ro, of jn_meta_file] by (simp_all add: rest_of_def)
  have x: "extents_ok p (sg_image s)" "pp_entry_at p = sg_entry_next s" "sg_entry_next s + length (pp_entries p) \<le> entry_end ?g"
    "pp_persist_at p = sg_persist_next s"
    using bw by (simp_all add: batch_written_def)
  have sound: "segment_sound ?g ?s" using so(1) x write_both(1) [OF x(1)]
    by (auto simp: segment_sound_def advance_def extents_ok_def)
  have "\<forall>t \<in> set (map stored (jn_segments j')). segment_sound ?g t"
    unfolding segs using sound so(2) by (auto simp: segment_sound_def)
  then have sounds: "\<forall>t \<in> set (jn_segments j'). segment_sound ?g t" by (simp add: segment_sound_def)
  have grow: "sg_entry_next s \<le> sg_entry_next ?s" using x(2) by (simp add: advance_def)
  have old: "entry_held ?g (ss @ [?s]) at" if at: "om_get (jn_index j) q = Some at" for q at
  proof -
    have h: "entry_held ?g (jn_segments j) at" using c at by (auto simp: journal_core_def)
    then obtain t where t: "seg_at (jn_segments j) (lo_segment at) = Some t" by (auto simp: entry_held_def split: option.splits)
    show ?thesis
    proof (cases "sg_first_batch t = sg_first_batch s")
      case True
      then have "t = s" using sa(3) [OF at] t seg_at_mem [OF t] by simp
      then show ?thesis using h t sa(2) [OF at] grow by (simp add: entry_held_def)
    next
      case False
      then show ?thesis using h t sa(2) [OF at] by (simp add: entry_held_def)
    qed
  qed
  have new: "entry_held ?g (ss @ [?s]) at" if "JPut q at \<in> set (batch_ops_of s p b)" for q at
  proof -
    have "pp_decoded p = map fst prs" using bw by (simp add: batch_written_def)
    then have "lo_segment at = sg_first_batch s" "sg_entry_next s \<le> unat (lo_offset at)"
      "unat (lo_offset at) + entry_bytes at \<le> sg_entry_next s + extent prs"
      using commit_ops_puts [OF prs(1,3)] that by (simp_all add: batch_ops_of_def)
    then show ?thesis using sa(1) prs(5) so(1) by (simp add: entry_held_def segment_sound_def)
  qed
  have "entry_held ?g (jn_segments j') at" if "om_get (jn_index j') q = Some at" for q at
  proof -
    have "entry_held ?g (ss @ [?s]) at" using map_ops_held [of "om_get (jn_index j)" "entry_held ?g (ss @ [?s])"] old new that get by metis
    moreover have "map_option stored (seg_at (jn_segments j') (lo_segment at)) = map_option stored (seg_at (ss @ [?s]) (lo_segment at))"
      using segs seg_at_stored by metis
    ultimately show ?thesis using entry_held_stored by blast
  qed
  moreover have "file_ok (jn_meta_file j')"
    using mf m c meta_write_reads(3) by (auto simp: journal_core_def meta_update_def split: option.splits)
  moreover have "case jn_spare j' of None \<Rightarrow> True | Some (_, img) \<Rightarrow> length img = total_blocks ?g * BLOCK"
    using sp c by (auto simp: journal_core_def)
  ultimately show ?thesis using ix sounds c g by (simp add: journal_core_def cong: option.case_cong)
qed

end
