(* ===== verification/Journal_Contents.thy ===== *)
theory Journal_Contents
  imports Journal_Store
begin

text \<open>
  The contract of \<open>Journal::commit\<close> in \<open>crates/moonpool-journal/src/journal.rs\<close>, from the steps of the
  preceding theories: what it leaves of the answers of \<open>read\<close>, of the invariant and of the errors, for every
  behaviour of the provider.
\<close>

section \<open>Reads after a commit\<close>

lemma entry_in_stored:
  assumes "map stored ss = map stored ss'"
  shows "entry_in C tag ss q lo = entry_in C tag ss' q lo"
proof (rule entry_in_cong)
  fix at :: located
  have "map_option stored (seg_at ss (lo_segment at)) = map_option stored (seg_at ss' (lo_segment at))"
    using assms seg_at_stored by metis
  then show "map_option (\<lambda>s. bslice (unat (lo_offset at)) (entry_bytes at) (sg_image s)) (seg_at ss (lo_segment at))
    = map_option (\<lambda>s. bslice (unat (lo_offset at)) (entry_bytes at) (sg_image s)) (seg_at ss' (lo_segment at))"
    by (rule of_stored) simp
qed

lemma wrote_reads:
  assumes w: "wrote C b m j ss s p prs j'" and c: "journal_core j"
    and l: "\<forall>t \<in> set (jn_segments j). sg_first_batch t < pp_seq p"
  shows "read C j' q = writes_effect (bt_writes b) (read C j) q"
proof -
  let ?s = "advance p s"
  let ?ss = "ss @ [?s]"
  have r: "rolled C p j ss s" and bw: "batch_written C b j s p prs"
    and segs: "map stored (jn_segments j') = map stored ?ss"
    and get: "om_get (jn_index j') = map_ops (batch_ops_of s p b) (om_get (jn_index j))"
    and ro: "rest_of j' = (rest_of j)\<lparr>jn_last_batch := pp_seq p, jn_ambiguous_batch := None,
          jn_meta := (case m of None \<Rightarrow> jn_meta j | Some n \<Rightarrow> n),
          jn_meta_file := (case m of None \<Rightarrow> jn_meta_file j | Some n \<Rightarrow> meta_update C n (jn_meta_file j)),
          jn_onto_spare := jn_onto_spare j', jn_created := jn_created j'\<rparr>"
    using w by (simp_all only: wrote_def)
  have tag: "jn_tag j' = jn_tag j" using arg_cong [OF ro, of jn_tag] by (simp add: rest_of_def)
  note sa = wrote_seg_at [OF w c l] and prs = batch_written_prs [OF bw]
  have dec: "pp_decoded p = map fst prs" "map snd prs = map payload_of (bt_writes b)"
    "records_for (flags_of (jn_durability j)) (of_nat (length (bt_writes b))) (pp_seq p) 0 (bt_writes b) (map fst prs)"
    "extents_ok p (sg_image s)" "pp_entry_at p = sg_entry_next s" "pp_persist_at p = sg_persist_next s"
    using bw unfolding batch_written_def by blast+
  have first: "sg_first_batch ?s = sg_first_batch s" by (simp add: advance_def)
  have ops: "list_all2 (op_reads C (jn_tag j) ?ss) (bt_writes b) (batch_ops_of s p b)"
    using commit_ops_read [OF prs(1,2) _ dec(3,2)] sa(1) prs(4) first by (simp add: batch_ops_of_def dec(1))
  have fits: "sg_persist_next s + length (pp_records p) \<le> entry_start (jn_geometry j)"
  proof -
    have "sg_geometry s = jn_geometry j" using rolled_sound(1) [OF r c] by (simp add: segment_sound_def)
    moreover have "length (pp_records p) div BLOCK * BLOCK = length (pp_records p)" using dec(4) by (simp add: extents_ok_def)
    ultimately show ?thesis using r by (simp add: rolled_def segment_fits_def geometry_defs)
  qed
  have old: "entry_in C (jn_tag j) ?ss q (om_get (jn_index j) q) = read C j q" for q
    unfolding read_entry_in
  proof (rule entry_in_cong)
    fix at assume at: "om_get (jn_index j) q = Some at"
    have h: "entry_held (jn_geometry j) (jn_segments j) at" using c at by (auto simp: journal_core_def)
    then obtain t where t: "seg_at (jn_segments j) (lo_segment at) = Some t" by (auto simp: entry_held_def split: option.splits)
    have "bslice (unat (lo_offset at)) (entry_bytes at) (sg_image ?s) = bslice (unat (lo_offset at)) (entry_bytes at) (sg_image s)"
      if "t = s"
    proof -
      have "outside p (unat (lo_offset at)) (entry_bytes at)" using h t that fits dec(5,6) by (auto simp: outside_def entry_held_def)
      then show ?thesis using write_batch_outside [OF dec(4)] by (simp add: advance_def)
    qed
    moreover have "sg_first_batch t = sg_first_batch s \<Longrightarrow> t = s" using sa(3) [OF at] t seg_at_mem [OF t] by simp
    ultimately show "map_option (\<lambda>s. bslice (unat (lo_offset at)) (entry_bytes at) (sg_image s)) (seg_at ?ss (lo_segment at))
      = map_option (\<lambda>s. bslice (unat (lo_offset at)) (entry_bytes at) (sg_image s)) (seg_at (jn_segments j) (lo_segment at))"
      using sa(2) [OF at] t by auto
  qed
  have "read C j' q = entry_in C (jn_tag j) ?ss q (map_ops (batch_ops_of s p b) (om_get (jn_index j)) q)"
    unfolding read_entry_in get tag by (rule entry_in_stored [OF segs])
  also have "\<dots> = writes_effect (bt_writes b) (\<lambda>q. entry_in C (jn_tag j) ?ss q (om_get (jn_index j) q)) q"
    by (rule entry_in_ops [OF ops])
  finally show ?thesis using old by simp
qed

section \<open>Every outcome of a commit\<close>

lemma below_floor_None: "below_floor f ws = None \<Longrightarrow> WPut p i pl \<in> set ws \<Longrightarrow> f \<le> p"
  by (induction f ws rule: below_floor.induct) (auto split: if_splits)

lemma next_meta_spec:
  "next_meta b j = Some n \<Longrightarrow> mt_floor n = commit_floor b j \<and> mt_bytes n = (case bt_meta b of None \<Rightarrow> mt_bytes (jn_meta j) | Some m \<Rightarrow> m)"
  "next_meta b j = None \<Longrightarrow> mt_floor (jn_meta j) = commit_floor b j \<and> bt_meta b = None"
  by (auto simp: next_meta_def split: if_splits)

lemma next_meta_fits:
  assumes "commit_refused b j = None" "meta_fits (jn_meta j)" "next_meta b j = Some n"
  shows "meta_fits n"
  using assms next_meta_spec(1) [OF assms(3)] by (auto simp: meta_fits_def commit_refused_def split: option.splits if_splits)

text \<open>The invariant and the answers of \<open>read\<close> once a journal was trimmed to its floor.\<close>

definition effect_of :: "batch \<Rightarrow> crc_lib \<Rightarrow> journal \<Rightarrow> journal \<Rightarrow> bool" where
  "effect_of b C j j' =
     (journal_ok j' \<and> jn_poisoned j' = jn_poisoned j \<and> mt_floor (jn_meta j') = commit_floor b j
      \<and> mt_bytes (jn_meta j') = (case bt_meta b of None \<Rightarrow> mt_bytes (jn_meta j) | Some m \<Rightarrow> m)
      \<and> (\<forall>p. read C j' p = (if p < commit_floor b j then Inl (ReadEmpty p) else writes_effect (bt_writes b) (read C j) p)))"

lemma trimmed_effect:
  assumes t: "trimmed j1 j'" and c: "journal_core j1" and mf: "meta_fits (jn_meta j1)"
    and older: "\<forall>s \<in> set (jn_segments j1). sg_first_batch s \<le> jn_last_batch j1"
    and fl: "mt_floor (jn_meta j1) = commit_floor b j" "jn_poisoned j1 = jn_poisoned j"
      "mt_bytes (jn_meta j1) = (case bt_meta b of None \<Rightarrow> mt_bytes (jn_meta j) | Some m \<Rightarrow> m)"
    and reads: "\<forall>q. read C j1 q = writes_effect (bt_writes b) (read C j) q"
  shows "effect_of b C j j'"
proof -
  have ro: "rest_of j' = rest_of j1" and get: "om_get (jn_index j') = (\<lambda>p. if p < mt_floor (jn_meta j1) then None else om_get (jn_index j1) p)"
    using t by (simp_all add: trimmed_def)
  note same = rest_of_same [OF ro]
  obtain k where k: "map stored (jn_segments j') = drop k (map stored (jn_segments j1))" using t by (auto simp: trimmed_def)
  have "sg_first_batch ` set (jn_segments j') = sg_first_batch ` set (map stored (jn_segments j'))" by (simp add: image_image)
  also have "\<dots> \<subseteq> sg_first_batch ` set (map stored (jn_segments j1))" unfolding k by (intro image_mono set_drop_subset)
  also have "\<dots> = sg_first_batch ` set (jn_segments j1)" by (simp add: image_image)
  finally have "\<forall>s \<in> set (jn_segments j'). sg_first_batch s \<le> jn_last_batch j'" using older same(5) by fastforce
  then have "journal_ok j'" using trimmed_core [OF t c] mf get same(1) by (auto simp: journal_ok_def split: if_splits)
  moreover have "sorted_wrt (<) (firsts j1)" using c by (simp add: journal_core_def index_ok_def)
  ultimately show ?thesis using trimmed_read [OF t, of C] same fl reads by (simp add: effect_of_def)
qed

lemma commit_cases:
  assumes cm: "commit C b j io = (res, j', io')" and ok: "journal_ok j" and b: "batch_ok b" and nl: "bt_writes b = [] \<or> numbers_left j"
    and nr: "commit_refused b j = None"
  shows "(\<exists>d. res = Inl (CommitIo d)) \<and> jn_poisoned j' \<or> res = Inr () \<and> effect_of b C j j'"
proof -
  have c: "journal_core j" and mf: "meta_fits (jn_meta j)" and older: "\<forall>s \<in> set (jn_segments j). sg_first_batch s \<le> jn_last_batch j"
    and fit: "fits (jn_geometry j) b"
    using ok nr by (auto simp: journal_ok_def commit_refused_def split: option.splits if_splits)
  have nf: "\<forall>n. next_meta b j = Some n \<longrightarrow> meta_fits n" using next_meta_fits [OF nr mf] by blast
  show ?thesis
  proof (cases "bt_writes b = []")
    case True
    then have we: "writes_effect (bt_writes b) f = f" for f by (simp add: writes_effect_def)
    have run: "commit_meta C (next_meta b j) j io = (res, j', io')" using cm nr True by (simp add: commit_def)
    show ?thesis
    proof (cases "next_meta b j")
      case None
      have "effect_of b C j j" unfolding effect_of_def
      proof (intro conjI allI)
        fix p
        show "read C j p = (if p < commit_floor b j then Inl (ReadEmpty p) else writes_effect (bt_writes b) (read C j) p)"
          using ok next_meta_spec(2) [OF None] we by (fastforce simp: journal_ok_def read_def split: option.splits)
      qed (use ok next_meta_spec(2) [OF None] in simp_all)
      then show ?thesis using run None by (simp add: commit_meta_def)
    next
      case (Some n)
      obtain ok2 f io2 where u: "meta_update_io C n (jn_meta_file j) io = (ok2, f, io2)" by (cases "meta_update_io C n (jn_meta_file j) io")
      have n: "meta_fits n" "file_ok (jn_meta_file j)" using nf Some c by (simp_all add: journal_core_def)
      note us = meta_update_io_spec [OF u n]
      let ?j = "j\<lparr>jn_meta_file := f, jn_meta := n\<rparr>"
      show ?thesis
      proof (cases ok2)
        case False
        then show ?thesis using run Some u by (auto simp: commit_meta_def)
      next
        case True
        then have ac: "after_commit ?j io2 = (res, j', io')" using run Some u by (simp add: commit_meta_def)
        have cj: "journal_core ?j" using c us by (simp add: journal_core_def index_ok_def firsts_def cong: option.case_cong)
        have "read C ?j q = read C j q" for q by (simp add: read_entry_in)
        then have "trimmed ?j j' \<Longrightarrow> effect_of b C j j'"
          using n older next_meta_spec(1) [OF Some] we by (intro trimmed_effect [OF _ cj]) simp_all
        then show ?thesis using after_commit_spec [OF ac] cj n by (auto simp: journal_core_def)
      qed
    qed
  next
    case False
    then have nl': "numbers_left j" and run: "commit_writes C b (next_meta b j) j io = (res, j', io')"
      using nl cm nr by (simp_all add: commit_def)
    have eff: "effect_of b C j j'" if w: "wrote C b (next_meta b j) j ss s p prs j1" and t: "trimmed j1 j'" for ss s p prs j1
    proof -
      have ro: "rest_of j1 = (rest_of j)\<lparr>jn_last_batch := pp_seq p, jn_ambiguous_batch := None,
          jn_meta := (case next_meta b j of None \<Rightarrow> jn_meta j | Some n \<Rightarrow> n),
          jn_meta_file := (case next_meta b j of None \<Rightarrow> jn_meta_file j | Some n \<Rightarrow> meta_update C n (jn_meta_file j)),
          jn_onto_spare := jn_onto_spare j1, jn_created := jn_created j1\<rparr>"
        and seq: "pp_seq p = next_seq (jn_generation j) (jn_last_batch j)" and r: "rolled C p j ss s"
        and segs: "map stored (jn_segments j1) = map stored (ss @ [advance p s])"
        using w by (simp_all only: wrote_def batch_written_def)
      have f: "jn_meta j1 = (case next_meta b j of None \<Rightarrow> jn_meta j | Some n \<Rightarrow> n)" "jn_poisoned j1 = jn_poisoned j" "jn_last_batch j1 = pp_seq p"
        using arg_cong [OF ro, of jn_meta] arg_cong [OF ro, of jn_poisoned] arg_cong [OF ro, of jn_last_batch] by (simp_all add: rest_of_def)
      have l: "\<forall>t \<in> set (jn_segments j). sg_first_batch t < pp_seq p"
        using older nl' seq unfolding numbers_left_def by (metis order_le_less_trans)
      have "sg_first_batch ` set (jn_segments j1) = sg_first_batch ` set (map stored (ss @ [advance p s]))"
        unfolding segs [symmetric] by (simp add: image_image)
      also have "\<dots> = insert (sg_first_batch s) (sg_first_batch ` set ss)" by (simp add: image_image advance_def)
      finally have fi: "sg_first_batch ` set (jn_segments j1) = insert (sg_first_batch s) (sg_first_batch ` set ss)" .
      have "sg_first_batch s \<le> pp_seq p" "\<forall>t \<in> set ss. sg_first_batch t \<le> pp_seq p"
        using l r by (auto simp: rolled_def fresh_segment_def intro: order.strict_implies_order)
      then have "\<forall>n \<in> sg_first_batch ` set (jn_segments j1). n \<le> jn_last_batch j1" unfolding fi f(3) by simp
      then have "\<forall>t \<in> set (jn_segments j1). sg_first_batch t \<le> jn_last_batch j1" by simp
      moreover have "meta_fits (jn_meta j1)" using f(1) nf mf by (simp split: option.splits)
      moreover have "mt_floor (jn_meta j1) = commit_floor b j"
        "mt_bytes (jn_meta j1) = (case bt_meta b of None \<Rightarrow> mt_bytes (jn_meta j) | Some m \<Rightarrow> m)"
        using f(1) by (cases "next_meta b j"; simp add: next_meta_spec)+
      ultimately show ?thesis
        using wrote_reads [OF w c l] f(2) by (intro trimmed_effect [OF t wrote_core [OF w c nf l]]) simp_all
    qed
    then show ?thesis using commit_writes_spec [OF run ok b fit False nl' nf] by blast
  qed
qed

text \<open>The journal of a commit once everything of it is durable, before dead segments go.\<close>

definition landed :: "crc_lib \<Rightarrow> batch \<Rightarrow> journal \<Rightarrow> journal \<Rightarrow> bool" where
  "landed C b j j1 =
     (if bt_writes b = []
      then \<exists>n. next_meta b j = Some n \<and> j1 = j\<lparr>jn_meta_file := meta_update C n (jn_meta_file j), jn_meta := n\<rparr>
      else \<exists>ss s p prs. wrote C b (next_meta b j) j ss s p prs j1)"

lemma commit_landed:
  assumes cm: "commit C b j io = (Inr (), j', io')" and ok: "journal_ok j" and b: "batch_ok b" and nl: "bt_writes b = [] \<or> numbers_left j"
  shows "bt_writes b = [] \<and> next_meta b j = None \<and> j' = j \<or> (\<exists>j1. landed C b j j1 \<and> trimmed j1 j')"
proof -
  have nr: "commit_refused b j = None" using cm by (cases "commit_refused b j") (simp_all add: commit_def)
  have c: "journal_core j" and mf: "meta_fits (jn_meta j)" and fit: "fits (jn_geometry j) b"
    using ok nr by (auto simp: journal_ok_def commit_refused_def split: option.splits if_splits)
  have nf: "\<forall>n. next_meta b j = Some n \<longrightarrow> meta_fits n" using next_meta_fits [OF nr mf] by blast
  show ?thesis
  proof (cases "bt_writes b = []")
    case True
    then have run: "commit_meta C (next_meta b j) j io = (Inr (), j', io')" using cm nr by (simp add: commit_def)
    show ?thesis
    proof (cases "next_meta b j")
      case None
      then show ?thesis using run True by (simp add: commit_meta_def)
    next
      case (Some n)
      obtain ok2 f io2 where u: "meta_update_io C n (jn_meta_file j) io = (ok2, f, io2)" by (cases "meta_update_io C n (jn_meta_file j) io")
      have n: "meta_fits n" "file_ok (jn_meta_file j)" using nf Some c by (simp_all add: journal_core_def)
      have ok2: ok2 using run Some u by (cases ok2) (simp_all add: commit_meta_def)
      then have f: "f = meta_update C n (jn_meta_file j)" using meta_update_io_spec [OF u n] by simp
      have ac: "after_commit (j\<lparr>jn_meta_file := f, jn_meta := n\<rparr>) io2 = (Inr (), j', io')" using run Some u ok2 by (simp add: commit_meta_def)
      have "index_ok (j\<lparr>jn_meta_file := f, jn_meta := n\<rparr>)" using c by (simp add: journal_core_def index_ok_def firsts_def)
      then have "trimmed (j\<lparr>jn_meta_file := f, jn_meta := n\<rparr>) j'" using after_commit_spec [OF ac] n by simp
      then show ?thesis using True Some f by (auto simp: landed_def)
    qed
  next
    case False
    then have nl': "numbers_left j" and run: "commit_writes C b (next_meta b j) j io = (Inr (), j', io')"
      using nl cm nr by (simp_all add: commit_def)
    show ?thesis using commit_writes_spec [OF run ok b fit False nl' nf] False unfolding landed_def by simp blast
  qed
qed

section \<open>Only the provider fails a commit\<close>

definition no_io :: "commit_error + 'a \<Rightarrow> bool" where
  "no_io r = (\<forall>d. r \<noteq> Inl (CommitIo d))"

lemma no_io_simps [simp]:
  "no_io (Inr x)" "no_io (Inl AssertionFailed)" "no_io (Inl BatchTooLarge)" "\<not> no_io (Inl (CommitIo d))"
  by (simp_all add: no_io_def)

lemma no_io_and_then: "no_io r \<Longrightarrow> (\<And>x. r = Inr x \<Longrightarrow> no_io (f x)) \<Longrightarrow> no_io (and_then r f)"
  by (cases r) (auto simp: no_io_def)

lemma no_io_prepare_entries: "no_io (prepare_entries C flags n seq tag index start ws buf)"
proof (induction C flags n seq tag index start ws buf rule: prepare_entries.induct)
  case (2 C flags n seq tag index start w ws buf)
  then show ?case by (auto simp: Let_def split: prod.splits intro!: no_io_and_then)
qed simp

lemma no_io_prepare: "no_io (prepare C g d tag generation l b)"
  by (auto simp: prepare_def Let_def split: option.splits intro!: no_io_and_then no_io_prepare_entries)

lemma no_io_release: "no_io (release at j)"
  by (auto simp: release_def Let_def split: option.splits)

lemma no_io_remove_positions: "no_io (remove_positions ps j)"
  by (induction ps j rule: remove_positions.induct)
    (auto simp: Let_def no_io_release split: option.splits prod.splits intro!: no_io_and_then)

lemma no_io_apply_ops: "no_io (apply_ops ops j)"
proof (induction ops arbitrary: j)
  case (Cons op ops)
  have "no_io (apply_op op j)"
    by (cases op) (auto simp: Let_def no_io_release no_io_remove_positions split: option.splits prod.splits)
  then show ?case using Cons.IH by (auto intro: no_io_and_then)
qed simp

lemma quiet_segment_write:
  assumes q: "quiet io" and w: "segment_write at data img io = (r, img', io')"
  shows "r \<noteq> Inl IoFault \<and> quiet io'"
  using w quiet_write_call [OF q, of at data img] q by (auto simp: segment_write_def split: if_splits)

lemma quiet_write_protocol:
  assumes q: "quiet io" and w: "write_protocol C p m ordered img file io = (res, img', file', io')"
  shows "no_io res \<and> quiet io'"
proof -
  obtain r1 g1 i1 where 1: "segment_write (pp_entry_at p) (pp_entries p) img io = (r1, g1, i1)"
    by (cases "segment_write (pp_entry_at p) (pp_entries p) img io")
  obtain r2 g2 i2 where 2: "segment_write (pp_persist_at p) (pp_records p) g1 i1 = (r2, g2, i2)"
    by (cases "segment_write (pp_persist_at p) (pp_records p) g1 i1")
  have q1: "r1 \<noteq> Inl IoFault" "quiet i1" using quiet_segment_write [OF q 1] by simp_all
  have q2: "r2 \<noteq> Inl IoFault" "quiet i2" using quiet_segment_write [OF q1(2) 2] by simp_all
  obtain i3 where 3: "(if ordered then (Inr (), g2, i2) else sync_batch (SYNC_ATTEMPTS - 1) p g2 i2) = (Inr (), g2, i3)" "quiet i3"
  proof (cases ordered)
    case False
    obtain i3 where "call i2 = (True, i3)" "quiet i3" using quiet_call [OF q2(2)] by blast
    then show thesis using that [of i3] False by (simp add: sync_batch.simps)
  qed (use that q2 in auto)
  have panic: "commit_fault d e = AssertionFailed" if "Inl e \<noteq> (Inl IoFault :: fault + unit)" for d e using that by (cases e) simp_all
  show ?thesis
  proof (cases r1)
    case (Inl e)
    then have "res = Inl AssertionFailed" "io' = i1" using w 1 q1(1) panic [of e] by (simp_all add: write_protocol_def)
    then show ?thesis using q1(2) by simp
  next
    case r1: (Inr u)
    show ?thesis
    proof (cases r2)
      case (Inl e)
      then have "res = Inl AssertionFailed" "io' = i2" using w 1 2 r1 q2(1) panic [of e] by (simp_all add: write_protocol_def)
      then show ?thesis using q2(2) by simp
    next
      case r2: (Inr u)
      have w': "(case m of None \<Rightarrow> (Inr (), g2, file, i3)
          | Some n \<Rightarrow> (case meta_update_io C n file i3 of (False, file, io) \<Rightarrow> (Inl (CommitIo DurableUnknown), g2, file, io)
             | (True, file, io) \<Rightarrow> (Inr (), g2, file, io))) = (res, img', file', io')"
        using w 1 2 3(1) r1 r2 unfolding write_protocol_def by simp
      show ?thesis
      proof (cases m)
        case None
        then show ?thesis using w' 3(2) by auto
      next
        case (Some n)
        obtain f i4 where "meta_update_io C n file i3 = (True, f, i4)" "quiet i4" using quiet_meta_update [OF 3(2)] by blast
        then show ?thesis using w' Some by auto
      qed
    qed
  qed
qed

lemma quiet_after_commit:
  assumes "quiet io"
  shows "no_io (fst (after_commit j io))"
proof (cases "drop_below_floor j")
  case (Inl e)
  then have "no_io (Inl e :: commit_error + journal)" using no_io_remove_positions unfolding drop_below_floor_def by metis
  then show ?thesis using Inl by (simp add: after_commit_def no_io_def)
next
  case (Inr j1)
  obtain k j2 io2 where "remove_dead_segments 0 j1 io = (Some k, j2, io2)" using quiet_remove_dead [OF assms] by blast
  then show ?thesis using Inr by (simp add: after_commit_def)
qed

lemma quiet_commit:
  assumes q: "quiet io" and c: "journal_core j"
  shows "commit_refused b j = None \<Longrightarrow> no_io (fst (commit C b j io))"
proof -
  have m: "no_io (fst (commit_meta C m j io))" for m
  proof (cases m)
    case (Some n)
    obtain f io' where "meta_update_io C n (jn_meta_file j) io = (True, f, io')" "quiet io'" using quiet_meta_update [OF q] by blast
    then show ?thesis using Some quiet_after_commit by (simp add: commit_meta_def)
  qed (simp add: commit_meta_def)
  have sf: "no_io res \<and> quiet io'" if "segment_for C p j io = (res, j', io')" for p res j' io'
  proof -
    let ?h = "roll_header (j\<lparr>jn_spare := None\<rparr>) (pp_seq p)"
    obtain s io1 where "(case jn_spare j of Some (_, img) \<Rightarrow> segment_adopt C img ?h io | None \<Rightarrow> segment_create C ?h io) = (Some s, io1)" "quiet io1"
    proof (cases "jn_spare j")
      case None
      then show thesis using quiet_segment_create [OF q] that by fastforce
    next
      case (Some sp)
      obtain name img where sp: "sp = (name, img)" by (cases sp)
      then have "length img div BLOCK = total_blocks (sh_geometry ?h)" using c Some by (simp add: journal_core_def roll_header_def BLOCK_def)
      then show thesis using quiet_segment_adopt [OF q] that Some sp by fastforce
    qed
    then show ?thesis using that q by (auto simp: segment_for_def Let_def split: if_splits)
  qed
  have w: "no_io (fst (commit_writes C b m j io))" for m
  proof (cases "prepare C (jn_geometry j) (jn_durability j) (jn_tag j) (jn_generation j) (jn_last_batch j) b")
    case (Inl e)
    then show ?thesis using no_io_prepare [of C "jn_geometry j" "jn_durability j" "jn_tag j" "jn_generation j" "jn_last_batch j" b]
      by (simp add: commit_writes_def no_io_def)
  next
    case pre: (Inr pre)
    obtain r j1 io1 where s: "segment_for C pre j io = (r, j1, io1)" by (cases "segment_for C pre j io")
    show ?thesis
    proof (cases r)
      case (Inl e)
      then show ?thesis using pre s sf [OF s] by (simp add: commit_writes_def no_io_def)
    next
      case at: (Inr at)
      let ?s = "jn_segments j1 ! at"
      show ?thesis
      proof (cases "place C (sg_persist_next ?s) (sg_entry_next ?s) pre")
        case (Inl e)
        then have "e = AssertionFailed" by (auto simp: place_def Let_def split: if_splits)
        then show ?thesis using pre s at Inl by (simp add: commit_writes_def)
      next
        case p: (Inr p)
        obtain res img mf io2 where wp: "write_protocol C p m (jn_durability j1 = Ordered) (sg_image ?s) (jn_meta_file j1) io1 = (res, img, mf, io2)"
          by (cases "write_protocol C p m (jn_durability j1 = Ordered) (sg_image ?s) (jn_meta_file j1) io1")
        have "no_io res" "quiet io2" using quiet_write_protocol [OF _ wp] sf [OF s] by simp_all
        then show ?thesis using pre s at p wp no_io_apply_ops
          by (cases res) (auto simp: commit_writes_def commit_memory_def Let_def no_io_def quiet_after_commit [unfolded no_io_def] split: sum.splits)
      qed
    qed
  qed
  show "commit_refused b j = None \<Longrightarrow> no_io (fst (commit C b j io))" using m w by (simp add: commit_def)
qed

section \<open>The contract of commit\<close>

text \<open>What a caller sees of a journal: the floor, the caller's bytes, and what every position reads.\<close>

record store =
  st_floor :: u64
  st_bytes :: bytes
  st_reads :: "u64 \<Rightarrow> read_error + jentry"

definition abs_of :: "crc_lib \<Rightarrow> journal \<Rightarrow> store" where
  "abs_of C j = \<lparr>st_floor = mt_floor (jn_meta j), st_bytes = mt_bytes (jn_meta j), st_reads = read C j\<rparr>"

definition abs_commit :: "batch \<Rightarrow> store \<Rightarrow> store" where
  "abs_commit b s =
     (let f = (case bt_floor b of None \<Rightarrow> st_floor s | Some f \<Rightarrow> max f (st_floor s))
      in \<lparr>st_floor = f, st_bytes = (case bt_meta b of None \<Rightarrow> st_bytes s | Some m \<Rightarrow> m),
          st_reads = (\<lambda>p. if p < f then Inl (ReadEmpty p) else writes_effect (bt_writes b) (st_reads s) p)\<rparr>)"

lemma effect_abs: "effect_of b C j j' \<Longrightarrow> journal_ok j' \<and> jn_poisoned j' = jn_poisoned j \<and> abs_of C j' = abs_commit b (abs_of C j)"
  by (simp add: effect_of_def abs_of_def abs_commit_def commit_floor_def Let_def fun_eq_iff cong: if_cong option.case_cong)

lemma refused_kind: "commit_refused b j = Some e \<Longrightarrow> e \<noteq> AssertionFailed \<and> (\<forall>d. e \<noteq> CommitIo d)"
  by (auto simp: commit_refused_def split: if_splits option.splits)

lemma refused_poisoned: "commit_refused b j = Some Poisoned \<longleftrightarrow> jn_poisoned j"
  by (auto simp: commit_refused_def split: option.splits)

lemma commit_Inr:
  assumes "commit C b j io = (Inr (), j', io')" "journal_ok j" "batch_ok b" "bt_writes b = [] \<or> numbers_left j"
  shows "effect_of b C j j'" "\<not> jn_poisoned j"
proof -
  have nr: "commit_refused b j = None" using assms(1) by (cases "commit_refused b j") (simp_all add: commit_def)
  then show "\<not> jn_poisoned j" by (auto simp: commit_refused_def)
  show "effect_of b C j j'" using commit_cases [OF assms nr] by simp
qed

text \<open>C2. A successful commit is the abstract commit: the floor and the caller's bytes are the batch's where it sets
  them, every position of the batch reads back the identity and the payload written, byte for byte, a cleared
  or truncated position reads as empty, every other position reads as before, and the invariant holds again.
  This is for every checksum, whether the batch rolled to a new segment, recycled a spare, removed dead
  segments or had its sync retried.
\<close>

theorem commit_implements_map:
  assumes "journal_ok j" "batch_ok b" "bt_writes b = [] \<or> numbers_left j" "commit C b j io = (Inr (), j', io')"
  shows "journal_ok j' \<and> abs_of C j' = abs_commit b (abs_of C j)"
  using effect_abs [OF commit_Inr(1) [OF assms(4,1-3)]] by simp


lemma quiet_commit_Inr:
  assumes "journal_ok j" "batch_ok b" "bt_writes b = [] \<or> numbers_left j" "quiet io" "commit_refused b j = None"
  shows "\<exists>j' io'. commit C b j io = (Inr (), j', io')"
proof -
  obtain res j' io' where c: "commit C b j io = (res, j', io')" by (cases "commit C b j io")
  have "no_io res" using quiet_commit [OF assms(4) _ assms(5), of C] assms(1) c by (simp add: journal_ok_def)
  then show ?thesis using commit_cases [OF c assms(1-3,5)] c by (auto simp: no_io_def)
qed


section \<open>Histories\<close>

text \<open>
  A journal's life after it was opened: the batches that committed, with failed and refused commits in between,
  each under any answers of the provider.
\<close>

inductive lifetime :: "crc_lib \<Rightarrow> journal \<Rightarrow> batch list \<Rightarrow> journal \<Rightarrow> bool" for C j0 where
  opened: "lifetime C j0 [] j0"
| committed: "lifetime C j0 bs j \<Longrightarrow> batch_ok b \<Longrightarrow> bt_writes b = [] \<or> numbers_left j \<Longrightarrow>
    commit C b j io = (Inr (), j', io') \<Longrightarrow> lifetime C j0 (bs @ [b]) j'"
| failed: "lifetime C j0 bs j \<Longrightarrow> batch_ok b \<Longrightarrow> bt_writes b = [] \<or> numbers_left j \<Longrightarrow>
    commit C b j io = (Inl e, j', io') \<Longrightarrow> lifetime C j0 bs j'"

lemma poisoned_commit: "jn_poisoned j \<Longrightarrow> commit C b j io = (Inl Poisoned, j, io)"
  by (simp add: commit_def commit_refused_def)

lemma lifetime_ok:
  assumes "lifetime C j0 bs j" "journal_ok j0"
  shows "jn_poisoned j \<or> journal_ok j \<and> abs_of C j = fold abs_commit bs (abs_of C j0)"
  using assms
proof induction
  case (committed bs j b io j' io')
  have np: "\<not> jn_poisoned j" using committed.hyps(4) poisoned_commit [of j C b io] by auto
  then show ?case using effect_abs [OF commit_Inr(1) [OF committed.hyps(4) _ committed.hyps(2,3)]] committed by auto
next
  case (failed bs j b io e j' io')
  show ?case
  proof (cases "commit_refused b j")
    case None
    have "\<not> jn_poisoned j" using None by (auto simp: commit_refused_def)
    then have "journal_ok j" using failed by auto
    then show ?thesis using commit_cases [OF failed.hyps(4) _ failed.hyps(2,3) None] by auto
  next
    case (Some e')
    then have "j' = j" using failed.hyps(4) by (simp add: commit_def)
    then show ?thesis using failed by simp
  qed
qed simp

text \<open>C8. Invariant of a journal's whole life: after any sequence of commits, successful, refused or failed, under
  any answers of the provider, the journal is poisoned or its invariant holds and it reads as the abstract
  journal to which exactly the successful batches were committed, in their order.
\<close>

theorem journal_invariant:
  assumes "journal_ok j0" "lifetime C j0 bs j" "\<not> jn_poisoned j"
  shows "journal_ok j \<and> abs_of C j = fold abs_commit bs (abs_of C j0)"
  using lifetime_ok [OF assms(2,1)] assms(3) by simp

section \<open>Witnesses\<close>

text \<open>A journal as \<open>create\<close> leaves it: no segment yet, the first generation not yet used.\<close>

definition empty_journal :: journal where
  "empty_journal =
     \<lparr>jn_id = 5, jn_tag = 7, jn_durability = Ordered, jn_geometry = geometry_small, jn_meta_file = meta_create sum_crc sample_meta,
      jn_meta = sample_meta, jn_segments = [], jn_index = [], jn_last_batch = 0, jn_ambiguous_batch = None, jn_generation = 1,
      jn_poisoned = False, jn_spare = None, jn_spares_named = 0, jn_onto_spare = 0, jn_created = 0\<rparr>"

lemma empty_journal_ok: "journal_ok empty_journal"
proof -
  have "meta_fits sample_meta" by (simp add: meta_fits_def sample_meta_def META_MAX_def META_CRC_AT_def META_BYTES_AT_def BLOCK_def)
  then show ?thesis using sample_batch_ok(2) create_settles [of sample_meta sum_crc]
    by (simp add: journal_ok_def journal_core_def empty_journal_def index_ok_def firsts_def settled_def)
qed

lemma empty_journal_batch:
  "batch_ok sample_batch" "numbers_left empty_journal" "commit_refused sample_batch empty_journal = None" "quiet []"
  using sample_batch_ok
  by (simp_all add: batch_ok_def sample_batch_def batch_clear_def batch_put_def batch_new_def numbers_left_def empty_journal_def
    commit_refused_def commit_floor_def sample_meta_def quiet_def)

lemma empty_journal_commit:
  obtains j' io' where "commit sum_crc sample_batch empty_journal [] = (Inr (), j', io')"
  using quiet_commit_Inr [OF empty_journal_ok empty_journal_batch(1) disjI2 [OF empty_journal_batch(2)] empty_journal_batch(4,3), of sum_crc]
  by blast

lemma sample_batch_reads:
  "st_floor (abs_commit sample_batch (abs_of C empty_journal)) = 4"
  "st_reads (abs_commit sample_batch (abs_of C empty_journal)) 9 = Inr \<lparr>en_position = 9, en_id = replicate 24 3, en_payload = [1, 2, 3]\<rparr>"
  by (simp_all add: abs_commit_def abs_of_def empty_journal_def sample_meta_def sample_batch_def batch_clear_def batch_put_def
    batch_new_def Let_def writes_effect_def)

theorem commit_implements_map_witness:
  "\<exists>j' io'. commit sum_crc sample_batch empty_journal [] = (Inr (), j', io') \<and> journal_ok j' \<and>
     read sum_crc j' 9 = Inr \<lparr>en_position = 9, en_id = replicate 24 3, en_payload = [1, 2, 3]\<rparr>"
proof -
  obtain j' io' where c: "commit sum_crc sample_batch empty_journal [] = (Inr (), j', io')" by (rule empty_journal_commit)
  note r = commit_implements_map [OF empty_journal_ok empty_journal_batch(1) disjI2 [OF empty_journal_batch(2)] c]
  have "st_reads (abs_of sum_crc j') 9 = Inr \<lparr>en_position = 9, en_id = replicate 24 3, en_payload = [1, 2, 3]\<rparr>"
    using r sample_batch_reads(2) [of sum_crc] by simp
  then show ?thesis using c r by (auto simp: abs_of_def)
qed



theorem journal_invariant_witness:
  "\<exists>j. lifetime sum_crc empty_journal [sample_batch] j \<and> journal_ok j \<and> st_floor (abs_of sum_crc j) = 4"
proof -
  obtain j' io' where c: "commit sum_crc sample_batch empty_journal [] = (Inr (), j', io')" by (rule empty_journal_commit)
  have h: "lifetime sum_crc empty_journal ([] @ [sample_batch]) j'"
    by (rule lifetime.committed [OF lifetime.opened empty_journal_batch(1) disjI2 [OF empty_journal_batch(2)] c])
  have np: "\<not> jn_poisoned j'"
    using effect_abs [OF commit_Inr(1) [OF c empty_journal_ok empty_journal_batch(1) disjI2 [OF empty_journal_batch(2)]]] by (simp add: empty_journal_def)
  show ?thesis using journal_invariant [OF empty_journal_ok h np] h sample_batch_reads(1) [of sum_crc] by auto
qed

end
