(* ===== verification/Journal_Open.thy ===== *)
theory Journal_Open
  imports Journal_Contents "HOL-Library.AList"
begin

text \<open>
  Creating, opening and probing a journal (\<open>create\<close>, \<open>open\<close>, \<open>peek_meta\<close> and their helpers in
  \<open>crates/moonpool-journal/src/journal.rs\<close>, \<open>MetaFile::open\<close> in \<open>meta.rs\<close>, \<open>Segment::open\<close> in \<open>segment.rs\<close>). The
  world is the journal's directory, its files by name, and the answers of the provider still to come; an
  answer \<open>Failed\<close> is an error of that call, which ends the opening with what was done so far. A file is its
  bytes as read: blocks the medium fails to read are zero-filled (\<open>io.rs\<close>).
\<close>

section \<open>The world of an opening\<close>

record world =
  wd_exists :: bool
  wd_files :: "(string \<times> bytes) list"
  wd_io :: io

type_synonym 'a ostep = "world \<Rightarrow> (open_error + 'a) \<times> world"

definition oret :: "'a \<Rightarrow> 'a ostep" where
  "oret x = (\<lambda>w. (Inr x, w))"

definition ofail :: "open_error \<Rightarrow> 'a ostep" where
  "ofail e = (\<lambda>w. (Inl e, w))"

definition obind :: "'a ostep \<Rightarrow> ('a \<Rightarrow> 'b ostep) \<Rightarrow> 'b ostep" where
  "obind m f = (\<lambda>w. case m w of (Inl e, w) \<Rightarrow> (Inl e, w) | (Inr x, w) \<Rightarrow> f x w)"

definition olift :: "open_error + 'a \<Rightarrow> 'a ostep" where
  "olift r = (\<lambda>w. (r, w))"

text \<open>\<open>n\<close> calls of the provider that change no file.\<close>

definition provider :: "nat \<Rightarrow> unit ostep" where
  "provider n = (\<lambda>w. case calls n (wd_io w) of (ok, io) \<Rightarrow> (if ok then Inr () else Inl OpenIo, w\<lparr>wd_io := io\<rparr>))"

definition file_of :: "string \<Rightarrow> bytes option ostep" where
  "file_of name = (\<lambda>w. (Inr (map_of (wd_files w) name), w))"

definition file_exists :: "string \<Rightarrow> bool ostep" where
  "file_exists name = obind (provider 1) (\<lambda>_. obind (file_of name) (\<lambda>file. oret (file \<noteq> None)))"

definition file_delete :: "string \<Rightarrow> unit ostep" where
  "file_delete name = obind (provider 1) (\<lambda>_ w. (Inr (), w\<lparr>wd_files := AList.delete name (wd_files w)\<rparr>))"

text \<open>A write of whole blocks to an existing file: what a failed one leaves is the provider's choice.\<close>

definition file_write :: "string \<Rightarrow> nat \<Rightarrow> bytes \<Rightarrow> unit ostep" where
  "file_write name at data = (\<lambda>w.
     case map_of (wd_files w) name of None \<Rightarrow> (Inl OpenIo, w)
     | Some img \<Rightarrow>
       (case write_call at data img (wd_io w) of (ok, img, io) \<Rightarrow>
          (if ok then Inr () else Inl OpenIo, w\<lparr>wd_files := AList.update name img (wd_files w), wd_io := io\<rparr>)))"

text \<open>Opening a file and asking for its size: two calls; a missing file fails the open.\<close>

definition open_sized :: "string \<Rightarrow> bytes ostep" where
  "open_sized name =
     obind (provider 1) (\<lambda>_. obind (file_of name) (\<lambda>file.
       case file of None \<Rightarrow> ofail OpenIo | Some img \<Rightarrow> obind (provider 1) (\<lambda>_. oret img)))"

section \<open>Listing the directory\<close>

definition META_NAME :: string where "META_NAME = ''meta''"

definition META_TMP :: string where "META_TMP = ''meta.tmp''"

definition check_config :: "geometry \<Rightarrow> unit ostep" where
  "check_config g = (if is_valid g then oret () else ofail InvalidConfig)"

definition sync_names :: "string \<Rightarrow> unit ostep" where
  "sync_names dir = provider (length (ancestors_of dir) + 1)"

definition remove_leftover :: "unit ostep" where
  "remove_leftover = obind (file_exists META_TMP) (\<lambda>there. if there then file_delete META_TMP else oret ())"

fun delete_all :: "string list \<Rightarrow> unit ostep" where
  "delete_all [] = oret ()"
| "delete_all (name # names) = obind (file_delete name) (\<lambda>_. delete_all names)"

definition list_dir :: "string \<Rightarrow> listing option ostep" where
  "list_dir dir = obind (provider 1) (\<lambda>_ w.
     if \<not> wd_exists w then (Inr None, w)
     else let ls = list_segments (map fst (wd_files w)) in
       obind (sync_names dir) (\<lambda>_. obind remove_leftover (\<lambda>_.
         obind (delete_all (ls_deleted ls)) (\<lambda>_. oret (Some ls)))) w)"

section \<open>The meta file and the spare\<close>

text \<open>\<open>MetaFile::open\<close>: exists, open, size, sync, the two copies, the stale one written again.\<close>

definition meta_open_io :: "crc_lib \<Rightarrow> journal_id \<Rightarrow> (meta \<times> bool) option ostep" where
  "meta_open_io C journal =
     obind (file_exists META_NAME) (\<lambda>there.
       if \<not> there then oret None
       else obind (open_sized META_NAME) (\<lambda>img.
         if length img div BLOCK \<noteq> META_FILE_BLOCKS then ofail MetaLost
         else obind (provider 3) (\<lambda>_. obind (olift (meta_choose C journal img)) (\<lambda>(m, stale).
           case stale of None \<Rightarrow> oret (Some (m, False))
           | Some copy \<Rightarrow>
             obind (file_write META_NAME (copy_block copy * BLOCK) (meta_encode C (copy_byte copy) m))
               (\<lambda>_. oret (Some (m, True)))))))"

definition named_batches :: "crc_lib \<Rightarrow> journal_id \<Rightarrow> bytes \<Rightarrow> u64 list" where
  "named_batches C journal img =
     map sh_first_batch (filter (\<lambda>h. sh_journal h = journal)
       (List.map_filter id [segment_header_decode C (bslice 0 BLOCK img), segment_header_decode C (bslice BLOCK BLOCK img)]))"

text \<open>One spare of the right size that is no second name of a listed segment is kept, the others are deleted.\<close>

fun keep_spares ::
  "crc_lib \<Rightarrow> journal_id \<Rightarrow> geometry \<Rightarrow> (u64 \<times> string) list \<Rightarrow> string list \<Rightarrow> string option \<Rightarrow> nat \<Rightarrow> (string option \<times> nat) ostep" where
  "keep_spares C journal g listed [] kept removed = oret (kept, removed)"
| "keep_spares C journal g listed (name # names) kept removed =
     obind (if kept \<noteq> None then oret False else obind (open_sized name) (\<lambda>img. oret (length img = total_blocks g * BLOCK))) (\<lambda>whole.
     obind (if \<not> whole then oret False
            else obind (provider 2) (\<lambda>_. obind (file_of name) (\<lambda>file.
              oret (\<exists>b \<in> set (named_batches C journal (the file)). b \<in> set (map fst listed))))) (\<lambda>aliased.
     if whole \<and> \<not> aliased then keep_spares C journal g listed names (Some name) removed
     else obind (file_delete name) (\<lambda>_. keep_spares C journal g listed names kept (Suc removed))))"

definition keep_one_spare ::
  "crc_lib \<Rightarrow> journal_id \<Rightarrow> geometry \<Rightarrow> (u64 \<times> string) list \<Rightarrow> string list \<Rightarrow> (string option \<times> nat) ostep" where
  "keep_one_spare C journal g listed spares =
     obind (keep_spares C journal g listed spares None 0) (\<lambda>(kept, removed).
       obind (if removed > 0 then provider 1 else oret ()) (\<lambda>_. oret (kept, removed)))"

section \<open>Segments\<close>

text \<open>The header of a segment file and the copy to write again, if one is damaged.\<close>

definition header_choose :: "crc_lib \<Rightarrow> bytes \<Rightarrow> open_error + (segment_header \<times> nat option)" where
  "header_choose C img =
     (case (segment_header_decode C (bslice 0 BLOCK img), segment_header_decode C (bslice BLOCK BLOCK img)) of
        (Some a, Some b) \<Rightarrow> if a = b then Inr (a, None) else Inl BadSegment
      | (Some a, None) \<Rightarrow> Inr (a, Some 1)
      | (None, Some b) \<Rightarrow> Inr (b, Some 0)
      | (None, None) \<Rightarrow> Inl BadSegment)"

definition segment_open ::
  "crc_lib \<Rightarrow> journal_id \<Rightarrow> geometry \<Rightarrow> string \<Rightarrow> u64 \<Rightarrow> (segment \<times> bool) ostep" where
  "segment_open C journal g name first_batch =
     obind (open_sized name) (\<lambda>img.
       if length img div BLOCK \<noteq> total_blocks g then ofail BadSegment
       else obind (provider 1) (\<lambda>_. obind (olift (header_choose C img)) (\<lambda>(h, damaged).
         if sh_journal h \<noteq> journal then ofail (WrongJournal (sh_journal h))
         else if sh_first_batch h \<noteq> first_batch then ofail BadSegment
         else if sh_geometry h \<noteq> g then ofail BadSegment
         else obind (case damaged of None \<Rightarrow> oret () | Some block \<Rightarrow> file_write name (block * BLOCK) (segment_header_encode C h)) (\<lambda>_.
           obind (file_of name) (\<lambda>file.
             oret (fresh_segment first_batch (sh_prev_batch h) g (the file), damaged \<noteq> None))))))"

fun open_segments ::
  "crc_lib \<Rightarrow> journal_id \<Rightarrow> geometry \<Rightarrow> (u64 \<times> string) list \<Rightarrow> (segment list \<times> nat) ostep" where
  "open_segments C journal g [] = oret ([], 0)"
| "open_segments C journal g ((first, name) # rest) =
     obind (segment_open C journal g name first) (\<lambda>(s, repaired).
       obind (open_segments C journal g rest) (\<lambda>(ss, n). oret (s # ss, (if repaired then 1 else 0) + n)))"

section \<open>Opening\<close>

record recovery =
  rv_corrupt :: "(u64 \<times> ident) list"
  rv_ambiguous :: "(u64 \<times> ident) list"
  rv_torn :: nat
  rv_rebuilt :: nat
  rv_meta_repaired :: bool
  rv_headers_repaired :: nat
  rv_segments_removed :: nat
  rv_spares_removed :: nat
  rv_spare_kept :: bool

fun set_cursors :: "segment list \<Rightarrow> (nat \<times> nat) list \<Rightarrow> segment list" where
  "set_cursors (s # ss) ((p, e) # cs) = s\<lparr>sg_persist_next := p, sg_entry_next := e\<rparr> # set_cursors ss cs"
| "set_cursors ss cs = ss"

text \<open>The last batch's records, voided or rebuilt: the entries are synced first.\<close>

definition rewrite_records :: "scan_out \<Rightarrow> segment list \<Rightarrow> segment list ostep" where
  "rewrite_records out ss =
     (case sc_rewrite out of None \<Rightarrow> oret ss
      | Some (at, offset, data) \<Rightarrow>
        obind (provider 1) (\<lambda>_.
          if \<not> BLOCK dvd offset then ofail OpenPanic
          else let name = segment_name (sg_first_batch (ss ! at)) in
            obind (file_write name offset data) (\<lambda>_. obind (file_of name) (\<lambda>file.
              oret (ss[at := (ss ! at)\<lparr>sg_image := the file\<rparr>])))))"

text \<open>Both copies of the metainfo name the new generation before anything is written under it.\<close>

definition begin_generation :: "crc_lib \<Rightarrow> meta \<Rightarrow> u64 \<Rightarrow> meta ostep" where
  "begin_generation C m last_batch =
     (case checked_add (mt_open_generation m) 1 of None \<Rightarrow> ofail InvalidConfig
      | Some generation \<Rightarrow>
        let m = m\<lparr>mt_seq := mt_seq m + 1, mt_last_batch := last_batch, mt_open_generation := generation, mt_open_last := last_batch\<rparr> in
        obind (file_write META_NAME (copy_block CopyA * BLOCK) (meta_encode C (copy_byte CopyA) m)) (\<lambda>_.
        obind (file_write META_NAME (copy_block CopyB * BLOCK) (meta_encode C (copy_byte CopyB) m)) (\<lambda>_. oret m)))"

text \<open>
  The journal in memory from what the scan found, down to \<open>assert_invariants\<close>. The files of the journal are
  from here on those it carries; the directory keeps them under their names.
\<close>

definition journal_files :: "journal \<Rightarrow> (string \<times> bytes) list" where
  "journal_files j =
     (META_NAME, jn_meta_file j) # map (\<lambda>s. (segment_name (sg_first_batch s), sg_image s)) (jn_segments j)
     @ (case jn_spare j of None \<Rightarrow> [] | Some spare \<Rightarrow> [spare])"

definition foreign :: "string \<Rightarrow> bool" where
  "foreign name = (name \<noteq> META_NAME \<and> parse_segment_name name = None \<and> \<not> is_spare name)"

definition build :: "scan_out \<Rightarrow> recovery \<Rightarrow> journal \<Rightarrow> (journal \<times> recovery) ostep" where
  "build out rv j = (\<lambda>w.
     case and_then (apply_ops (sc_ops out) j) drop_below_floor of Inl _ \<Rightarrow> (Inl OpenPanic, w)
     | Inr j \<Rightarrow>
       (case remove_dead_segments 0 j (wd_io w) of (removed, j, io) \<Rightarrow>
          let w = w\<lparr>wd_files := journal_files j @ filter (\<lambda>(name, _). foreign name) (wd_files w), wd_io := io\<rparr> in
          (case removed of None \<Rightarrow> (Inl OpenIo, w)
           | Some n \<Rightarrow>
             if assert_invariants j then (Inr (j, rv\<lparr>rv_segments_removed := n\<rparr>), w) else (Inl OpenPanic, w))))"

definition open_with ::
  "crc_lib \<Rightarrow> journal_id \<Rightarrow> geometry \<Rightarrow> durability \<Rightarrow> listing \<Rightarrow> meta \<Rightarrow> bool \<Rightarrow> (journal \<times> recovery) ostep" where
  "open_with C journal g d ls m repaired =
     obind (keep_one_spare C journal g (ls_firsts ls) (ls_spares ls)) (\<lambda>(spare, spares_removed).
     obind (open_segments C journal g (ls_firsts ls)) (\<lambda>(ss, headers_repaired).
     obind (provider 1) (\<lambda>_.
     obind (olift (scan C (journal_tag C journal) \<lparr>st_generation = mt_open_generation m, st_last = mt_open_last m\<rparr> ss)) (\<lambda>out.
     if sc_last_batch out < mt_last_batch m then ofail (LostBatch (mt_last_batch m))
     else
     obind (rewrite_records out (set_cursors ss (sc_cursors out))) (\<lambda>ss.
     obind (provider (length ss + 1)) (\<lambda>_.
     obind (begin_generation C m (sc_last_batch out)) (\<lambda>m.
     obind (file_of META_NAME) (\<lambda>meta_file.
     obind (case spare of None \<Rightarrow> oret None | Some name \<Rightarrow> obind (file_of name) (\<lambda>file. oret (Some (name, the file)))) (\<lambda>spare.
     build out
       \<lparr>rv_corrupt = sc_corrupt out, rv_ambiguous = sc_ambiguous out, rv_torn = sc_voided out, rv_rebuilt = sc_rebuilt out,
        rv_meta_repaired = repaired, rv_headers_repaired = headers_repaired, rv_segments_removed = 0,
        rv_spares_removed = spares_removed, rv_spare_kept = (spare \<noteq> None)\<rparr>
       \<lparr>jn_id = journal, jn_tag = journal_tag C journal, jn_durability = d, jn_geometry = g, jn_meta_file = the meta_file, jn_meta = m,
        jn_segments = ss, jn_index = [], jn_last_batch = sc_last_batch out,
        jn_ambiguous_batch = (if sc_ambiguous out \<noteq> [] then Some (sc_last_batch out) else None),
        jn_generation = mt_open_generation m, jn_poisoned = False, jn_spare = spare, jn_spares_named = 0,
        jn_onto_spare = 0, jn_created = 0\<rparr>)))))))))"

definition open_journal ::
  "crc_lib \<Rightarrow> string \<Rightarrow> journal_id \<Rightarrow> geometry \<Rightarrow> durability \<Rightarrow> (journal \<times> recovery) option ostep" where
  "open_journal C dir journal g d =
     obind (check_config g) (\<lambda>_.
     obind (list_dir dir) (\<lambda>listed.
     case listed of None \<Rightarrow> oret None
     | Some ls \<Rightarrow>
       obind (meta_open_io C journal) (\<lambda>opened.
       case opened of None \<Rightarrow> if ls_firsts ls = [] then oret None else ofail MetaLost
       | Some (m, repaired) \<Rightarrow>
         if mt_geometry m \<noteq> g then ofail InvalidConfig
         else obind (open_with C journal g d ls m repaired) (\<lambda>x. oret (Some x)))))"

section \<open>Creating and probing\<close>

text \<open>
  \<open>MetaFile::create\<close>: a leftover goes, the file is written whole under its temporary name, synced, renamed
  into place and opened again.
\<close>

definition meta_create_io :: "crc_lib \<Rightarrow> meta \<Rightarrow> bytes ostep" where
  "meta_create_io C m =
     obind remove_leftover (\<lambda>_.
     obind (provider 1) (\<lambda>_ w.
     obind (file_write META_TMP 0 (meta_create C m)) (\<lambda>_.
     obind (provider 2) (\<lambda>_ w.
       obind (provider 2) (\<lambda>_. oret (meta_create C m))
         (w\<lparr>wd_files := AList.update META_NAME (meta_create C m) (AList.delete META_TMP (wd_files w))\<rparr>)))
       (w\<lparr>wd_files := AList.update META_TMP [] (wd_files w)\<rparr>)))"

definition create :: "crc_lib \<Rightarrow> string \<Rightarrow> journal_id \<Rightarrow> geometry \<Rightarrow> durability \<Rightarrow> bytes \<Rightarrow> journal ostep" where
  "create C dir journal g d bytes =
     obind (check_config g) (\<lambda>_.
     if META_MAX < length bytes then ofail InvalidConfig
     else obind (provider 1) (\<lambda>_ w.
       obind (sync_names dir) (\<lambda>_. obind (file_exists META_NAME) (\<lambda>there.
         if there then ofail AlreadyExists
         else let m = \<lparr>mt_seq = 1, mt_journal = journal, mt_floor = 0, mt_last_batch = 0, mt_open_generation = 1,
                       mt_open_last = 0, mt_geometry = g, mt_bytes = bytes\<rparr> in
           obind (meta_create_io C m) (\<lambda>meta_file.
             oret \<lparr>jn_id = journal, jn_tag = journal_tag C journal, jn_durability = d, jn_geometry = g, jn_meta_file = meta_file,
               jn_meta = m, jn_segments = [], jn_index = [], jn_last_batch = 0, jn_ambiguous_batch = None, jn_generation = 1,
               jn_poisoned = False, jn_spare = None, jn_spares_named = 0, jn_onto_spare = 0, jn_created = 0\<rparr>)))
         (w\<lparr>wd_exists := True, wd_files := if wd_exists w then wd_files w else []\<rparr>)))"

definition peek_meta :: "crc_lib \<Rightarrow> journal_id \<Rightarrow> bytes option ostep" where
  "peek_meta C journal =
     obind (file_exists META_NAME) (\<lambda>there.
       if \<not> there then oret None
       else obind (open_sized META_NAME) (\<lambda>img.
         if length img div BLOCK \<noteq> META_FILE_BLOCKS then ofail MetaLost
         else obind (provider 2) (\<lambda>_. obind (olift (meta_peek C journal (Some img))) (\<lambda>m. oret (map_option mt_bytes m)))))"

end
