(* ===== verification/Journal_Reopen.thy ===== *)
theory Journal_Reopen
  imports Journal_Open
begin

text \<open>
  Durability across opens: what a journal's files hold between two commits, that every commit and every open
  keeps it, and that an open of these files gives back the journal, entry by entry.
\<close>

section \<open>Logs whatever the generation\<close>

text \<open>No batch is stale: the view of the log in which only the batches older than their segment are dead.\<close>

definition st_none :: stale where
  "st_none = \<lparr>st_generation = 0, st_last = 0\<rparr>"

lemma not_stale_none [simp]: "\<not> is_stale st_none b" "is_stale_in st_none f b \<longleftrightarrow> b < f"
  by (simp_all add: is_stale_def is_stale_in_def st_none_def)

lemma reads_any_stale:
  assumes "log_slot C st_none s j = SlotValid r" "\<not> is_stale st (pr_batch r)"
  shows "log_slot C st s j = SlotValid r"
  using assms by (simp add: log_slot_valid is_stale_in_def)

lemma dead_any_stale: "slot_dead C st_none s j \<Longrightarrow> slot_dead C st s j"
  by (auto simp: slot_dead_def log_slot_valid is_stale_in_def)

lemma intact_any_stale:
  assumes "intact C tag st_none s at e prs" "\<not> is_stale st (seq_of prs)"
  shows "intact C tag st s at e prs"
proof -
  have p: "placed e prs" using assms(1) by (simp add: intact_def)
  have "pr_batch (fst (prs ! k)) = seq_of prs" if "k < length prs" for k
    using numbered_nth [of "seq_of prs" "count_of prs" 0 prs k] p that by (auto simp: placed_def)
  then show ?thesis using assms dead_any_stale by (auto simp: intact_def record_reads_def intro: reads_any_stale)
qed

lemma log_ok_any_stale:
  "log_ok C tag st_none s slots prev at e bs \<Longrightarrow> \<forall>b \<in> set bs. \<not> is_stale st (seq_of b) \<Longrightarrow> log_ok C tag st s slots prev at e bs"
  by (induction bs arbitrary: prev at e) (auto simp: follows_def is_stale_in_def intro: intact_any_stale)

lemma unwritten_any_stale:
  assumes "unwritten C tag st_none s slots seq at e"
  shows "unwritten C tag st s slots seq at e"
  using assms dead_any_stale by (fastforce simp: unwritten_def is_stale_in_def split: option.splits)

lemma closed_any_stale:
  "closed_ok C tag st_none prev pre \<Longrightarrow> \<forall>(s, bs) \<in> set pre. \<forall>b \<in> set bs. \<not> is_stale st (seq_of b) \<Longrightarrow> closed_ok C tag st prev pre"
  by (induction pre arbitrary: prev) (auto intro: log_ok_any_stale unwritten_any_stale)

section \<open>A segment as its file\<close>

text \<open>What \<open>Segment::open\<close> makes of a segment's file.\<close>

definition disk :: "segment \<Rightarrow> segment" where
  "disk s = fresh_segment (sg_first_batch s) (sg_prev_batch s) (sg_geometry s) (sg_image s)"

lemma disk_simps [simp]:
  "sg_first_batch (disk s) = sg_first_batch s" "sg_prev_batch (disk s) = sg_prev_batch s" "sg_geometry (disk s) = sg_geometry s"
  "sg_image (disk s) = sg_image s" "disk (stored s) = disk s"
  by (simp_all add: disk_def fresh_segment_def stored_def)

lemma same_reads:
  assumes s: "sg_first_batch s = sg_first_batch s'" "sg_geometry s = sg_geometry s'" "sg_image s = sg_image s'"
  shows "read_entry C s = read_entry C s'" "log_slot C st s = log_slot C st s'" "slots_of s = slots_of s'" "start_of s = start_of s'"
proof -
  have at: "read_at s = read_at s'" and log: "read_persist_log s = read_persist_log s'"
    using s by (simp_all add: fun_eq_iff read_at_def read_persist_log_def)
  show "read_entry C s = read_entry C s'" by (rule ext)+ (unfold read_entry_def at s, rule refl)
  show "log_slot C st s = log_slot C st s'" by (rule ext) (unfold log_slot_def log s, rule refl)
  show "slots_of s = slots_of s'" "start_of s = start_of s'" using s log by (simp_all add: slots_of_def start_of_def)
qed

lemma disk_reads [simp]:
  "read_entry C (disk s) = read_entry C s" "log_slot C st (disk s) = log_slot C st s" "slots_of (disk s) = slots_of s" "start_of (disk s) = start_of s"
  by (rule same_reads; simp)+

lemma disk_log:
  "unwritten C tag st (disk s) slots seq at e = unwritten C tag st s slots seq at e"
  "log_ok C tag st (disk s) slots prev at e bs = log_ok C tag st s slots prev at e bs"
proof -
  show "unwritten C tag st (disk s) slots seq at e = unwritten C tag st s slots seq at e"
    unfolding unwritten_def slot_dead_def disk_reads disk_simps by (rule refl)
  show "log_ok C tag st (disk s) slots prev at e bs = log_ok C tag st s slots prev at e bs"
    by (induction bs arbitrary: prev at e) (simp_all add: intact_def record_reads_def entry_reads_def slot_dead_def follows_def)
qed

lemma disk_ops: "log_ops (disk s) at bs = log_ops s at bs"
proof (induction bs arbitrary: at)
  case (Cons b bs)
  have "op_of (disk s) x k r d = op_of s x k r d" for x k r d by (cases "pr_kind r") (simp_all add: op_of_def located_of_def)
  then have "batch_ops (disk s) x k prs = batch_ops s x k prs" for x k prs by (induction prs arbitrary: k) auto
  then show ?case using Cons by (simp add: log_ops_at_def)
qed simp

lemma disk_closed:
  "closed_ok C tag st prev (map (apfst disk) pre) = closed_ok C tag st prev pre"
  "closed_ops (map (apfst disk) pre) = closed_ops pre"
  "closed_last prev (map (apfst disk) pre) = closed_last prev pre"
  "map (snd \<circ> closed_scan) (map (apfst disk) pre) = map (snd \<circ> closed_scan) pre"
  by (induction pre arbitrary: prev) (auto simp: disk_log disk_ops closed_scan_def)

section \<open>The chain of segments at rest\<close>

fun chain :: "crc_lib \<Rightarrow> u32 \<Rightarrow> u64 \<Rightarrow> (segment \<times> (precord \<times> bytes) list list) list \<Rightarrow> bool" where
  "chain C tag prev [] = True"
| "chain C tag prev ((s, bs) # rest) = (at_rest C tag st_none prev s bs \<and> chain C tag (log_last prev bs) rest)"

lemma chain_closed: "chain C tag prev pre \<Longrightarrow> closed_ok C tag st_none prev pre"
proof (induction pre arbitrary: prev)
  case (Cons x pre)
  then show ?case using at_rest_closed [of C tag st_none prev "fst x" "snd x"] by (cases x) auto
qed simp

lemma chain_append: "chain C tag prev (xs @ ys) \<longleftrightarrow> chain C tag prev xs \<and> chain C tag (closed_last prev xs) ys"
  by (induction xs arbitrary: prev) auto

lemma chain_drop: "chain C tag prev pre \<Longrightarrow> \<exists>prev'. chain C tag prev' (drop k pre) \<and> closed_last prev' (drop k pre) = closed_last prev pre"
  using chain_append [of C tag prev "take k pre" "drop k pre"] closed_append(3) [of prev "take k pre" "drop k pre"] by auto

lemma disk_at_rest:
  assumes "disk s = disk s'" "sg_persist_next s = sg_persist_next s'" "sg_entry_next s = sg_entry_next s'"
  shows "at_rest C tag st prev s bs = at_rest C tag st prev s' bs"
proof -
  have r: "log_slot C st s = log_slot C st s'" "read_entry C s = read_entry C s'" "slots_of s = slots_of s'" "start_of s = start_of s'"
    using disk_reads(1) [of C s] disk_reads(1) [of C s'] disk_reads(2) [of C st s] disk_reads(2) [of C st s']
      disk_reads(3,4) [of s] disk_reads(3,4) [of s'] assms(1) by simp_all
  have f: "sg_first_batch s = sg_first_batch s'" "sg_prev_batch s = sg_prev_batch s'" "sg_geometry s = sg_geometry s'" "sg_image s = sg_image s'"
    using disk_simps(1-4) [of s] disk_simps(1-4) [of s'] assms(1) by metis+
  have "history C tag st s p at e bs = history C tag st s' p at e bs" for p at e
    by (induction bs arbitrary: p at e) (simp_all add: r f follows_def)
  then show ?thesis unfolding at_rest_def segment_ok_def blank_def slot_dead_def r f assms(2,3) by simp
qed

lemma at_rest_stored [simp]: "at_rest C tag st prev (stored s) bs = at_rest C tag st prev s bs"
  by (rule disk_at_rest) simp_all

lemma chain_cursors:
  "chain C tag prev pre \<Longrightarrow> set_cursors (map (disk \<circ> fst) pre) (map (snd \<circ> closed_scan) pre) = map (stored \<circ> fst) pre"
proof (induction pre arbitrary: prev)
  case (Cons x pre)
  obtain s bs where x: "x = (s, bs)" by (cases x)
  have "(disk s)\<lparr>sg_persist_next := sg_persist_next s, sg_entry_next := sg_entry_next s\<rparr> = stored s"
    by (simp add: disk_def fresh_segment_def stored_def)
  moreover have "snd (closed_scan (s, bs)) = (sg_persist_next s, sg_entry_next s)" using Cons.prems x by (simp add: closed_scan_def at_rest_def)
  ultimately show ?case using Cons.IH [of "log_last prev bs"] Cons.prems x by simp
qed simp

section \<open>What the files of a journal hold between two commits\<close>

definition headed :: "crc_lib \<Rightarrow> journal_id \<Rightarrow> segment \<Rightarrow> bool" where
  "headed C journal s =
     (bslice 0 (2 * BLOCK) (sg_image s) = header_blocks C
        \<lparr>sh_journal = journal, sh_first_batch = sg_first_batch s, sh_prev_batch = sg_prev_batch s, sh_geometry = sg_geometry s\<rparr>)"

text \<open>
  The batches in the segments: they chain, their operations are where the index says, and none of them is
  stale to the next open.
\<close>

definition logged :: "crc_lib \<Rightarrow> journal \<Rightarrow> (segment \<times> (precord \<times> bytes) list list) list \<Rightarrow> bool" where
  "logged C j pre =
     (map fst pre = map stored (jn_segments j)
      \<and> (\<exists>first. chain C (jn_tag j) first pre \<and> closed_last first pre = jn_last_batch j)
      \<and> (pre = [] \<longrightarrow> jn_last_batch j = 0)
      \<and> (\<forall>op \<in> set (closed_ops pre). case op of JPut p at \<Rightarrow> entry_held (jn_geometry j) (jn_segments j) at | JClear a z \<Rightarrow> a \<le> z)
      \<and> (\<forall>p \<ge> mt_floor (jn_meta j). om_get (jn_index j) p = map_ops (closed_ops pre) Map.empty p)
      \<and> (\<forall>(s, bs) \<in> set pre. \<forall>b \<in> set bs. seq_of b \<le> jn_last_batch j
           \<and> (seq_of b \<le> mt_open_last (jn_meta j) \<or> ucast (jn_generation j) \<le> generation_of (seq_of b))))"

definition settled_meta :: "crc_lib \<Rightarrow> journal \<Rightarrow> bool" where
  "settled_meta C j =
     (settled C (jn_meta_file j) (jn_meta j) \<and> mt_journal (jn_meta j) = jn_id j \<and> mt_geometry (jn_meta j) = jn_geometry j
      \<and> mt_open_generation (jn_meta j) = jn_generation j \<and> mt_last_batch (jn_meta j) \<le> jn_last_batch j
      \<and> jn_tag j = journal_tag C (jn_id j) \<and> unat (jn_generation j) < 2 ^ 24)"

definition resting :: "crc_lib \<Rightarrow> journal \<Rightarrow> bool" where
  "resting C j = (settled_meta C j \<and> (\<forall>s \<in> set (jn_segments j). headed C (jn_id j) s) \<and> (\<exists>pre. logged C j pre))"

definition clean :: "crc_lib \<Rightarrow> journal \<Rightarrow> bool" where
  "clean C j = (journal_ok j \<and> \<not> jn_poisoned j \<and> resting C j)"

section \<open>Operations and positions\<close>

lemma map_ops_simps [simp]:
  "map_ops [] m = m" "map_ops (op # ops) m = map_ops ops (map_op op m)" "map_ops (xs @ ys) m = map_ops ys (map_ops xs m)"
  by (simp_all add: map_ops_def)

text \<open>Operations fix what a position holds, or leave it.\<close>

lemma map_ops_either: "(\<forall>m. map_ops ops m p = map_ops ops Map.empty p) \<or> (\<forall>m. map_ops ops m p = m p)"
proof (induction ops)
  case (Cons op ops)
  then consider "\<forall>m. map_ops ops m p = map_ops ops Map.empty p" | "\<forall>m. map_ops ops m p = m p" by blast
  then show ?case
  proof cases
    case all: 2
    show ?thesis
    proof (cases op)
      case (JPut q at)
      then show ?thesis using all by auto
    next
      case (JClear a z)
      then show ?thesis using all by auto
    qed
  next
    case 1
    then have "\<forall>m. map_ops ops (map_op op m) p = map_ops ops (map_op op Map.empty) p" by metis
    then show ?thesis by simp
  qed
qed simp

lemma map_ops_put: "map_ops ops Map.empty p = Some at \<Longrightarrow> \<exists>q. JPut q at \<in> set ops"
  using map_ops_held [of Map.empty "\<lambda>at. \<exists>q. JPut q at \<in> set ops" ops p at] by auto

lemma batch_ops_segment: "JPut p at \<in> set (batch_ops s b k prs) \<Longrightarrow> lo_segment at = sg_first_batch s"
proof (induction prs arbitrary: k)
  case (Cons pr prs)
  then show ?case by (cases pr; cases "pr_kind (fst pr)") (auto simp: op_of_def located_of_def)
qed simp

lemma log_ops_segment: "JPut p at \<in> set (log_ops s n bs) \<Longrightarrow> lo_segment at = sg_first_batch s"
  by (induction bs arbitrary: n) (auto simp: log_ops_at_def batch_ops_segment)

lemma closed_ops_segment: "JPut p at \<in> set (closed_ops pre) \<Longrightarrow> lo_segment at \<in> sg_first_batch ` set (map fst pre)"
  by (induction pre) (auto dest: log_ops_segment)

section \<open>Trimming keeps it\<close>

lemma trimmedE:
  assumes "trimmed j j'"
  obtains k where "map stored (jn_segments j') = drop k (map stored (jn_segments j))" "k = 0 \<or> k < length (jn_segments j)"
  using assms unfolding trimmed_def by blast

lemma trimmedD:
  assumes "trimmed j j'"
  shows "rest_of j' = rest_of j" "index_ok j'"
    "om_get (jn_index j') = (\<lambda>p. if p < mt_floor (jn_meta j) then None else om_get (jn_index j) p)"
  using assms unfolding trimmed_def by blast+

lemma loggedD:
  assumes "logged C j pre"
  shows "map fst pre = map stored (jn_segments j)" "pre = [] \<longrightarrow> jn_last_batch j = 0"
    "\<forall>op \<in> set (closed_ops pre). case op of JPut p at \<Rightarrow> entry_held (jn_geometry j) (jn_segments j) at | JClear a z \<Rightarrow> a \<le> z"
    "\<forall>p \<ge> mt_floor (jn_meta j). om_get (jn_index j) p = map_ops (closed_ops pre) Map.empty p"
    "\<forall>(s, bs) \<in> set pre. \<forall>b \<in> set bs. seq_of b \<le> jn_last_batch j
       \<and> (seq_of b \<le> mt_open_last (jn_meta j) \<or> ucast (jn_generation j) \<le> generation_of (seq_of b))"
    "\<exists>first. chain C (jn_tag j) first pre \<and> closed_last first pre = jn_last_batch j"
  using assms unfolding logged_def by blast+

lemma trimmed_logged:
  assumes t: "trimmed j j'" and so: "sorted_wrt (<) (firsts j)" and l: "logged C j pre"
  shows "\<exists>pre'. logged C j' pre'"
proof -
  obtain k where k: "map stored (jn_segments j') = drop k (map stored (jn_segments j))" "k = 0 \<or> k < length (jn_segments j)"
    using t by (rule trimmedE)
  note ro = trimmedD(1) [OF t] and ix = trimmedD(2) [OF t] and get = trimmedD(3) [OF t]
  note same = rest_of_same [OF ro] and pre = loggedD(1,2) [OF l] and ops = loggedD(3) [OF l] and idx = loggedD(4) [OF l] and nums = loggedD(5) [OF l]
  obtain first where ch: "chain C (jn_tag j) first pre" "closed_last first pre = jn_last_batch j" using loggedD(6) [OF l] by blast
  obtain first' where ch': "chain C (jn_tag j) first' (drop k pre)" "closed_last first' (drop k pre) = jn_last_batch j"
    using chain_drop [OF ch(1)] ch(2) by metis
  have fst': "map fst (drop k pre) = map stored (jn_segments j')" using pre(1) k(1) by (metis drop_map)
  have split: "closed_ops pre = closed_ops (take k pre) @ closed_ops (drop k pre)" by (metis append_take_drop_id closed_append(2))
  have fi: "sg_first_batch ` set (map fst (drop k pre)) = set (firsts j')" unfolding fst' by (simp add: firsts_def image_image)
  have held: "entry_held (jn_geometry j) (jn_segments j') at" if "JPut p at \<in> set (closed_ops (drop k pre))" for p at
  proof -
    have "lo_segment at \<in> sg_first_batch ` set (drop k (map stored (jn_segments j)))"
      using closed_ops_segment [OF that] fst' k(1) by simp
    then have "seg_at (map stored (jn_segments j')) (lo_segment at) = seg_at (map stored (jn_segments j)) (lo_segment at)"
      unfolding k(1) using so by (intro seg_at_drop) (simp_all add: firsts_def comp_def)
    then have "entry_held (jn_geometry j) (jn_segments j') at = entry_held (jn_geometry j) (jn_segments j) at"
      by (intro entry_held_stored) (simp add: seg_at_stored)
    moreover have "JPut p at \<in> set (closed_ops pre)" using that split by simp
    ultimately show ?thesis using bspec [OF ops, of "JPut p at"] by simp
  qed
  have idx': "om_get (jn_index j') p = map_ops (closed_ops (drop k pre)) Map.empty p" if p: "mt_floor (jn_meta j) \<le> p" for p
  proof -
    let ?m = "map_ops (closed_ops (take k pre)) Map.empty"
    have "om_get (jn_index j') p = om_get (jn_index j) p" using leD [OF p] unfolding get by simp
    also have "\<dots> = map_ops (closed_ops pre) Map.empty p" using idx p by blast
    also have "\<dots> = map_ops (closed_ops (drop k pre)) ?m p" unfolding split by (simp only: map_ops_simps)
    finally have now: "om_get (jn_index j') p = map_ops (closed_ops (drop k pre)) ?m p" .
    from map_ops_either [of "closed_ops (drop k pre)" p] show ?thesis
    proof
      assume "\<forall>m. map_ops (closed_ops (drop k pre)) m p = map_ops (closed_ops (drop k pre)) Map.empty p"
      then show ?thesis unfolding now by (rule spec)
    next
      assume all: "\<forall>m. map_ops (closed_ops (drop k pre)) m p = m p"
      have "?m p = None"
      proof (rule ccontr)
        assume "?m p \<noteq> None"
        then obtain at where at: "?m p = Some at" by blast
        then have old: "lo_segment at \<in> sg_first_batch ` set (map fst (take k pre))" using map_ops_put closed_ops_segment by blast
        have "om_get (jn_index j') p = Some at" using now all at by simp
        then have "lo_segment at \<in> set (firsts j')" using ix by (auto simp: index_ok_def)
        then have new: "lo_segment at \<in> sg_first_batch ` set (map fst (drop k pre))" using fi by simp
        have "sorted_wrt (<) (map sg_first_batch (map fst pre))" unfolding pre(1) using so by (simp add: firsts_def comp_def)
        then have "sorted_wrt (<) (map sg_first_batch (map fst (take k pre)) @ map sg_first_batch (map fst (drop k pre)))"
          unfolding map_append [symmetric] append_take_drop_id .
        then have "\<forall>x \<in> sg_first_batch ` set (map fst (take k pre)). \<forall>y \<in> sg_first_batch ` set (map fst (drop k pre)). x < y"
          by (simp add: sorted_wrt_append)
        then show False using old new by blast
      qed
      then show ?thesis using now all by simp
    qed
  qed
  have "drop k pre = [] \<longrightarrow> jn_last_batch j = 0"
  proof
    assume "drop k pre = []"
    then have "length (jn_segments j) \<le> k" using arg_cong [OF pre(1), of length] by simp
    then show "jn_last_batch j = 0" using k(2) pre arg_cong [OF pre(1), of length] by auto
  qed
  moreover have "\<forall>op \<in> set (closed_ops (drop k pre)). case op of JPut p at \<Rightarrow> entry_held (jn_geometry j) (jn_segments j') at | JClear a z \<Rightarrow> a \<le> z"
  proof
    fix op assume op: "op \<in> set (closed_ops (drop k pre))"
    then have mem: "op \<in> set (closed_ops pre)" using split by simp
    show "case op of JPut p at \<Rightarrow> entry_held (jn_geometry j) (jn_segments j') at | JClear a z \<Rightarrow> a \<le> z"
    proof (cases op)
      case (JPut p at)
      then show ?thesis using held op by simp
    next
      case (JClear a z)
      then show ?thesis using bspec [OF ops mem] by simp
    qed
  qed
  moreover have "\<forall>(s, bs) \<in> set (drop k pre). \<forall>b \<in> set bs. seq_of b \<le> jn_last_batch j
           \<and> (seq_of b \<le> mt_open_last (jn_meta j) \<or> ucast (jn_generation j) \<le> generation_of (seq_of b))"
    using nums set_drop_subset [of k pre] by fast
  ultimately have "logged C j' (drop k pre)" unfolding logged_def same using fst' ch' idx' by blast
  then show ?thesis by blast
qed

lemma trimmed_resting:
  assumes t: "trimmed j j'" and c: "journal_core j" and r: "resting C j"
  shows "resting C j'"
proof -
  have ro: "rest_of j' = rest_of j" using t by (simp add: trimmed_def)
  note same = rest_of_same [OF ro]
  have so: "sorted_wrt (<) (firsts j)" using c by (simp add: journal_core_def index_ok_def)
  obtain k where k: "map stored (jn_segments j') = drop k (map stored (jn_segments j))" using t by (auto simp: trimmed_def)
  have id: "jn_id j' = jn_id j" using arg_cong [OF ro, of jn_id] by (simp add: rest_of_def)
  have hs: "headed C i (stored s) = headed C i s" for i s by (simp add: headed_def stored_def)
  have "\<forall>s \<in> set (map stored (jn_segments j')). headed C (jn_id j) s"
    unfolding k using r set_drop_subset [of k "map stored (jn_segments j)"] hs by (fastforce simp: resting_def)
  then have "\<forall>s \<in> set (jn_segments j'). headed C (jn_id j') s" using hs id by simp
  moreover have "settled_meta C j'" using r same id by (simp add: resting_def settled_meta_def)
  moreover obtain pre where "logged C j pre" using r by (auto simp: resting_def)
  ultimately show ?thesis using trimmed_logged [OF t so] by (auto simp: resting_def)
qed

end
