(* ===== verification/Journal_Resting.thy ===== *)
theory Journal_Resting
  imports Journal_Reopen
begin

text \<open>
  A commit keeps what the files of a journal hold: the batch lands behind the ones before it, in the active
  segment or in a new one, and the metainfo stays settled.
\<close>

section \<open>A new segment is at rest\<close>

text \<open>A file with nothing in it that a segment starting at batch \<open>n\<close> would take for its own.\<close>

definition old_file :: "crc_lib \<Rightarrow> u32 \<Rightarrow> geometry \<Rightarrow> u64 \<Rightarrow> bytes \<Rightarrow> bool" where
  "old_file C tag g n img = blank C tag st_none (fresh_segment n 0 g img) 0 (entry_start g)"

text \<open>
  The spare shows no batch number the journal has not reached yet: where a block of it starts with an entry of
  this journal, that entry is an old one. The payloads of the caller decide it, since a recycled file keeps them.
\<close>

definition spare_old :: "crc_lib \<Rightarrow> journal \<Rightarrow> bool" where
  "spare_old C j =
     (case jn_spare j of None \<Rightarrow> True
      | Some (_, img) \<Rightarrow> old_file C (jn_tag j) (jn_geometry j) (next_seq (jn_generation j) (jn_last_batch j)) img)"

lemma old_file_zero: "is_valid g \<Longrightarrow> old_file C tag g n (zero_image g)"
  using fresh_at_rest [of g C tag st_none 0 n]
  by (simp add: old_file_def at_rest_def start_of_def) (simp add: fresh_segment_def)

lemma fresh_rest:
  assumes v: "is_valid g" and len: "length base = total_blocks g * BLOCK" and old: "old_file C tag g n base" and h: "length h = 2 * BLOCK"
  shows "at_rest C tag st_none prev (fresh_segment n prev g (put_at 0 h base)) []"
proof -
  let ?s = "fresh_segment n 0 g base" and ?img = "put_at 0 h base" and ?t = "fresh_segment n prev g (put_at 0 h base)"
  have ok: "segment_ok ?s" using v len by (simp add: segment_ok_def fresh_segment_def)
  have room: "length h \<le> length base" using h len by (simp add: geometry_defs)
  then have ilen: "length ?img = length base" by simp
  have same: "bslice i m ?img = bslice i m base" if "2 * BLOCK \<le> i" for i m
    using that h room by (simp add: bslice_put_at_after)
  have "blank C tag st_none (?s\<lparr>sg_image := ?img\<rparr>) 0 (entry_start g)"
  proof (rule blank_of_image [OF _ ok])
    show "blank C tag st_none ?s 0 (entry_start g)" using old by (simp add: old_file_def)
  qed (use ilen same in \<open>auto simp: fresh_segment_def geometry_defs\<close>)
  then have b: "blank C tag st_none ?t 0 (entry_start g)"
  proof -
    have f: "sg_first_batch (?s\<lparr>sg_image := ?img\<rparr>) = sg_first_batch ?t" "sg_geometry (?s\<lparr>sg_image := ?img\<rparr>) = sg_geometry ?t"
      "sg_image (?s\<lparr>sg_image := ?img\<rparr>) = sg_image ?t"
      by (simp_all add: fresh_segment_def)
    show "blank C tag st_none (?s\<lparr>sg_image := ?img\<rparr>) 0 (entry_start g) \<Longrightarrow> blank C tag st_none ?t 0 (entry_start g)"
      unfolding blank_def slot_dead_def same_reads [OF f] f(1) .
  qed
  moreover have "segment_ok ?t" using v len ilen by (simp add: segment_ok_def fresh_segment_def)
  moreover have "start_of ?t = entry_start g" by (simp add: start_of_def fresh_segment_def)
  ultimately show ?thesis by (simp add: at_rest_def) (simp add: fresh_segment_def)
qed

section \<open>The operations of a batch, on disk and in memory\<close>

lemma commit_ops_logged:
  "records_for f c seq k ws (map fst prs) \<Longrightarrow> k + length ws < 2 ^ 16 \<Longrightarrow>
   bs_persist_at b = q \<Longrightarrow> sg_first_batch s = first \<Longrightarrow>
   commit_ops first q k (zip (map fst prs) ws) = batch_ops s b k prs"
proof (induction prs arbitrary: ws k)
  case (Cons pr prs)
  obtain r payload where pr: "pr = (r, payload)" by (cases pr)
  obtain w ws' where ws: "ws = w # ws'" using Cons.prems(1) pr by (cases ws) auto
  have "[write_op first q k r w] = op_of s b k r False"
    using Cons.prems pr ws clear_end_clear_id [of r] by (cases w) (auto simp: write_op_def op_of_def located_of_def)
  then show ?case using Cons pr ws by simp
next
  case Nil
  then show ?case by (cases ws) simp_all
qed

section \<open>The batch behind the ones before it\<close>

text \<open>The segments of a commit with the batches each holds, before the new one is added to the last.\<close>

definition before :: "crc_lib \<Rightarrow> journal \<Rightarrow> segment list \<Rightarrow> segment \<Rightarrow> (segment \<times> (precord \<times> bytes) list list) list \<Rightarrow> u64 \<Rightarrow> (precord \<times> bytes) list list \<Rightarrow> bool" where
  "before C j ss s pre prev bs =
     (map fst pre = map stored ss \<and> (\<exists>first. chain C (jn_tag j) first pre \<and> closed_last first pre = prev)
      \<and> at_rest C (jn_tag j) st_none prev s bs \<and> log_last prev bs = jn_last_batch j)"

lemma rolled_before:
  assumes r: "rolled C p j ss s" and l: "logged C j pre" and c: "journal_core j" and so: "spare_old C j"
    and seq: "pp_seq p = next_seq (jn_generation j) (jn_last_batch j)"
  shows "\<exists>pre0 prev bs. before C j ss s pre0 prev bs \<and> closed_ops pre = closed_ops pre0 @ log_ops s 0 bs \<and>
    (\<forall>b \<in> set bs \<union> \<Union> ((set \<circ> snd) ` set pre0). b \<in> \<Union> ((set \<circ> snd) ` set pre))"
proof -
  obtain first where ch: "chain C (jn_tag j) first pre" "closed_last first pre = jn_last_batch j" using loggedD(6) [OF l] by blast
  have pre: "map fst pre = map stored (jn_segments j)" by (rule loggedD(1) [OF l])
  show ?thesis
  proof (cases "jn_segments j = ss @ [s]")
    case True
    then have "pre \<noteq> []" using pre by auto
    then obtain pre0 x where x: "pre = pre0 @ [x]" by (metis rev_exhaust)
    obtain t bs where t: "x = (t, bs)" by (cases x)
    have st: "map fst pre0 = map stored ss" "t = stored s" using pre True x t by simp_all
    have lo: "log_ops t 0 bs = log_ops s 0 bs" unfolding st(2) using disk_ops [of "stored s" 0 bs] disk_ops [of s 0 bs] by simp
    have "before C j ss s pre0 (closed_last first pre0) bs"
      using ch x t st closed_append(3) [of first pre0 "[x]"] by (auto simp: before_def chain_append)
    then show ?thesis using x t lo by (intro exI [of _ pre0] exI [of _ "closed_last first pre0"] exI [of _ bs]) (auto simp: closed_append)
  next
    case False
    then obtain base where b: "jn_segments j = ss" "base \<in> insert (zero_image (jn_geometry j)) (snd ` set_option (jn_spare j))"
      "s = fresh_segment (pp_seq p) (jn_last_batch j) (jn_geometry j) (put_at 0 (header_blocks C (roll_header j (pp_seq p))) base)"
      using r by (auto simp: rolled_def)
    have v: "is_valid (jn_geometry j)" using c by (simp add: journal_core_def)
    have base: "length base = total_blocks (jn_geometry j) * BLOCK" "old_file C (jn_tag j) (jn_geometry j) (pp_seq p) base"
      using b(2) c so seq old_file_zero [OF v] by (auto simp: journal_core_def spare_old_def zero_image_def)
    have "at_rest C (jn_tag j) st_none (jn_last_batch j) s []"
      unfolding b(3) by (rule fresh_rest [OF v base length_header_blocks])
    then have "before C j ss s pre (jn_last_batch j) []" using pre b(1) ch by (auto simp: before_def log_last_def)
    then show ?thesis by (intro exI [of _ pre] exI [of _ "jn_last_batch j"] exI [of _ "[]"]) auto
  qed
qed

lemma wroteD:
  assumes "wrote C b m j ss s p prs j1"
  shows "rolled C p j ss s" "batch_written C b j s p prs" "map stored (jn_segments j1) = map stored (ss @ [advance p s])"
    "om_get (jn_index j1) = map_ops (batch_ops_of s p b) (om_get (jn_index j))"
    "jn_meta j1 = (case m of None \<Rightarrow> jn_meta j | Some n \<Rightarrow> n)"
    "jn_meta_file j1 = (case m of None \<Rightarrow> jn_meta_file j | Some n \<Rightarrow> meta_update C n (jn_meta_file j))"
    "jn_last_batch j1 = pp_seq p" "jn_tag j1 = jn_tag j" "jn_id j1 = jn_id j" "jn_geometry j1 = jn_geometry j"
    "jn_generation j1 = jn_generation j" "jn_poisoned j1 = jn_poisoned j"
proof -
  show "rolled C p j ss s" "batch_written C b j s p prs" "map stored (jn_segments j1) = map stored (ss @ [advance p s])"
    "om_get (jn_index j1) = map_ops (batch_ops_of s p b) (om_get (jn_index j))"
    using assms unfolding wrote_def by blast+
  have ro: "rest_of j1 = (rest_of j)\<lparr>jn_last_batch := pp_seq p, jn_ambiguous_batch := None,
          jn_meta := (case m of None \<Rightarrow> jn_meta j | Some n \<Rightarrow> n),
          jn_meta_file := (case m of None \<Rightarrow> jn_meta_file j | Some n \<Rightarrow> meta_update C n (jn_meta_file j)),
          jn_onto_spare := jn_onto_spare j1, jn_created := jn_created j1\<rparr>"
    using assms unfolding wrote_def by (elim conjE)
  show "jn_meta j1 = (case m of None \<Rightarrow> jn_meta j | Some n \<Rightarrow> n)" using arg_cong [OF ro, of jn_meta] by (simp add: rest_of_def)
  show "jn_meta_file j1 = (case m of None \<Rightarrow> jn_meta_file j | Some n \<Rightarrow> meta_update C n (jn_meta_file j))" using arg_cong [OF ro, of jn_meta_file] by (simp add: rest_of_def)
  show "jn_last_batch j1 = pp_seq p" using arg_cong [OF ro, of jn_last_batch] by (simp add: rest_of_def)
  show "jn_tag j1 = jn_tag j" using arg_cong [OF ro, of jn_tag] by (simp add: rest_of_def)
  show "jn_id j1 = jn_id j" using arg_cong [OF ro, of jn_id] by (simp add: rest_of_def)
  show "jn_geometry j1 = jn_geometry j" using arg_cong [OF ro, of jn_geometry] by (simp add: rest_of_def)
  show "jn_generation j1 = jn_generation j" using arg_cong [OF ro, of jn_generation] by (simp add: rest_of_def)
  show "jn_poisoned j1 = jn_poisoned j" using arg_cong [OF ro, of jn_poisoned] by (simp add: rest_of_def)
qed

lemma batch_writtenD:
  assumes "batch_written C b j s p prs"
  shows "pp_persist_at p = sg_persist_next s" "pp_entry_at p = sg_entry_next s" "pp_seq p = next_seq (jn_generation j) (jn_last_batch j)"
    "extents_ok p (sg_image s)" "batch_at C (jn_tag j) (write_batch p (sg_image s)) (sg_persist_next s) (sg_entry_next s) prs"
    "pp_decoded p = map fst prs" "map snd prs = map payload_of (bt_writes b)"
    "records_for (flags_of (jn_durability j)) (of_nat (length (bt_writes b))) (pp_seq p) 0 (bt_writes b) (map fst prs)"
    "length (pp_entries p) = align_up (extent prs) BLOCK" "sg_entry_next s + length (pp_entries p) \<le> entry_end (jn_geometry j)"
    "length (pp_records p) = blocks_for (length (bt_writes b)) * BLOCK"
  using assms unfolding batch_written_def by blast+

lemma records_for_seq: "records_for f c seq 0 ws (map fst prs) \<Longrightarrow> prs \<noteq> [] \<Longrightarrow> seq_of prs = seq"
  by (cases prs; cases ws) (auto simp: seq_of_def split: prod.splits)

lemma wrote_laid_out:
  assumes w: "wrote C b m j ss s p prs j1" and c: "journal_core j" and bf: "before C j ss s pre0 prev bs"
    and nl: "jn_last_batch j < pp_seq p" and first: "sg_first_batch s \<le> pp_seq p"
  shows "laid_out C (jn_tag j) st_none prev s bs p prs"
proof -
  note bw = batch_writtenD [OF wroteD(2) [OF w]]
  have rest: "at_rest C (jn_tag j) st_none prev s bs" and l: "log_last prev bs = jn_last_batch j" using bf by (simp_all add: before_def)
  have cur: "sg_persist_next s = PERSIST_START + log_slots 0 bs * RECORD_SIZE" "sg_entry_next s = log_entries (start_of s) bs" and ok: "segment_ok s"
    using rest by (simp_all add: at_rest_def)
  have len: "length prs = length (bt_writes b)" using arg_cong [OF bw(7), of length] by simp
  have g: "sg_geometry s = jn_geometry j" using rolled_sound(1) [OF wroteD(1) [OF w] c] by (simp add: segment_sound_def)
  have ne: "prs \<noteq> []" using bw(5) by (simp add: batch_at_def)
  have seq: "seq_of prs = pp_seq p" by (rule records_for_seq [OF bw(8) ne])
  have fit: "segment_fits s (length (pp_records p) div BLOCK) (length (pp_entries p))" using wroteD(1) [OF w] by (simp add: rolled_def)
  have pe: "sg_persist_next s + length (pp_records p) \<le> persist_end (sg_geometry s)" using fit bw(11) by (simp add: segment_fits_def)
  have "next_slot (log_slots 0 bs) prs * RECORD_SIZE \<le> slots_of s * RECORD_SIZE"
    using pe next_slot_bytes [of "log_slots 0 bs" prs] slots_bytes [OF ok] cur(1) bw(11) len by simp
  then have "next_slot (log_slots 0 bs) prs \<le> slots_of s" by (simp add: RECORD_SIZE_def)
  then have "log_slots 0 bs + length prs \<le> slots_of s" using length_le_slots [of "length prs"] by (simp add: next_slot_def)
  then have fo: "follows st_none s (slots_of s) (log_last prev bs) (log_slots 0 bs) prs"
    using l seq nl first by (simp add: follows_def linorder_not_less)
  have wl: "length (write_batch p (sg_image s)) = length (sg_image s)" using bw(4) by (auto simp: write_batch_def extents_ok_def)
  have at: "pp_persist_at p = PERSIST_START + log_slots 0 bs * RECORD_SIZE" "pp_entry_at p = log_entries (start_of s) bs"
    using bw(1,2) cur by simp_all
  have out: "\<forall>i m. i + m \<le> pp_persist_at p \<or> pp_persist_at p + length (pp_records p) \<le> i \<and> i + m \<le> pp_entry_at p
      \<or> pp_entry_at p + length (pp_entries p) \<le> i \<longrightarrow> bslice i m (write_batch p (sg_image s)) = bslice i m (sg_image s)"
    using write_batch_outside [OF bw(4)] by (simp add: outside_def)
  show ?thesis
    unfolding laid_out_def Let_def
    using rest at bw(5) [unfolded cur] bw(6,9) bw(10) [folded g, unfolded cur(2)] bw(11) [folded len] seq wl out [unfolded at] fo pe [unfolded cur(1)]
    by (intro conjI) (assumption | simp only:)+
qed

lemma wrote_chain:
  assumes w: "wrote C b m j ss s p prs j1" and c: "journal_core j" and bf: "before C j ss s pre0 prev bs"
    and nl: "jn_last_batch j < pp_seq p" and first: "sg_first_batch s \<le> pp_seq p"
  defines "pre1 \<equiv> pre0 @ [(stored (advance p s), bs @ [prs])]"
  shows "map fst pre1 = map stored (jn_segments j1)" "\<exists>first. chain C (jn_tag j1) first pre1 \<and> closed_last first pre1 = jn_last_batch j1"
    "closed_ops pre1 = closed_ops pre0 @ log_ops s 0 bs @ batch_ops_of s p b" "seq_of prs = pp_seq p"
proof -
  note bw = batch_writtenD [OF wroteD(2) [OF w]]
  note lo = wrote_laid_out [OF w c bf nl first]
  have ne: "prs \<noteq> []" using bw(5) by (simp add: batch_at_def)
  show seq: "seq_of prs = pp_seq p" by (rule records_for_seq [OF bw(8) ne])
  show "map fst pre1 = map stored (jn_segments j1)" using bf wroteD(3) [OF w] by (simp add: pre1_def before_def)
  obtain f where f: "chain C (jn_tag j) f pre0" "closed_last f pre0 = prev" using bf by (auto simp: before_def)
  have "chain C (jn_tag j1) f pre1 \<and> closed_last f pre1 = jn_last_batch j1"
    using f commit_at_rest [OF lo] seq wroteD(7,8) [OF w] by (simp add: pre1_def chain_append closed_append log_append)
  then show "\<exists>first. chain C (jn_tag j1) first pre1 \<and> closed_last first pre1 = jn_last_batch j1" by blast
  have st: "log_ops (stored (advance p s)) 0 xs = log_ops s 0 xs" for xs
    using disk_ops [of "stored (advance p s)" 0 xs] disk_ops [of "advance p s" 0 xs] log_ops_image(2) by simp
  have cur: "sg_persist_next s = PERSIST_START + log_slots 0 bs * RECORD_SIZE" using bf by (simp add: before_def at_rest_def)
  have "length (bt_writes b) < 2 ^ 16" using batch_written_prs(4) [OF wroteD(2) [OF w]] .
  then have "batch_ops_of s p b = log_ops_at s (log_slots 0 bs) prs"
    unfolding batch_ops_of_def log_ops_at_def bw(6) using bw(1,8) cur
    by (intro commit_ops_logged [where f = "flags_of (jn_durability j)"]) (simp_all add: scan_of_def)
  then show "closed_ops pre1 = closed_ops pre0 @ log_ops s 0 bs @ batch_ops_of s p b"
    unfolding pre1_def closed_append(2) closed_ops.simps st unfolding log_append(4) by simp
qed

lemma generation_mono: "a \<le> b \<Longrightarrow> generation_of a \<le> generation_of b"
  by (simp add: word_le_nat_alt unat_generation_of div_le_mono)

lemma next_seq_generation:
  assumes "unat g < 2 ^ 24" "l < next_seq g l"
  shows "ucast g \<le> generation_of (next_seq g l)"
proof (cases "generation_of l = ucast g")
  case True
  then have "generation_of l \<le> generation_of (next_seq g l)" using assms(2) by (intro generation_mono) simp
  then show ?thesis using True by simp
next
  case False
  have "unat g < 2 ^ 64" using assms(1) by simp
  then have g: "unat (ucast g :: u64) = unat g" by (simp add: unsigned_ucast_eq take_bit_nat_eq_self)
  have "unat (generation_of (first_batch_of (ucast g))) = unat g"
    using assms(1) g unat_first_batch_of [of "ucast g"] by (simp add: unat_generation_of)
  then show ?thesis using False g by (simp add: next_seq_def word_le_nat_alt)
qed

lemma next_meta_keeps:
  "next_meta b j = Some n \<Longrightarrow> mt_journal n = mt_journal (jn_meta j) \<and> mt_geometry n = mt_geometry (jn_meta j) \<and>
   mt_open_generation n = mt_open_generation (jn_meta j) \<and> mt_open_last n = mt_open_last (jn_meta j) \<and> mt_last_batch n = jn_last_batch j
   \<and> mt_floor (jn_meta j) \<le> mt_floor n"
  by (auto simp: next_meta_def commit_floor_def split: if_splits option.splits)

lemma headed_stored: "headed C i (stored s) = headed C i s"
  by (simp add: headed_def stored_def)

lemma rolled_headed:
  assumes r: "rolled C p j ss s" and c: "journal_core j" and h: "\<forall>t \<in> set (jn_segments j). headed C (jn_id j) t"
    and x: "extents_ok p (sg_image s)" "pp_persist_at p = sg_persist_next s" "PERSIST_START \<le> sg_persist_next s"
  shows "\<forall>t \<in> set (ss @ [advance p s]). headed C (jn_id j) t"
proof -
  have s: "headed C (jn_id j) s"
  proof (cases "jn_segments j = ss @ [s]")
    case False
    then obtain base where b: "base \<in> insert (zero_image (jn_geometry j)) (snd ` set_option (jn_spare j))"
      "s = fresh_segment (pp_seq p) (jn_last_batch j) (jn_geometry j) (put_at 0 (header_blocks C (roll_header j (pp_seq p))) base)"
      using r by (auto simp: rolled_def)
    have "length base = total_blocks (jn_geometry j) * BLOCK" using b(1) c by (auto simp: journal_core_def zero_image_def)
    then have "bslice 0 (2 * BLOCK) (put_at 0 (header_blocks C (roll_header j (pp_seq p))) base) = header_blocks C (roll_header j (pp_seq p))"
      using bslice_put_at_same [of 0 "header_blocks C (roll_header j (pp_seq p))" base] by (simp add: length_header_blocks geometry_defs)
    then show ?thesis unfolding b(2) by (simp add: headed_def fresh_segment_def roll_header_def)
  qed (use h in simp)
  have "outside p 0 (2 * BLOCK)" using x(2,3) by (simp add: outside_def PERSIST_START_def)
  then have "headed C (jn_id j) (advance p s)" using s write_batch_outside [OF x(1)] by (simp add: headed_def advance_def)
  moreover have "\<forall>t \<in> set ss. headed C (jn_id j) t" using h r by (auto simp: rolled_def)
  ultimately show ?thesis by simp
qed

lemma settled_next:
  assumes "settled_meta C j" "\<forall>n. m = Some n \<longrightarrow> meta_fits n" "m = next_meta b j" "file_ok (jn_meta_file j)"
  shows "settled C (case m of None \<Rightarrow> jn_meta_file j | Some n \<Rightarrow> meta_update C n (jn_meta_file j)) (case m of None \<Rightarrow> jn_meta j | Some n \<Rightarrow> n)"
  using assms update_settles by (auto simp: settled_meta_def split: option.splits)

lemma rolled_held:
  assumes r: "rolled C p j ss s" and grow: "sg_entry_next s \<le> sg_entry_next (advance p s)" and h: "entry_held g (jn_segments j) at"
  shows "entry_held g (ss @ [advance p s]) at"
proof -
  obtain t where t: "seg_at (jn_segments j) (lo_segment at) = Some t" using h by (auto simp: entry_held_def split: option.splits)
  have adv: "sg_first_batch (advance p s) = sg_first_batch s" by (simp add: advance_def)
  have "jn_segments j = ss @ [s] \<or> jn_segments j = ss" using r by (auto simp: rolled_def)
  then have "seg_at (ss @ [advance p s]) (lo_segment at) = Some t \<or> t = s \<and> seg_at (ss @ [advance p s]) (lo_segment at) = Some (advance p s)"
    using t adv by (auto simp: seg_at_append split: option.splits if_splits)
  then show ?thesis using h t grow by (auto simp: entry_held_def)
qed

lemma held_written:
  assumes w: "wrote C b m j ss s p prs j1" and c: "journal_core j" and l: "\<forall>t \<in> set (jn_segments j). sg_first_batch t < pp_seq p"
    and ops: "\<forall>op \<in> set ops. case op of JPut q at \<Rightarrow> entry_held (jn_geometry j) (jn_segments j) at | JClear a z \<Rightarrow> a \<le> z"
    and b: "batch_ok b" and op: "op \<in> set ops \<or> op \<in> set (batch_ops_of s p b)"
  shows "case op of JPut q at \<Rightarrow> entry_held (jn_geometry j1) (jn_segments j1) at | JClear a z \<Rightarrow> a \<le> z"
proof (cases op)
  case (JClear a z)
  then consider "JClear a z \<in> set ops" | "JClear a z \<in> set (batch_ops_of s p b)" using op by blast
  then have "a \<le> z"
  proof cases
    case 1
    then show ?thesis using ops by fastforce
  next
    case 2
    then show ?thesis using commit_ops_clears [of "bt_writes b" a z] b by (auto simp: batch_ops_of_def batch_ok_def intro: less_imp_le)
  qed
  then show ?thesis using JClear by simp
next
  case (JPut q at)
  let ?g = "jn_geometry j" and ?ss = "ss @ [advance p s]"
  note wd = wroteD [OF w] and bw = batch_writtenD [OF wroteD(2) [OF w]]
  note prs = batch_written_prs [OF wd(2)] and sa = wrote_seg_at(1) [OF w c l] and so = rolled_sound(1) [OF wd(1) c]
  consider "JPut q at \<in> set ops" | "JPut q at \<in> set (batch_ops_of s p b)" using op JPut by blast
  then have "entry_held ?g ?ss at"
  proof cases
    case 1
    then have "entry_held ?g (jn_segments j) at" using bspec [OF ops 1] by simp
    moreover have "sg_entry_next s \<le> sg_entry_next (advance p s)" using bw(2) by (simp add: advance_def)
    ultimately show ?thesis using rolled_held [OF wd(1)] by blast
  next
    case 2
    then have "lo_segment at = sg_first_batch s" "sg_entry_next s \<le> unat (lo_offset at)"
      "unat (lo_offset at) + entry_bytes at \<le> sg_entry_next s + extent prs"
      using commit_ops_puts [OF prs(1,3)] by (simp_all add: batch_ops_of_def bw(6))
    then show ?thesis using sa prs(5) so by (simp add: entry_held_def segment_sound_def)
  qed
  moreover have "map_option stored (seg_at (jn_segments j1) (lo_segment at)) = map_option stored (seg_at ?ss (lo_segment at))"
    using wd(3) seg_at_stored by metis
  ultimately have "entry_held ?g (jn_segments j1) at" using entry_held_stored by blast
  then show ?thesis using JPut wd(10) by simp
qed

lemma wrote_resting:
  assumes w: "wrote C b (next_meta b j) j ss s p prs j1" and ok: "journal_ok j" and r: "resting C j" and b: "batch_ok b"
    and nl: "numbers_left j" and so: "spare_old C j" and mf: "\<forall>n. next_meta b j = Some n \<longrightarrow> meta_fits n"
  shows "resting C j1"
proof -
  have c: "journal_core j" and older: "\<forall>t \<in> set (jn_segments j). sg_first_batch t \<le> jn_last_batch j" using ok by (simp_all add: journal_ok_def)
  have sm: "settled_meta C j" and hd: "\<forall>t \<in> set (jn_segments j). headed C (jn_id j) t" using r by (simp_all add: resting_def)
  obtain pre where l: "logged C j pre" using r by (auto simp: resting_def)
  note wd = wroteD [OF w] and bw = batch_writtenD [OF wroteD(2) [OF w]]
  have lt: "jn_last_batch j < pp_seq p" using nl bw(3) by (simp add: numbers_left_def)
  have lts: "\<forall>t \<in> set (jn_segments j). sg_first_batch t < pp_seq p" using older lt by (meson order_le_less_trans)
  have first: "sg_first_batch s \<le> pp_seq p" using wd(1) lts by (auto simp: rolled_def fresh_segment_def intro: less_imp_le)
  obtain pre0 prev bs where bf: "before C j ss s pre0 prev bs" and co: "closed_ops pre = closed_ops pre0 @ log_ops s 0 bs"
    and sub: "\<forall>b \<in> set bs \<union> \<Union> ((set \<circ> snd) ` set pre0). b \<in> \<Union> ((set \<circ> snd) ` set pre)"
    using rolled_before [OF wd(1) l c so bw(3)] by blast
  define pre1 where "pre1 = pre0 @ [(stored (advance p s), bs @ [prs])]"
  note ch = wrote_chain [OF w c bf lt first, folded pre1_def]
  have ops1: "closed_ops pre1 = closed_ops pre @ batch_ops_of s p b" using ch(3) co by simp
  have gen: "unat (jn_generation j) < 2 ^ 24" using sm by (simp add: settled_meta_def)
  have floor: "mt_floor (jn_meta j) \<le> mt_floor (jn_meta j1)" "mt_open_last (jn_meta j1) = mt_open_last (jn_meta j)"
    unfolding wd(5) using next_meta_keeps by (auto split: option.split)
  have idx: "om_get (jn_index j1) q = map_ops (closed_ops pre1) Map.empty q" if "mt_floor (jn_meta j1) \<le> q" for q
  proof -
    have same: "om_get (jn_index j) q = map_ops (closed_ops pre) Map.empty q" using loggedD(4) [OF l] floor(1) that by (meson order_trans)
    from map_ops_either [of "batch_ops_of s p b" q] show ?thesis
    proof
      assume a: "\<forall>m. map_ops (batch_ops_of s p b) m q = map_ops (batch_ops_of s p b) Map.empty q"
      show ?thesis unfolding wd(4) ops1 map_ops_simps using spec [OF a, of "om_get (jn_index j)"] spec [OF a, of "map_ops (closed_ops pre) Map.empty"] by simp
    next
      assume "\<forall>m. map_ops (batch_ops_of s p b) m q = m q"
      then show ?thesis unfolding wd(4) ops1 map_ops_simps using same by simp
    qed
  qed
  have nums: "\<forall>(t, xs) \<in> set pre1. \<forall>x \<in> set xs. seq_of x \<le> jn_last_batch j1
       \<and> (seq_of x \<le> mt_open_last (jn_meta j1) \<or> ucast (jn_generation j1) \<le> generation_of (seq_of x))"
  proof -
    have new: "seq_of prs \<le> pp_seq p" "ucast (jn_generation j) \<le> generation_of (seq_of prs)"
      using ch(4) next_seq_generation [OF gen] lt bw(3) by simp_all
    have old: "seq_of x \<le> pp_seq p \<and> (seq_of x \<le> mt_open_last (jn_meta j) \<or> ucast (jn_generation j) \<le> generation_of (seq_of x))"
      if "x \<in> set bs \<union> \<Union> ((set \<circ> snd) ` set pre0)" for x
    proof -
      have "x \<in> \<Union> ((set \<circ> snd) ` set pre)" using sub that by blast
      then obtain y where y: "y \<in> set pre" "x \<in> set (snd y)" by auto
      have "seq_of x \<le> jn_last_batch j \<and> (seq_of x \<le> mt_open_last (jn_meta j) \<or> ucast (jn_generation j) \<le> generation_of (seq_of x))"
        using bspec [OF loggedD(5) [OF l] y(1)] y(2) unfolding split_beta by blast
      then show ?thesis using lt by auto
    qed
    have pre0: "x \<in> set bs \<union> \<Union> ((set \<circ> snd) ` set pre0)" if "(t, xs) \<in> set pre0" "x \<in> set xs" for t xs x
      using that by (auto intro: bexI [of _ "(t, xs)"])
    show ?thesis unfolding wd(7,11) floor(2) pre1_def using old [OF pre0] old new by auto
  qed
  have "logged C j1 pre1"
    unfolding logged_def
  proof (intro conjI ballI)
    fix op assume "op \<in> set (closed_ops pre1)"
    then have "op \<in> set (closed_ops pre) \<or> op \<in> set (batch_ops_of s p b)" unfolding ops1 by simp
    then show "case op of JPut q at \<Rightarrow> entry_held (jn_geometry j1) (jn_segments j1) at | JClear a z \<Rightarrow> a \<le> z"
      by (rule held_written [OF w c lts loggedD(3) [OF l] b])
  next
    show "pre1 = [] \<longrightarrow> jn_last_batch j1 = 0" by (simp add: pre1_def)
  qed (use ch(1,2) idx nums in blast)+
  moreover have "settled_meta C j1"
  proof -
    have set: "settled C (jn_meta_file j1) (jn_meta j1)" unfolding wd(5,6) using settled_next [OF sm mf refl] c by (simp add: journal_core_def)
    have m: "mt_journal (jn_meta j1) = mt_journal (jn_meta j)" "mt_geometry (jn_meta j1) = mt_geometry (jn_meta j)"
      "mt_open_generation (jn_meta j1) = mt_open_generation (jn_meta j)" "mt_last_batch (jn_meta j1) \<le> pp_seq p"
      unfolding wd(5) using next_meta_keeps sm lt by (auto simp: settled_meta_def split: option.split)
    show ?thesis using sm set m unfolding settled_meta_def wd(7-11) by simp
  qed
  moreover have "PERSIST_START \<le> sg_persist_next s" using bf by (simp add: before_def at_rest_def)
  then have "\<forall>t \<in> set (map stored (jn_segments j1)). headed C (jn_id j) t"
    unfolding wd(3) using rolled_headed [OF wd(1) c hd bw(4,1)] headed_stored by auto
  then have "\<forall>t \<in> set (jn_segments j1). headed C (jn_id j1) t" using headed_stored wd(9) by simp
  ultimately show ?thesis by (auto simp: resting_def)
qed

end
