(* ===== verification/Journal_Durable.thy ===== *)
theory Journal_Durable
  imports Journal_Resting
begin

text \<open>
  A commit leaves the files of a journal at rest, and the steps of an opening on files at rest: with a provider
  that does not fail each of them succeeds and finds what was written.
\<close>

section \<open>A commit leaves the files at rest\<close>

lemma meta_resting:
  assumes r: "resting C j" and c: "journal_core j" and n: "next_meta b j = Some n" "meta_fits n"
  defines "j1 \<equiv> j\<lparr>jn_meta_file := meta_update C n (jn_meta_file j), jn_meta := n\<rparr>"
  shows "resting C j1"
proof -
  obtain pre where l: "logged C j pre" using r by (auto simp: resting_def)
  note k = next_meta_keeps [OF n(1)]
  have "settled C (meta_update C n (jn_meta_file j)) n" using c n(2) by (intro update_settles) (simp_all add: journal_core_def)
  then have "settled_meta C j1" using r k by (simp add: resting_def settled_meta_def j1_def)
  moreover have "logged C j1 pre"
  proof -
    have j1: "jn_segments j1 = jn_segments j" "jn_tag j1 = jn_tag j" "jn_last_batch j1 = jn_last_batch j" "jn_geometry j1 = jn_geometry j"
      "jn_index j1 = jn_index j" "jn_generation j1 = jn_generation j" "mt_open_last (jn_meta j1) = mt_open_last (jn_meta j)"
      "mt_floor (jn_meta j) \<le> mt_floor (jn_meta j1)"
      using k by (simp_all add: j1_def)
    have "\<forall>p \<ge> mt_floor (jn_meta j1). om_get (jn_index j) p = map_ops (closed_ops pre) Map.empty p"
      using loggedD(4) [OF l] j1(8) by (meson order_trans)
    then show ?thesis unfolding logged_def j1(1-7) using loggedD(1-3,5,6) [OF l] by blast
  qed
  ultimately show ?thesis using r by (auto simp: resting_def j1_def)
qed

lemma commit_clean:
  assumes cl: "clean C j" and b: "batch_ok b" and nl: "bt_writes b = [] \<or> numbers_left j \<and> spare_old C j"
    and cm: "commit C b j io = (Inr (), j', io')"
  shows "clean C j' \<and> abs_of C j' = abs_commit b (abs_of C j)"
proof -
  have ok: "journal_ok j" and c: "journal_core j" and np: "\<not> jn_poisoned j" and r: "resting C j" and mf: "meta_fits (jn_meta j)"
    and older: "\<forall>t \<in> set (jn_segments j). sg_first_batch t \<le> jn_last_batch j"
    using cl by (simp_all add: clean_def journal_ok_def)
  have nl': "bt_writes b = [] \<or> numbers_left j" using nl by blast
  have nr: "commit_refused b j = None" using cm by (cases "commit_refused b j") (simp_all add: commit_def)
  have nf: "\<forall>n. next_meta b j = Some n \<longrightarrow> meta_fits n" using next_meta_fits [OF nr mf] by blast
  note eff = effect_abs [OF commit_Inr(1) [OF cm ok b nl']]
  have "resting C j'"
  proof (cases "bt_writes b = [] \<and> next_meta b j = None \<and> j' = j")
    case False
    then obtain j1 where j1: "landed C b j j1" "trimmed j1 j'" using commit_landed [OF cm ok b nl'] by blast
    have "resting C j1 \<and> journal_core j1"
    proof (cases "bt_writes b = []")
      case True
      then obtain n where n: "next_meta b j = Some n" "j1 = j\<lparr>jn_meta_file := meta_update C n (jn_meta_file j), jn_meta := n\<rparr>"
        using j1(1) by (auto simp: landed_def)
      have fo: "file_ok (meta_update C n (jn_meta_file j))" using update_settles [of "jn_meta_file j" n C] c nf n(1) by (simp add: settled_def journal_core_def)
      then have "journal_core j1" using c unfolding n(2) by (simp add: journal_core_def index_ok_def firsts_def cong: option.case_cong)
      then show ?thesis using meta_resting [OF r c n(1)] nf n by simp
    next
      case False
      then obtain ss s p prs where w: "wrote C b (next_meta b j) j ss s p prs j1" using j1(1) by (auto simp: landed_def)
      have num: "numbers_left j" "spare_old C j" using nl False by simp_all
      have "pp_seq p = next_seq (jn_generation j) (jn_last_batch j)" using batch_writtenD(3) [OF wroteD(2) [OF w]] .
      then have "\<forall>t \<in> set (jn_segments j). sg_first_batch t < pp_seq p"
        using older num(1) unfolding numbers_left_def by (metis order_le_less_trans)
      then show ?thesis using wrote_resting [OF w ok r b num nf] wrote_core [OF w c nf] by blast
    qed
    then show ?thesis using trimmed_resting [OF j1(2)] by blast
  qed (use r in simp)
  then show ?thesis using eff np by (simp add: clean_def)
qed

section \<open>Steps that cannot fail\<close>

text \<open>
  \<open>runs m fs Q\<close>: from the files \<open>fs\<close>, with a provider that does not fail, \<open>m\<close> succeeds with a result and files
  that \<open>Q\<close> holds of.
\<close>

definition runs :: "'a ostep \<Rightarrow> (string \<times> bytes) list \<Rightarrow> ('a \<Rightarrow> (string \<times> bytes) list \<Rightarrow> bool) \<Rightarrow> bool" where
  "runs m fs Q =
     (\<forall>w. wd_files w = fs \<longrightarrow> quiet (wd_io w) \<longrightarrow> wd_exists w \<longrightarrow>
        (\<exists>x w'. m w = (Inr x, w') \<and> quiet (wd_io w') \<and> wd_exists w' \<and> Q x (wd_files w')))"

named_theorems runs_intro

lemma runsD: "runs m (wd_files w) Q \<Longrightarrow> quiet (wd_io w) \<Longrightarrow> wd_exists w \<Longrightarrow> \<exists>x w'. m w = (Inr x, w') \<and> quiet (wd_io w') \<and> wd_exists w' \<and> Q x (wd_files w')"
  by (simp add: runs_def)

lemma runs_mono: "runs m fs Q \<Longrightarrow> (\<And>x fs. Q x fs \<Longrightarrow> R x fs) \<Longrightarrow> runs m fs R"
proof -
  assume r: "runs m fs Q" and imp: "\<And>x fs. Q x fs \<Longrightarrow> R x fs"
  show ?thesis unfolding runs_def
  proof (intro allI impI)
    fix w :: world assume w: "wd_files w = fs" "quiet (wd_io w)" "wd_exists w"
    then obtain x w' where "m w = (Inr x, w')" "quiet (wd_io w')" "wd_exists w'" "Q x (wd_files w')" using r by (auto simp: runs_def)
    then show "\<exists>x w'. m w = (Inr x, w') \<and> quiet (wd_io w') \<and> wd_exists w' \<and> R x (wd_files w')" using imp by blast
  qed
qed

lemma runs_oret [runs_intro]: "Q x fs \<Longrightarrow> runs (oret x) fs Q"
  by (auto simp: runs_def oret_def)

lemma runs_olift [runs_intro]: "r = Inr x \<Longrightarrow> Q x fs \<Longrightarrow> runs (olift r) fs Q"
  by (auto simp: runs_def olift_def)

lemma runs_obind [runs_intro]: "runs m fs (\<lambda>x fs'. runs (f x) fs' Q) \<Longrightarrow> runs (obind m f) fs Q"
  unfolding runs_def obind_def by (fastforce split: prod.splits sum.splits)

lemma runs_provider [runs_intro]: "Q () fs \<Longrightarrow> runs (provider n) fs Q"
  unfolding runs_def
proof (intro allI impI)
  fix w :: world assume q: "Q () fs" and w: "wd_files w = fs" "quiet (wd_io w)" "wd_exists w"
  obtain io' where "calls n (wd_io w) = (True, io')" "quiet io'" using quiet_calls [OF w(2)] by blast
  then show "\<exists>x w'. provider n w = (Inr x, w') \<and> quiet (wd_io w') \<and> wd_exists w' \<and> Q x (wd_files w')" using q w by (simp add: provider_def)
qed

lemma runs_file_of [runs_intro]: "Q (map_of fs name) fs \<Longrightarrow> runs (file_of name) fs Q"
  by (auto simp: runs_def file_of_def)

lemma runs_exists [runs_intro]: "Q (map_of fs name \<noteq> None) fs \<Longrightarrow> runs (file_exists name) fs Q"
  unfolding file_exists_def by (intro runs_intro)

lemma runs_state: "(\<And>w. wd_files w = fs \<Longrightarrow> wd_exists w \<Longrightarrow> \<exists>x w'. m w = (Inr x, w') \<and> wd_io w' = wd_io w \<and> wd_exists w' \<and> Q x (wd_files w')) \<Longrightarrow> runs m fs Q"
  unfolding runs_def by metis

lemma runs_delete [runs_intro]: "Q () (AList.delete name fs) \<Longrightarrow> runs (file_delete name) fs Q"
  unfolding file_delete_def by (intro runs_intro runs_state) auto

lemma runs_write [runs_intro]:
  assumes "map_of fs name = Some img" "Q () (AList.update name (put_at at data img) fs)"
  shows "runs (file_write name at data) fs Q"
  unfolding runs_def
proof (intro allI impI)
  fix w :: world assume w: "wd_files w = fs" "quiet (wd_io w)" "wd_exists w"
  obtain x io' where n: "next_io (wd_io w) = (x, io')" by (cases "next_io (wd_io w)")
  have "write_call at data img (wd_io w) = (True, put_at at data img, io')" "quiet io'"
    using quiet_next [OF w(2) n] n by (cases x; simp add: write_call_def)+
  then show "\<exists>x w'. file_write name at data w = (Inr x, w') \<and> quiet (wd_io w') \<and> wd_exists w' \<and> Q x (wd_files w')"
    using assms w by (simp add: file_write_def)
qed

lemma runs_open_sized [runs_intro]: "map_of fs name = Some img \<Longrightarrow> Q img fs \<Longrightarrow> runs (open_sized name) fs Q"
  unfolding open_sized_def by (intro runs_intro) (simp add: runs_intro)

lemma runs_if [runs_intro]: "(b \<Longrightarrow> runs m fs Q) \<Longrightarrow> (\<not> b \<Longrightarrow> runs m' fs Q) \<Longrightarrow> runs (if b then m else m') fs Q"
  by simp

section \<open>Opening the files of a journal at rest\<close>

text \<open>The directory holds the files of \<open>j\<close> under their names, with any spares and other files beside them.\<close>

definition in_dir :: "journal \<Rightarrow> (string \<times> bytes) list \<Rightarrow> bool" where
  "in_dir j fs =
     (distinct (map fst fs) \<and> map_of fs META_NAME = Some (jn_meta_file j)
      \<and> (\<forall>n. map_of fs (segment_name n) = map_option sg_image (seg_at (jn_segments j) n)))"

lemma meta_name:
  "META_NAME \<noteq> META_TMP" "segment_name n \<noteq> META_NAME" "segment_name n \<noteq> META_TMP" "\<not> is_spare META_NAME" "\<not> is_segment_leftover META_NAME"
  by (simp_all add: META_NAME_def META_TMP_def segment_name_def is_spare_def strip_prefix_def leftover_iff del: padded.simps)

lemma in_dir_delete:
  assumes d: "in_dir j fs" and n: "name = META_TMP \<or> is_spare name \<or> is_segment_leftover name"
  shows "in_dir j (AList.delete name fs)"
proof -
  have seg: "name \<noteq> segment_name n" for n
    using n meta_name(3) [of n] spare_not_segment [of "segment_name n"] leftover_not_segment leftover_iff parse_segment_name
    by (metis option.distinct(1))
  have "name \<noteq> META_NAME" using n meta_name(1,4,5) by metis
  then show ?thesis using d seg by (auto simp: in_dir_def AList.delete_conv distinct_delete)
qed

lemma runs_with_files:
  "runs (F fs) fs Q \<Longrightarrow> runs (\<lambda>w. if \<not> wd_exists w then G w else F (wd_files w) w) fs Q"
  by (simp add: runs_def)

text \<open>The files other than the leftovers are those listed.\<close>

lemma runs_list_dir:
  assumes d: "in_dir j fs"
  shows "runs (list_dir dir) fs (\<lambda>r fs'. r = Some (list_segments (map fst fs)) \<and> in_dir j fs'
    \<and> (\<forall>name. is_spare name \<longrightarrow> map_of fs' name = map_of fs name))"
proof -
  let ?P = "\<lambda>fs'. in_dir j fs' \<and> (\<forall>name. is_spare name \<longrightarrow> map_of fs' name = map_of fs name)"
  have del: "runs (delete_all names) fs1 (\<lambda>_. ?P)" if "?P fs1" "\<forall>name \<in> set names. is_segment_leftover name" for names fs1
    using that
  proof (induction names arbitrary: fs1)
    case (Cons name names)
    have "\<not> is_spare name" using Cons.prems(2) spare_not_segment [of name] by auto
    then have "?P (AList.delete name fs1)" using Cons.prems in_dir_delete [of j fs1 name] by (auto simp: AList.delete_conv)
    then have "runs (delete_all names) (AList.delete name fs1) (\<lambda>_. ?P)" using Cons by simp
    then show ?case by (auto intro!: runs_intro)
  qed (auto intro: runs_intro)
  have left: "runs remove_leftover fs (\<lambda>_. ?P)"
  proof -
    have "\<not> is_spare META_TMP" by (simp add: META_TMP_def is_spare_def strip_prefix_def)
    then show ?thesis unfolding remove_leftover_def using d by (intro runs_intro) (auto simp: AList.delete_conv intro: in_dir_delete)
  qed
  have ls: "\<forall>name \<in> set (ls_deleted (list_segments (map fst fs))). is_segment_leftover name"
    using list_segments_spec [of "map fst fs"] d by (simp add: in_dir_def)
  show ?thesis unfolding list_dir_def Let_def sync_names_def
    apply (intro runs_obind runs_provider runs_with_files [where F = "\<lambda>fs. obind (provider (length (ancestors_of dir) + 1)) (\<lambda>_. obind remove_leftover (\<lambda>_.
         obind (delete_all (ls_deleted (list_segments (map fst fs)))) (\<lambda>_. oret (Some (list_segments (map fst fs))))))"])
    apply (rule runs_mono [OF left])
    apply (rule runs_obind)
    apply (rule runs_mono [OF del [OF _ ls]])
     apply blast
    apply (rule runs_oret)
    apply simp
    done
qed

lemma runs_meta_open:
  assumes d: "in_dir j fs" and s: "settled_meta C j"
  shows "runs (meta_open_io C (jn_id j)) fs (\<lambda>r fs'. r = Some (jn_meta j, False) \<and> fs' = fs)"
proof -
  have "meta_choose C (jn_id j) (jn_meta_file j) = Inr (jn_meta j, None)" and len: "length (jn_meta_file j) div BLOCK = META_FILE_BLOCKS"
    using s choose_settled [of C "jn_meta_file j" "jn_meta j"] by (simp_all add: settled_meta_def settled_def file_ok_def BLOCK_def)
  then show ?thesis using d unfolding meta_open_io_def in_dir_def
    by (intro runs_intro) (auto intro!: runs_intro)
qed

text \<open>Whatever spares there are, at most a whole one is kept, and nothing else is touched.\<close>

definition kept_ok :: "geometry \<Rightarrow> string option \<Rightarrow> (string \<times> bytes) list \<Rightarrow> bool" where
  "kept_ok g kept fs =
     (case kept of None \<Rightarrow> True
      | Some name \<Rightarrow> is_spare name \<and> (\<exists>img. map_of fs name = Some img \<and> length img = total_blocks g * BLOCK))"

lemma runs_keep_spares:
  assumes "in_dir j fs" "kept_ok g kept fs" "distinct names" "\<forall>name \<in> set names. is_spare name \<and> map_of fs name \<noteq> None \<and> kept \<noteq> Some name"
  shows "runs (keep_spares C journal g listed names kept removed) fs (\<lambda>(kept', _) fs'. in_dir j fs' \<and> kept_ok g kept' fs')"
  using assms
proof (induction names arbitrary: fs kept removed)
  case (Cons name names)
  obtain img where img: "map_of fs name = Some img" using Cons.prems(4) by auto
  have keep: "runs (keep_spares C journal g listed names (Some name) removed) fs (\<lambda>(kept', _) fs'. in_dir j fs' \<and> kept_ok g kept' fs')"
    if "length img = total_blocks g * BLOCK"
    using Cons.prems img that by (intro Cons.IH) (auto simp: kept_ok_def)
  have drop: "runs (obind (file_delete name) (\<lambda>_. keep_spares C journal g listed names kept (Suc removed))) fs (\<lambda>(kept', _) fs'. in_dir j fs' \<and> kept_ok g kept' fs')"
  proof (intro runs_obind runs_delete Cons.IH)
    show "in_dir j (AList.delete name fs)" using Cons.prems in_dir_delete [of j fs name] by simp
    show "kept_ok g kept (AList.delete name fs)" using Cons.prems by (auto simp: kept_ok_def AList.delete_conv split: option.splits)
    show "\<forall>x \<in> set names. is_spare x \<and> map_of (AList.delete name fs) x \<noteq> None \<and> kept \<noteq> Some x"
      using Cons.prems by (auto simp: AList.delete_conv)
  qed (use Cons.prems in simp)
  show ?case unfolding keep_spares.simps
  proof (cases "kept = None \<and> length img = total_blocks g * BLOCK")
    case True
    then show "runs (obind (if kept \<noteq> None then oret False else obind (open_sized name) (\<lambda>img. oret (length img = total_blocks g * BLOCK))) (\<lambda>whole.
     obind (if \<not> whole then oret False
            else obind (provider 2) (\<lambda>_. obind (file_of name) (\<lambda>file.
              oret (\<exists>b \<in> set (named_batches C journal (the file)). b \<in> set (map fst listed))))) (\<lambda>aliased.
     if whole \<and> \<not> aliased then keep_spares C journal g listed names (Some name) removed
     else obind (file_delete name) (\<lambda>_. keep_spares C journal g listed names kept (Suc removed))))) fs (\<lambda>(kept', _) fs'. in_dir j fs' \<and> kept_ok g kept' fs')"
      using img keep drop by (intro runs_obind) (auto intro!: runs_intro)
  next
    case False
    then show "runs (obind (if kept \<noteq> None then oret False else obind (open_sized name) (\<lambda>img. oret (length img = total_blocks g * BLOCK))) (\<lambda>whole.
     obind (if \<not> whole then oret False
            else obind (provider 2) (\<lambda>_. obind (file_of name) (\<lambda>file.
              oret (\<exists>b \<in> set (named_batches C journal (the file)). b \<in> set (map fst listed))))) (\<lambda>aliased.
     if whole \<and> \<not> aliased then keep_spares C journal g listed names (Some name) removed
     else obind (file_delete name) (\<lambda>_. keep_spares C journal g listed names kept (Suc removed))))) fs (\<lambda>(kept', _) fs'. in_dir j fs' \<and> kept_ok g kept' fs')"
      using img drop by (intro runs_obind runs_if) (auto intro!: runs_oret runs_obind runs_open_sized)
  qed
qed (auto intro: runs_intro)

lemma runs_keep_one_spare:
  assumes "in_dir j fs" "distinct spares" "\<forall>name \<in> set spares. is_spare name \<and> map_of fs name \<noteq> None"
  shows "runs (keep_one_spare C journal g listed spares) fs (\<lambda>(kept, _) fs'. in_dir j fs' \<and> kept_ok g kept fs')"
proof -
  have "runs (keep_spares C journal g listed spares None 0) fs (\<lambda>(kept', _) fs'. in_dir j fs' \<and> kept_ok g kept' fs')"
    using assms by (intro runs_keep_spares) (simp_all add: kept_ok_def)
  then show ?thesis unfolding keep_one_spare_def
    by (intro runs_obind, elim runs_mono) (auto intro!: runs_intro)
qed

lemma headed_choose:
  assumes "headed C i s" "length (sg_image s) = total_blocks (sg_geometry s) * BLOCK"
  shows "header_choose C (sg_image s) =
    Inr (\<lparr>sh_journal = i, sh_first_batch = sg_first_batch s, sh_prev_batch = sg_prev_batch s, sh_geometry = sg_geometry s\<rparr>, None)"
proof -
  let ?h = "\<lparr>sh_journal = i, sh_first_batch = sg_first_batch s, sh_prev_batch = sg_prev_batch s, sh_geometry = sg_geometry s\<rparr>"
  have len: "length (segment_header_encode C ?h) = BLOCK" using length_header_blocks [of C ?h] by (simp add: header_blocks_def)
  have "bslice 0 BLOCK (bslice 0 (2 * BLOCK) (sg_image s)) = segment_header_encode C ?h"
    "bslice BLOCK BLOCK (bslice 0 (2 * BLOCK) (sg_image s)) = segment_header_encode C ?h"
    using assms(1) len unfolding headed_def by (simp_all add: header_blocks_def bslice_def)
  then have "bslice 0 BLOCK (sg_image s) = segment_header_encode C ?h" "bslice BLOCK BLOCK (sg_image s) = segment_header_encode C ?h"
    by (simp_all add: bslice_slice)
  then show ?thesis by (simp add: header_choose_def segment_header_round_trip)
qed

lemma runs_open_segments:
  assumes "\<forall>s \<in> set ss. headed C i s \<and> segment_sound g s \<and> map_of fs (segment_name (sg_first_batch s)) = Some (sg_image s)"
  shows "runs (open_segments C i g (map (\<lambda>s. (sg_first_batch s, segment_name (sg_first_batch s))) ss)) fs (\<lambda>(ss', n) fs'. ss' = map disk ss \<and> n = 0 \<and> fs' = fs)"
  using assms
proof (induction ss)
  case (Cons s ss)
  have s: "headed C i s" "segment_sound g s" "map_of fs (segment_name (sg_first_batch s)) = Some (sg_image s)" using Cons.prems by simp_all
  then have g: "sg_geometry s = g" "length (sg_image s) = total_blocks g * BLOCK" "length (sg_image s) div BLOCK = total_blocks g"
    by (simp_all add: segment_sound_def BLOCK_def)
  have "runs (segment_open C i g (segment_name (sg_first_batch s)) (sg_first_batch s)) fs (\<lambda>(s', r) fs'. s' = disk s \<and> \<not> r \<and> fs' = fs)"
    unfolding segment_open_def using s g headed_choose [OF s(1)]
    by (intro runs_obind runs_open_sized [OF s(3)]) (auto simp: disk_def intro!: runs_intro)
  then show ?case using Cons by (auto intro!: runs_intro elim!: runs_mono)
qed (auto intro: runs_intro)

lemma runs_begin_generation:
  fixes m :: meta and l :: u64
  assumes d: "in_dir j fs" and g: "unat (mt_open_generation m) + 1 < 2 ^ 32"
  defines "m' \<equiv> m\<lparr>mt_seq := mt_seq m + 1, mt_last_batch := l, mt_open_generation := mt_open_generation m + 1, mt_open_last := l\<rparr>"
  shows "runs (begin_generation C m l) fs (\<lambda>r fs'. r = m' \<and> in_dir (j\<lparr>jn_meta_file := meta_update C m' (jn_meta_file j)\<rparr>) fs'
    \<and> (\<forall>name. is_spare name \<longrightarrow> map_of fs' name = map_of fs name))"
proof -
  have c: "checked_add (mt_open_generation m) 1 = Some (mt_open_generation m + 1)" using g by (simp add: checked_add_def)
  show ?thesis unfolding begin_generation_def c
    using d meta_name(2,4) by (auto simp: Let_def m'_def in_dir_def update_conv' distinct_update meta_update_def meta_write_def intro!: runs_intro)
qed

end
