(* ===== verification/Journal_Life.thy ===== *)
theory Journal_Life
  imports Journal_Durable
begin

text \<open>
  Opening the files of a journal at rest gives the journal back, and with \<open>create\<close> and \<open>commit\<close> the contract of a
  journal over its whole life.
\<close>

section \<open>The scan of a journal at rest\<close>

definition stale_of :: "meta \<Rightarrow> stale" where
  "stale_of m = \<lparr>st_generation = mt_open_generation m, st_last = mt_open_last m\<rparr>"

lemma scan_resting:
  assumes s: "settled_meta C j" and l: "logged C j pre"
  shows "\<exists>out. scan C (jn_tag j) (stale_of (jn_meta j)) (map disk (jn_segments j)) = Inr out \<and> sc_ops out = closed_ops pre \<and>
    sc_last_batch out = jn_last_batch j \<and> sc_corrupt out = [] \<and> sc_ambiguous out = [] \<and> sc_voided out = 0 \<and> sc_rebuilt out = 0 \<and>
    sc_rewrite out = None \<and> set_cursors (map disk (jn_segments j)) (sc_cursors out) = map stored (jn_segments j)"
proof -
  obtain first where ch: "chain C (jn_tag j) first pre" "closed_last first pre = jn_last_batch j" using loggedD(6) [OF l] by blast
  have pre: "map fst pre = map stored (jn_segments j)" by (rule loggedD(1) [OF l])
  have ds: "map fst (map (apfst disk) pre) = map disk (jn_segments j)"
  proof -
    have "map fst (map (apfst disk) pre) = map disk (map fst pre)" by simp
    also have "\<dots> = map disk (jn_segments j)" unfolding pre by simp
    finally show ?thesis .
  qed
  have ns: "\<forall>(s, bs) \<in> set pre. \<forall>b \<in> set bs. \<not> is_stale (stale_of (jn_meta j)) (seq_of b)"
    using loggedD(5) [OF l] s by (fastforce simp: is_stale_def stale_of_def settled_meta_def not_less [symmetric])
  have ok: "closed_ok C (jn_tag j) (stale_of (jn_meta j)) first (map (apfst disk) pre)"
    using closed_any_stale [OF chain_closed [OF ch(1)] ns] disk_closed(1) by simp
  show ?thesis
  proof (cases "pre = []")
    case True
    then show ?thesis using pre loggedD(2) [OF l] by (simp add: scan_def scan_empty_def)
  next
    case False
    then obtain out where out: "scan C (jn_tag j) (stale_of (jn_meta j)) (map disk (jn_segments j)) = Inr out" "sc_ops out = closed_ops pre"
      "sc_last_batch out = jn_last_batch j" "sc_corrupt out = []" "sc_ambiguous out = []" "sc_voided out = 0" "sc_rebuilt out = 0" "sc_rewrite out = None"
      "sc_cursors out = map (snd \<circ> closed_scan) pre"
      using scan_at_rest [OF ok] ch(2) unfolding ds disk_closed by auto
    have "map (disk \<circ> fst) pre = map disk (map fst pre)" "map (stored \<circ> fst) pre = map stored (map fst pre)" by simp_all
    moreover have "map disk (map stored (jn_segments j)) = map disk (jn_segments j)" "map stored (map stored (jn_segments j)) = map stored (jn_segments j)"
      by simp_all (simp add: stored_def)
    ultimately have "set_cursors (map disk (jn_segments j)) (sc_cursors out) = map stored (jn_segments j)"
      using chain_cursors [OF ch(1)] unfolding out(9) pre by (simp only:)
    then show ?thesis using out by blast
  qed
qed

section \<open>The journal built from it\<close>

definition open_meta :: "journal \<Rightarrow> meta" where
  "open_meta j = (jn_meta j)\<lparr>mt_seq := mt_seq (jn_meta j) + 1, mt_last_batch := jn_last_batch j,
     mt_open_generation := mt_open_generation (jn_meta j) + 1, mt_open_last := jn_last_batch j\<rparr>"

definition opened :: "crc_lib \<Rightarrow> durability \<Rightarrow> (string \<times> bytes) option \<Rightarrow> journal \<Rightarrow> journal" where
  "opened C d spare j =
     \<lparr>jn_id = jn_id j, jn_tag = journal_tag C (jn_id j), jn_durability = d, jn_geometry = jn_geometry j,
      jn_meta_file = meta_update C (open_meta j) (jn_meta_file j), jn_meta = open_meta j,
      jn_segments = map stored (jn_segments j), jn_index = [], jn_last_batch = jn_last_batch j,
      jn_ambiguous_batch = None, jn_generation = mt_open_generation (open_meta j), jn_poisoned = False, jn_spare = spare,
      jn_spares_named = 0, jn_onto_spare = 0, jn_created = 0\<rparr>"

lemma opened_ops:
  assumes cl: "clean C j" and l: "logged C j pre"
    and sp: "case spare of None \<Rightarrow> True | Some (_, img) \<Rightarrow> length img = total_blocks (jn_geometry j) * BLOCK"
  obtains j1 where "apply_ops (closed_ops pre) (opened C d spare j) = Inr j1" "map stored (jn_segments j1) = map stored (jn_segments j)"
    "rest_of j1 = rest_of (opened C d spare j)" "om_get (jn_index j1) = map_ops (closed_ops pre) Map.empty" "journal_core j1"
proof -
  let ?j = "opened C d spare j"
  have c: "journal_core j" and mf: "meta_fits (jn_meta j)" using cl by (simp_all add: clean_def journal_ok_def)
  have fi: "firsts ?j = firsts j" by (simp add: firsts_def opened_def)
  have so: "sorted_wrt (<) (firsts j)" using c by (simp add: journal_core_def index_ok_def)
  have ix: "index_ok ?j" unfolding index_ok_def fi using so
    by (auto simp: opened_def om_ok_Nil om_get_def live_in_def om.counting_def stored_def)
  have pre: "map fst pre = map stored (jn_segments j)" and ops: "\<forall>op \<in> set (closed_ops pre). case op of
      JPut p at \<Rightarrow> entry_held (jn_geometry j) (jn_segments j) at | JClear a z \<Rightarrow> a \<le> z"
    using loggedD(1,3) [OF l] by blast+
  have "op_placed ?j op" if op: "op \<in> set (closed_ops pre)" for op
  proof (cases op)
    case (JPut p at)
    then have "lo_segment at \<in> sg_first_batch ` set (map stored (jn_segments j))" using closed_ops_segment [of p at pre] op pre by simp
    then show ?thesis unfolding op_placed_def fi using JPut by (simp add: firsts_def image_image)
  next
    case (JClear a z)
    then show ?thesis using bspec [OF ops op] by (simp add: op_placed_def)
  qed
  then obtain j1 where j1: "apply_ops (closed_ops pre) ?j = Inr j1" "index_ok j1" "frozen j1 = frozen ?j"
    "om_get (jn_index j1) = map_ops (closed_ops pre) (om_get (jn_index ?j))"
    using apply_ops_ok [OF ix, of "closed_ops pre"] by blast
  note fz = frozen_stored [OF j1(3)]
  have segs: "map stored (jn_segments j1) = map stored (jn_segments j)" using fz(1) by (simp add: opened_def stored_def)
  note ro = rest_of_same [OF fz(2)]
  have "om_get [] = (Map.empty :: 64 word \<rightharpoonup> located)" by (simp add: fun_eq_iff om_get_def)
  then have get: "om_get (jn_index j1) = map_ops (closed_ops pre) Map.empty" using j1(4) by (simp add: opened_def)
  have g: "jn_geometry j1 = jn_geometry j" "jn_meta_file j1 = meta_update C (open_meta j) (jn_meta_file j)" using ro by (simp_all add: opened_def)
  have "entry_held (jn_geometry j) (jn_segments j1) at" if "om_get (jn_index j1) p = Some at" for p at
  proof -
    have "map_ops (closed_ops pre) Map.empty p = Some at" using that get by simp
    then obtain q where "JPut q at \<in> set (closed_ops pre)" using map_ops_put [of "closed_ops pre" p at] by blast
    then have "entry_held (jn_geometry j) (jn_segments j) at" using bspec [OF ops] by fastforce
    moreover have "map_option stored (seg_at (jn_segments j1) (lo_segment at)) = map_option stored (seg_at (jn_segments j) (lo_segment at))"
      using segs seg_at_stored by metis
    ultimately show ?thesis using entry_held_stored by blast
  qed
  moreover have "\<forall>s \<in> set (jn_segments j1). segment_sound (jn_geometry j) s"
  proof -
    have st: "segment_sound (jn_geometry j) (stored s) = segment_sound (jn_geometry j) s" for s by (simp add: segment_sound_def)
    have "\<forall>s \<in> set (map stored (jn_segments j1)). segment_sound (jn_geometry j) s" unfolding segs using c st by (simp add: journal_core_def)
    then show ?thesis using st by simp
  qed
  moreover have "file_ok (meta_update C (open_meta j) (jn_meta_file j))"
    using update_settles [of "jn_meta_file j" "open_meta j" C] c mf by (simp add: settled_def journal_core_def open_meta_def meta_fits_def)
  moreover have "case jn_spare j1 of None \<Rightarrow> True | Some (_, img) \<Rightarrow> length img = total_blocks (jn_geometry j) * BLOCK"
    using sp fz(3) by (simp add: opened_def)
  ultimately have "journal_core j1" using j1(2) c unfolding journal_core_def g by simp
  then show thesis using that [OF j1(1) segs fz(2) get] by blast
qed

lemma reads_at_rest:
  assumes ok: "journal_ok j" and l: "logged C j pre"
  shows "read C j p = (if p < mt_floor (jn_meta j) then Inl (ReadEmpty p)
    else entry_in C (jn_tag j) (jn_segments j) p (map_ops (closed_ops pre) Map.empty p))"
proof (cases "p < mt_floor (jn_meta j)")
  case True
  then have "om_get (jn_index j) p = None" using ok leD [of "mt_floor (jn_meta j)" p] by (auto simp: journal_ok_def)
  then show ?thesis using True by (simp add: read_entry_in entry_in_def)
next
  case False
  then have "om_get (jn_index j) p = map_ops (closed_ops pre) Map.empty p" using loggedD(4) [OF l] by (simp add: not_less)
  then show ?thesis using False by (simp add: read_entry_in)
qed

lemma opened_resting:
  assumes r: "resting C j" and c: "journal_core j" and mf: "meta_fits (jn_meta j)" and l: "logged C j pre"
    and gen: "unat (jn_generation j) + 1 < 2 ^ 24"
    and segs: "map stored (jn_segments j1) = map stored (jn_segments j)" and ro: "rest_of j1 = rest_of (opened C d spare j)"
    and get: "om_get (jn_index j1) = map_ops (closed_ops pre) Map.empty"
  shows "resting C j1"
proof -
  have s: "settled_meta C j" and hd: "\<forall>s \<in> set (jn_segments j). headed C (jn_id j) s" using r by (simp_all add: resting_def)
  note same = rest_of_same [OF ro]
  have tag: "jn_tag j = journal_tag C (jn_id j)" and gn: "mt_open_generation (jn_meta j) = jn_generation j" using s by (simp_all add: settled_meta_def)
  have j1: "jn_tag j1 = jn_tag j" "jn_geometry j1 = jn_geometry j" "jn_id j1 = jn_id j" "jn_meta j1 = open_meta j"
    "jn_last_batch j1 = jn_last_batch j" "jn_meta_file j1 = meta_update C (open_meta j) (jn_meta_file j)" "jn_generation j1 = jn_generation j + 1"
    using same tag gn by (simp_all add: opened_def open_meta_def)
  have om: "meta_fits (open_meta j)" using mf by (simp add: open_meta_def meta_fits_def)
  have "settled C (meta_update C (open_meta j) (jn_meta_file j)) (open_meta j)" using c om by (intro update_settles) (simp_all add: journal_core_def)
  moreover have "unat (jn_generation j + 1) < 2 ^ 24" using gen by (simp add: unat_word_ariths)
  ultimately have "settled_meta C j1" using s by (simp add: settled_meta_def j1 open_meta_def)
  moreover have "\<forall>s \<in> set (jn_segments j1). headed C (jn_id j1) s"
  proof -
    have hs: "headed C i (stored s) = headed C i s" for i s by (simp add: headed_def stored_def)
    have "\<forall>s \<in> set (map stored (jn_segments j1)). headed C (jn_id j) s" unfolding segs using hd hs by simp
    then show ?thesis using hs j1(3) by simp
  qed
  moreover have "logged C j1 pre"
  proof -
    have held: "entry_held (jn_geometry j) (jn_segments j1) at = entry_held (jn_geometry j) (jn_segments j) at" for at
      using segs seg_at_stored by (metis entry_held_stored)
    have "\<forall>(s, bs) \<in> set pre. \<forall>b \<in> set bs. seq_of b \<le> jn_last_batch j" using loggedD(5) [OF l] by auto
    then show ?thesis unfolding logged_def j1 segs get held using loggedD(1-3,6) [OF l] by (simp add: open_meta_def split_def cong: jop.case_cong)
  qed
  ultimately show ?thesis by (auto simp: resting_def)
qed

text \<open>What an open promises of the journal it returns.\<close>

definition same_contents :: "crc_lib \<Rightarrow> durability \<Rightarrow> journal \<Rightarrow> journal \<Rightarrow> bool" where
  "same_contents C d j j' =
     (clean C j' \<and> abs_of C j' = abs_of C j \<and> jn_id j' = jn_id j \<and> jn_geometry j' = jn_geometry j \<and> jn_durability j' = d
      \<and> jn_last_batch j' = jn_last_batch j \<and> jn_generation j' = jn_generation j + 1)"

lemma opened_contents:
  assumes cl: "clean C j" and l: "logged C j pre" and gen: "unat (jn_generation j) + 1 < 2 ^ 24"
    and segs: "map stored (jn_segments j1) = map stored (jn_segments j)" and ro: "rest_of j1 = rest_of (opened C d spare j)"
    and get: "om_get (jn_index j1) = map_ops (closed_ops pre) Map.empty" and c1: "journal_core j1" and t: "trimmed j1 j2"
  shows "same_contents C d j j2"
proof -
  have ok: "journal_ok j" and c: "journal_core j" and mf: "meta_fits (jn_meta j)" and r: "resting C j"
    and older: "\<forall>s \<in> set (jn_segments j). sg_first_batch s \<le> jn_last_batch j"
    using cl by (simp_all add: clean_def journal_ok_def)
  note same = rest_of_same [OF ro] and same2 = rest_of_same [OF trimmedD(1) [OF t]]
  have tag: "jn_tag j1 = jn_tag j" and gn: "mt_open_generation (jn_meta j) = jn_generation j"
    using same r by (simp_all add: opened_def resting_def settled_meta_def)
  have fl: "mt_floor (jn_meta j1) = mt_floor (jn_meta j)" "mt_bytes (jn_meta j1) = mt_bytes (jn_meta j)" "meta_fits (jn_meta j1)"
    using same mf by (simp_all add: opened_def open_meta_def meta_fits_def)
  have "resting C j2" by (rule trimmed_resting [OF t c1 opened_resting [OF r c mf l gen segs ro get]])
  moreover have "journal_ok j2"
  proof -
    obtain k where k: "map stored (jn_segments j2) = drop k (map stored (jn_segments j1))" using t by (auto elim: trimmedE)
    have "\<forall>s \<in> set (map stored (jn_segments j2)). sg_first_batch s \<le> jn_last_batch j"
      unfolding k segs using older set_drop_subset [of k "map stored (jn_segments j)"] by fastforce
    then have "\<forall>s \<in> set (jn_segments j2). sg_first_batch s \<le> jn_last_batch j2" using same2 same by (simp add: opened_def)
    then show ?thesis using trimmed_core [OF t c1] trimmedD(3) [OF t] same2(1) fl by (auto simp: journal_ok_def split: if_splits)
  qed
  moreover have "read C j2 p = read C j p" for p
  proof -
    have so: "sorted_wrt (<) (firsts j1)" using c1 by (simp add: journal_core_def index_ok_def)
    have "read C j1 p = entry_in C (jn_tag j) (jn_segments j) p (map_ops (closed_ops pre) Map.empty p)"
      unfolding read_entry_in tag get by (rule entry_in_stored [OF segs])
    then show ?thesis unfolding trimmed_read [OF t so] reads_at_rest [OF ok l] fl by simp
  qed
  ultimately show ?thesis using same same2 fl gn by (simp add: same_contents_def clean_def abs_of_def opened_def open_meta_def fun_eq_iff)
qed

lemma runs_build:
  assumes cl: "clean C j" and l: "logged C j pre" and gen: "unat (jn_generation j) + 1 < 2 ^ 24" and out: "sc_ops out = closed_ops pre"
    and sp: "case spare of None \<Rightarrow> True | Some (_, img) \<Rightarrow> length img = total_blocks (jn_geometry j) * BLOCK"
  shows "runs (build out rv (opened C d spare j)) fs (\<lambda>(j', rv') fs'. same_contents C d j j' \<and> (\<exists>n. rv' = rv\<lparr>rv_segments_removed := n\<rparr>))"
  unfolding runs_def
proof (intro allI impI)
  fix w :: world assume w: "wd_files w = fs" "quiet (wd_io w)" "wd_exists w"
  have mf: "meta_fits (jn_meta j)" using cl by (simp add: clean_def journal_ok_def)
  obtain j1 where j1: "apply_ops (closed_ops pre) (opened C d spare j) = Inr j1" "map stored (jn_segments j1) = map stored (jn_segments j)"
    "rest_of j1 = rest_of (opened C d spare j)" "om_get (jn_index j1) = map_ops (closed_ops pre) Map.empty" "journal_core j1"
    by (rule opened_ops [OF cl l sp])
  have ix: "index_ok j1" using j1(5) by (simp add: journal_core_def)
  have mf1: "meta_fits (jn_meta j1)" using mf rest_of_same(1) [OF j1(3)] by (simp add: opened_def open_meta_def meta_fits_def)
  obtain j2 where j2: "drop_below_floor j1 = Inr j2" using drop_below_floor_ok [OF ix] by blast
  obtain n j3 io where j3: "remove_dead_segments 0 j2 (wd_io w) = (Some n, j3, io)" "quiet io" using quiet_remove_dead [OF w(2)] by blast
  let ?r = "after_commit j1 (wd_io w)"
  have r: "?r = (if assert_invariants j3 then (Inr (), j3, io) else (Inl AssertionFailed, j3, io))" using j2 j3 by (simp add: after_commit_def)
  then have ai: "assert_invariants j3" "trimmed j1 j3"
    using after_commit_spec [OF _ ix mf1, of "wd_io w" "fst ?r" "fst (snd ?r)" "snd (snd ?r)"] by (auto split: if_splits)
  have "same_contents C d j j3" by (rule opened_contents [OF cl l gen j1(2-5) ai(2)])
  then show "\<exists>x w'. build out rv (opened C d spare j) w = (Inr x, w') \<and> quiet (wd_io w') \<and> wd_exists w' \<and>
      (case x of (j', rv') \<Rightarrow> \<lambda>fs'. same_contents C d j j' \<and> (\<exists>n. rv' = rv\<lparr>rv_segments_removed := n\<rparr>)) (wd_files w')"
    using j1(1) j2 j3 ai(1) w(3) by (auto simp: build_def out and_then_def Let_def)
qed

section \<open>Opening\<close>

lemma seg_at_None: "seg_at ss n = None \<longleftrightarrow> n \<notin> sg_first_batch ` set ss"
  by (induction ss) (auto simp: seg_at_Cons)

lemma seg_at_member: "sorted_wrt (<) (map sg_first_batch ss) \<Longrightarrow> s \<in> set ss \<Longrightarrow> seg_at ss (sg_first_batch s) = Some s"
  by (induction ss) (auto simp: seg_at_Cons)

lemma listed_firsts:
  assumes d: "in_dir j fs" and so: "sorted_wrt (<) (firsts j)"
  shows "ls_firsts (list_segments (map fst fs)) = map (\<lambda>s. (sg_first_batch s, segment_name (sg_first_batch s))) (jn_segments j)"
proof -
  let ?ls = "ls_firsts (list_segments (map fst fs))"
  have ls: "sorted_wrt (<) (map fst ?ls)" "set ?ls = {(n, name). name \<in> set (map fst fs) \<and> name = segment_name n}"
    using list_segments_spec [of "map fst fs"] d by (simp_all add: in_dir_def)
  have iff: "segment_name n \<in> set (map fst fs) \<longleftrightarrow> n \<in> set (firsts j)" for n
  proof -
    have "segment_name n \<in> set (map fst fs) \<longleftrightarrow> map_of fs (segment_name n) \<noteq> None" by (simp add: map_of_eq_None_iff)
    also have "\<dots> \<longleftrightarrow> seg_at (jn_segments j) n \<noteq> None" using d by (simp add: in_dir_def)
    also have "\<dots> \<longleftrightarrow> n \<in> set (firsts j)" by (simp add: seg_at_None firsts_def)
    finally show ?thesis .
  qed
  have "fst ` {(n, name). name \<in> A \<and> name = segment_name n} = {n. segment_name n \<in> A}" for A by force
  then have "set (map fst ?ls) = set (firsts j)" using iff unfolding set_map ls(2) by simp
  then have fi: "map fst ?ls = firsts j" using ls(1) so by (simp add: strict_sorted_equal)
  have "x = (fst x, segment_name (fst x))" if "x \<in> set ?ls" for x using that unfolding ls(2) by auto
  then have "map (\<lambda>x. x) ?ls = map (\<lambda>x. (fst x, segment_name (fst x))) ?ls" by (intro map_cong) simp_all
  then have "?ls = map (\<lambda>n. (n, segment_name n)) (map fst ?ls)" by (simp add: comp_def)
  then show ?thesis unfolding fi by (simp add: firsts_def comp_def)
qed

text \<open>A recovery with nothing to report but what it tidied.\<close>

definition untouched :: "recovery \<Rightarrow> bool" where
  "untouched rv =
     (rv_corrupt rv = [] \<and> rv_ambiguous rv = [] \<and> rv_torn rv = 0 \<and> rv_rebuilt rv = 0 \<and> \<not> rv_meta_repaired rv \<and> rv_headers_repaired rv = 0)"

lemma runs_open_with:
  assumes cl: "clean C j" and gen: "unat (jn_generation j) + 1 < 2 ^ 24" and d: "in_dir j fs"
    and ls: "ls_firsts ls = map (\<lambda>s. (sg_first_batch s, segment_name (sg_first_batch s))) (jn_segments j)"
    and sp: "distinct (ls_spares ls)" "\<forall>name \<in> set (ls_spares ls). is_spare name \<and> map_of fs name \<noteq> None"
  shows "runs (open_with C (jn_id j) (jn_geometry j) du ls (jn_meta j) False) fs (\<lambda>(j', rv) _. same_contents C du j j' \<and> untouched rv)"
proof -
  have r: "settled_meta C j" "\<forall>s \<in> set (jn_segments j). headed C (jn_id j) s" and c: "journal_core j" using cl by (simp_all add: clean_def resting_def journal_ok_def)
  obtain pre where l: "logged C j pre" using cl by (auto simp: clean_def resting_def)
  obtain out where out: "scan C (jn_tag j) (stale_of (jn_meta j)) (map disk (jn_segments j)) = Inr out" "sc_ops out = closed_ops pre"
    "sc_last_batch out = jn_last_batch j" "sc_corrupt out = []" "sc_ambiguous out = []" "sc_voided out = 0" "sc_rebuilt out = 0"
    "sc_rewrite out = None" "set_cursors (map disk (jn_segments j)) (sc_cursors out) = map stored (jn_segments j)"
    using scan_resting [OF r(1) l] by blast
  have m: "jn_tag j = journal_tag C (jn_id j)" "\<not> jn_last_batch j < mt_last_batch (jn_meta j)" "mt_open_generation (jn_meta j) = jn_generation j"
    using r(1) by (simp_all add: settled_meta_def not_less)
  have so: "sorted_wrt (<) (firsts j)" using c by (simp add: journal_core_def index_ok_def)
  have segs: "\<forall>s \<in> set (jn_segments j). headed C (jn_id j) s \<and> segment_sound (jn_geometry j) s \<and> map_of fs' (segment_name (sg_first_batch s)) = Some (sg_image s)"
    if "in_dir j fs'" for fs'
    using r(2) c that seg_at_member [OF so [unfolded firsts_def]] by (auto simp: journal_core_def in_dir_def)
  have gn: "unat (mt_open_generation (jn_meta j)) + 1 < 2 ^ 32" using gen m(3) by simp
  have build: "runs (build out rv (opened C du spare j)) fs' (\<lambda>(j', rv') _. same_contents C du j j' \<and> untouched rv')"
    if "untouched rv" "case spare of None \<Rightarrow> True | Some (_, img) \<Rightarrow> length img = total_blocks (jn_geometry j) * BLOCK" for rv spare fs'
    by (rule runs_mono [OF runs_build [OF cl l gen out(2) that(2)]]) (use that(1) in \<open>auto simp: untouched_def\<close>)
  have spare: "runs (case a of None \<Rightarrow> oret None | Some name \<Rightarrow> obind (file_of name) (\<lambda>file. oret (Some (name, the file)))) fs2
      (\<lambda>x _. case x of None \<Rightarrow> True | Some (_, img) \<Rightarrow> length img = total_blocks (jn_geometry j) * BLOCK)"
    if "kept_ok (jn_geometry j) a fs1" "\<forall>name. is_spare name \<longrightarrow> map_of fs2 name = map_of fs1 name" for a fs1 fs2
    using that by (cases a) (auto simp: kept_ok_def intro!: runs_intro)
  show ?thesis unfolding open_with_def ls
    apply (rule runs_obind)
    apply (rule runs_mono [OF runs_keep_one_spare [OF d sp]])
    apply (clarify)
    apply (rule runs_obind)
    apply (rule runs_mono [OF runs_open_segments [OF segs]])
     apply assumption
    apply (clarify)
    apply (rule runs_obind runs_provider runs_olift [OF out(1) [unfolded m(1) stale_of_def]])+
    apply (simp only: out(3) m(2) if_False rewrite_records_def out(8) option.case)
    apply (rule runs_obind)
    apply (rule runs_oret)
    apply (rule runs_obind)
    apply (rule runs_provider)
    apply (rule runs_obind)
    apply (rule runs_mono [OF runs_begin_generation [OF _ gn]])
     apply assumption
    apply (elim conjE)
    apply (rule runs_obind)
    apply (rule runs_file_of)
    apply (rule runs_obind)
    apply (rule runs_mono [where Q = "\<lambda>x _. case x of None \<Rightarrow> True | Some (_, img) \<Rightarrow> length img = total_blocks (jn_geometry j) * BLOCK"])
     apply (rule spare, assumption+)
    apply (insert build)
    apply (simp add: out m in_dir_def opened_def open_meta_def untouched_def)
    done
qed

lemma runs_open_journal:
  assumes cl: "clean C j" and gen: "unat (jn_generation j) + 1 < 2 ^ 24" and d: "in_dir j fs"
  shows "runs (open_journal C dir (jn_id j) (jn_geometry j) du) fs (\<lambda>r _. \<exists>j' rv. r = Some (j', rv) \<and> same_contents C du j j' \<and> untouched rv)"
proof -
  have r: "settled_meta C j" and c: "journal_core j" using cl by (simp_all add: clean_def resting_def journal_ok_def)
  have so: "sorted_wrt (<) (firsts j)" and g: "is_valid (jn_geometry j)" "mt_geometry (jn_meta j) = jn_geometry j"
    using c r by (simp_all add: journal_core_def index_ok_def settled_meta_def)
  let ?ls = "list_segments (map fst fs)"
  have dn: "distinct (map fst fs)" using d by (simp add: in_dir_def)
  have sp: "distinct (ls_spares ?ls)" "\<forall>name \<in> set (ls_spares ?ls). is_spare name \<and> map_of fs name \<noteq> None"
    using dn list_segments_spec [OF dn]
    by (simp add: list_segments_def sort_names_spec Let_def) (use list_segments_spec [OF dn] in \<open>auto simp: map_of_eq_None_iff\<close>)
  have opens: "runs (open_with C (jn_id j) (jn_geometry j) du ?ls (jn_meta j) False) fs1 (\<lambda>(j', rv) _. same_contents C du j j' \<and> untouched rv)"
    if "in_dir j fs1" "\<forall>name. is_spare name \<longrightarrow> map_of fs1 name = map_of fs name" for fs1
    using that sp by (intro runs_open_with [OF cl gen that(1) listed_firsts [OF d so]]) simp_all
  show ?thesis unfolding open_journal_def check_config_def
    apply (simp only: g if_True)
    apply (rule runs_obind runs_oret)+
    apply (rule runs_mono [OF runs_list_dir [OF d]])
    apply (elim conjE)
    apply (simp only: option.case)
    apply (rule runs_obind)
    apply (rule runs_mono [OF runs_meta_open [OF _ r]])
     apply assumption
    apply (elim conjE)
    apply (simp only: option.case prod.case g simp_thms if_False)
    apply (rule runs_obind)
    apply (rule runs_mono [OF opens])
      apply assumption+
    apply (auto intro!: runs_oret)
    done
qed

text \<open>C4. Closing and opening again loses nothing: from a directory that holds the files of a journal at rest, beside
  whatever spares, leftovers and other files, and a provider that does not fail, \<open>open\<close> returns the journal. It
  is at rest again, under the next generation, with the floor, the application's bytes and the answer to every
  read as before; recovery reports no damage, no doubt, no torn and no rebuilt batch, and repairs nothing.
\<close>

theorem reopen_keeps_contents:
  assumes "clean C j" "in_dir j (wd_files w)" "wd_exists w" "quiet (wd_io w)" "unat (jn_generation j) + 1 < 2 ^ 24"
  shows "\<exists>j' rv w'. open_journal C dir (jn_id j) (jn_geometry j) d w = (Inr (Some (j', rv)), w') \<and>
    clean C j' \<and> abs_of C j' = abs_of C j \<and> jn_generation j' = jn_generation j + 1 \<and> jn_last_batch j' = jn_last_batch j \<and>
    rv_corrupt rv = [] \<and> rv_ambiguous rv = [] \<and> rv_torn rv = 0 \<and> rv_rebuilt rv = 0 \<and> \<not> rv_meta_repaired rv \<and> rv_headers_repaired rv = 0"
  using runsD [OF runs_open_journal [OF assms(1,5,2), of dir d] assms(4,3)] by (auto simp: same_contents_def untouched_def)

section \<open>A whole life\<close>

lemma create_clean:
  assumes "create C dir i g d bytes w = (Inr j, w')"
  shows "clean C j \<and> abs_of C j = \<lparr>st_floor = 0, st_bytes = bytes, st_reads = (\<lambda>p. Inl (ReadEmpty p))\<rparr> \<and> jn_id j = i \<and> jn_geometry j = g
    \<and> jn_generation j = 1 \<and> jn_spare j = None \<and> jn_last_batch j = 0 \<and> jn_segments j = []"
proof -
  let ?m = "\<lparr>mt_seq = 1, mt_journal = i, mt_floor = 0, mt_last_batch = 0, mt_open_generation = 1, mt_open_last = 0, mt_geometry = g, mt_bytes = bytes\<rparr>"
  let ?j = "\<lparr>jn_id = i, jn_tag = journal_tag C i, jn_durability = d, jn_geometry = g, jn_meta_file = meta_create C ?m,
               jn_meta = ?m, jn_segments = [], jn_index = [], jn_last_batch = 0, jn_ambiguous_batch = None, jn_generation = 1,
               jn_poisoned = False, jn_spare = None, jn_spares_named = 0, jn_onto_spare = 0, jn_created = 0\<rparr>"
  have v: "is_valid g" "length bytes \<le> META_MAX" "j = ?j"
    using assms
    by (auto simp: create_def check_config_def obind_def oret_def ofail_def Let_def meta_create_io_def split: if_splits prod.splits sum.splits)
  have fits: "meta_fits ?m" using v(2) by (simp add: meta_fits_def)
  then have s: "settled C (meta_create C ?m) ?m" by (rule create_settles)
  have "logged C ?j []" by (simp add: logged_def)
  then have "resting C ?j" using s by (auto simp: resting_def settled_meta_def)
  moreover have "journal_ok ?j" using v(1) fits s by (simp add: journal_ok_def journal_core_def index_ok_def firsts_def settled_def)
  ultimately show ?thesis unfolding v(3) by (simp add: clean_def abs_of_def read_def fun_eq_iff)
qed

text \<open>
  A journal from \<open>create\<close> on: batches committed and the directory opened again, in any order and number. The
  batches are those whose commit succeeded.
\<close>

inductive life :: "crc_lib \<Rightarrow> string \<Rightarrow> journal \<Rightarrow> batch list \<Rightarrow> journal \<Rightarrow> bool" for C dir j0 where
  born: "life C dir j0 [] j0"
| commits: "life C dir j0 bs j \<Longrightarrow> batch_ok b \<Longrightarrow> bt_writes b = [] \<or> numbers_left j \<and> spare_old C j \<Longrightarrow>
    commit C b j io = (Inr (), j', io') \<Longrightarrow> life C dir j0 (bs @ [b]) j'"
| reopens: "life C dir j0 bs j \<Longrightarrow> in_dir j (wd_files w) \<Longrightarrow> wd_exists w \<Longrightarrow> quiet (wd_io w) \<Longrightarrow> unat (jn_generation j) + 1 < 2 ^ 24 \<Longrightarrow>
    open_journal C dir (jn_id j) (jn_geometry j) d w = (Inr (Some (j', rv)), w') \<Longrightarrow> life C dir j0 bs j'"

lemma life_clean:
  assumes "life C dir j0 bs j" "clean C j0"
  shows "clean C j \<and> abs_of C j = fold abs_commit bs (abs_of C j0)"
  using assms
proof induction
  case (commits bs j b io j' io')
  then show ?case using commit_clean [of C j b io j' io'] by simp
next
  case (reopens bs j w d j' rv w')
  then have "clean C j" by simp
  from runsD [OF runs_open_journal [OF this reopens.hyps(5,2), of dir d] reopens.hyps(4,3)] reopens
  show ?case by (auto simp: same_contents_def)
qed simp


section \<open>Witnesses\<close>

lemma runs_create:
  assumes "is_valid g" "length bytes \<le> META_MAX" "map_of fs META_NAME = None"
  shows "runs (create C dir i g d bytes) fs (\<lambda>_ _. True)"
proof -
  let ?m = "\<lparr>mt_seq = 1, mt_journal = i, mt_floor = 0, mt_last_batch = 0, mt_open_generation = 1, mt_open_last = 0, mt_geometry = g, mt_bytes = bytes\<rparr>"
  have here: "runs (\<lambda>w. m (w\<lparr>wd_exists := True, wd_files := if wd_exists w then wd_files w else []\<rparr>)) fs Q" if "runs m fs Q" for m :: "'a ostep" and fs Q
    using that by (auto simp: runs_def)
  have set: "runs (\<lambda>w. m (w\<lparr>wd_files := F (wd_files w)\<rparr>)) fs Q" if "runs m (F fs) Q" for m :: "'a ostep" and fs F Q
    using that by (auto simp: runs_def)
  have "runs (meta_create_io C ?m) fs (\<lambda>_ _. True)" unfolding meta_create_io_def remove_leftover_def
    by (intro runs_obind runs_exists runs_if runs_delete runs_oret runs_provider set; rule runs_write)
      (auto simp: update_conv' intro!: runs_obind runs_provider set runs_oret)
  then have "runs (meta_create_io C ?m) fs (\<lambda>x fs. runs (oret (f x)) fs (\<lambda>_ _. True))" for f :: "bytes \<Rightarrow> journal"
    by (rule runs_mono) (simp add: runs_oret)
  then show ?thesis using assms unfolding create_def check_config_def sync_names_def Let_def
    by (auto intro!: runs_obind runs_oret runs_provider here runs_exists)
qed

definition own_files :: "journal \<Rightarrow> (string \<times> bytes) list" where
  "own_files j = (META_NAME, jn_meta_file j) # map (\<lambda>s. (segment_name (sg_first_batch s), sg_image s)) (jn_segments j)"

lemma own_files_in_dir: "sorted_wrt (<) (firsts j) \<Longrightarrow> in_dir j (own_files j)"
proof -
  assume so: "sorted_wrt (<) (firsts j)"
  have inj: "inj segment_name" by (metis injI option.inject parse_segment_name)
  have "map_of (map (\<lambda>s. (segment_name (sg_first_batch s), sg_image s)) ss) (segment_name n) = map_option sg_image (seg_at ss n)" for n ss
    using inj by (induction ss) (auto simp: seg_at_Cons inj_eq)
  moreover have "distinct (map segment_name (firsts j))" using so inj by (auto simp: distinct_map strict_sorted_iff intro: inj_on_subset)
  ultimately show ?thesis using meta_name(2) not_sym [OF meta_name(2)] by (auto simp: in_dir_def own_files_def firsts_def comp_def)
qed

definition quiet_world :: "(string \<times> bytes) list \<Rightarrow> world" where
  "quiet_world fs = \<lparr>wd_exists = True, wd_files = fs, wd_io = []\<rparr>"

definition sample_entry :: jentry where
  "sample_entry = \<lparr>en_position = 9, en_id = replicate 24 3, en_payload = [1, 2, 3]\<rparr>"

lemma life_create: "\<exists>j w. create sum_crc ''d'' 5 geometry_small Ordered [7] (quiet_world []) = (Inr j, w)"
proof -
  have "runs (create sum_crc ''d'' 5 geometry_small Ordered [7]) (wd_files (quiet_world [])) (\<lambda>_ _. True)"
    by (rule runs_create) (simp_all add: sample_batch_ok META_MAX_def META_CRC_AT_def META_BYTES_AT_def BLOCK_def quiet_world_def)
  from runsD [OF this] show ?thesis by (auto simp: quiet_world_def quiet_def)
qed

lemma life_commit:
  assumes "create sum_crc ''d'' 5 geometry_small Ordered [7] w = (Inr j, w')"
  shows "\<exists>j' io'. commit sum_crc sample_batch j [] = (Inr (), j', io')" "numbers_left j \<and> spare_old sum_crc j"
proof -
  note c = create_clean [OF assms]
  then have ok: "journal_ok j" "\<not> jn_poisoned j" "mt_floor (jn_meta j) = 0" by (simp_all add: clean_def abs_of_def)
  show n: "numbers_left j \<and> spare_old sum_crc j" using c sample_batch_ok(4) by (simp add: numbers_left_def spare_old_def)
  have "commit_refused sample_batch j = None" using sample_batch_ok c ok
    by (simp add: sample_batch_def batch_clear_def batch_put_def batch_new_def commit_refused_def commit_floor_def)
  then show "\<exists>j' io'. commit sum_crc sample_batch j [] = (Inr (), j', io')"
    using quiet_commit_Inr [OF ok(1) empty_journal_batch(1) _ empty_journal_batch(4)] n by blast
qed

lemma sample_contents: "st_reads (abs_commit sample_batch s) 9 = (if st_floor s \<le> 9 then Inr sample_entry else Inl (ReadEmpty 9))"
  by (auto simp: abs_commit_def sample_batch_def batch_clear_def batch_put_def batch_new_def Let_def writes_effect_def sample_entry_def)

lemma commit_same:
  assumes cm: "commit C b j io = (Inr (), j', io')" and ok: "journal_ok j" and b: "batch_ok b" and nl: "bt_writes b = [] \<or> numbers_left j"
  shows "jn_id j' = jn_id j \<and> jn_geometry j' = jn_geometry j \<and> jn_generation j' = jn_generation j"
proof (cases "j' = j")
  case False
  then obtain j1 where j1: "landed C b j j1" "trimmed j1 j'" using commit_landed [OF assms] by blast
  note same = rest_of_same [OF trimmedD(1) [OF j1(2)]]
  have "jn_id j1 = jn_id j \<and> jn_geometry j1 = jn_geometry j \<and> jn_generation j1 = jn_generation j"
  proof (cases "bt_writes b = []")
    case True
    then show ?thesis using j1(1) by (auto simp: landed_def)
  next
    case False
    then obtain ss s p prs where "wrote C b (next_meta b j) j ss s p prs j1" using j1(1) by (auto simp: landed_def)
    then obtain lb mt mf os cr where "rest_of j1 = (rest_of j)\<lparr>jn_last_batch := lb, jn_ambiguous_batch := None, jn_meta := mt, jn_meta_file := mf,
        jn_onto_spare := os, jn_created := cr\<rparr>"
      unfolding wrote_def by blast
    from arg_cong [OF this, of jn_id] arg_cong [OF this, of jn_geometry] arg_cong [OF this, of jn_generation]
    show ?thesis by (simp add: rest_of_def)
  qed
  then show ?thesis using same by simp
qed simp

text \<open>A journal created, committed to, and at rest.\<close>

lemma sample_life:
  obtains j0 w0 j where "create sum_crc ''d'' 5 geometry_small Ordered [7] (quiet_world []) = (Inr j0, w0)"
    "life sum_crc ''d'' j0 [sample_batch] j" "clean sum_crc j" "read sum_crc j 9 = Inr sample_entry"
    "jn_generation j = 1" "jn_id j = 5" "jn_geometry j = geometry_small"
proof -
  obtain j0 w0 where c: "create sum_crc ''d'' 5 geometry_small Ordered [7] (quiet_world []) = (Inr j0, w0)" using life_create by blast
  obtain j io where j: "commit sum_crc sample_batch j0 [] = (Inr (), j, io)" using life_commit(1) [OF c] by blast
  note cc = create_clean [OF c]
  have "life sum_crc ''d'' j0 ([] @ [sample_batch]) j"
    by (rule life.commits [OF life.born empty_journal_batch(1) disjI2 [OF life_commit(2) [OF c]] j])
  then have l: "life sum_crc ''d'' j0 [sample_batch] j" by simp
  have cl: "clean sum_crc j" "abs_of sum_crc j = abs_commit sample_batch (abs_of sum_crc j0)" using life_clean [OF l] cc by simp_all
  have "st_reads (abs_of sum_crc j) 9 = Inr sample_entry" unfolding cl(2) sample_contents using cc by simp
  then have rd: "read sum_crc j 9 = Inr sample_entry" by (simp add: abs_of_def)
  have "jn_id j = 5 \<and> jn_geometry j = geometry_small \<and> jn_generation j = 1"
    using commit_same [OF j] empty_journal_batch(1) cc life_commit(2) [OF c] by (simp add: clean_def)
  then show thesis using that [OF c l cl(1) rd] by simp
qed

lemma clean_in_dir: "clean C j \<Longrightarrow> in_dir j (own_files j)"
  by (rule own_files_in_dir) (simp add: clean_def journal_ok_def journal_core_def index_ok_def)

theorem reopen_keeps_contents_witness:
  "\<exists>fs j rv w. open_journal sum_crc ''d'' 5 geometry_small Ordered (quiet_world fs) = (Inr (Some (j, rv)), w) \<and> clean sum_crc j \<and>
     read sum_crc j 9 = Inr sample_entry \<and> rv_corrupt rv = [] \<and> rv_torn rv = 0"
proof -
  obtain j where j: "clean sum_crc j" "read sum_crc j 9 = Inr sample_entry" "jn_generation j = 1" "jn_id j = 5" "jn_geometry j = geometry_small"
    by (rule sample_life)
  have d: "in_dir j (wd_files (quiet_world (own_files j)))" using clean_in_dir [OF j(1)] by (simp add: quiet_world_def)
  have q: "wd_exists (quiet_world (own_files j))" "quiet (wd_io (quiet_world (own_files j)))" "unat (jn_generation j) + 1 < 2 ^ 24"
    using j(3) by (simp_all add: quiet_world_def quiet_def)
  obtain j' rv w where o: "open_journal sum_crc ''d'' 5 geometry_small Ordered (quiet_world (own_files j)) = (Inr (Some (j', rv)), w)"
    "clean sum_crc j'" "abs_of sum_crc j' = abs_of sum_crc j" "rv_corrupt rv = []" "rv_torn rv = 0"
    using reopen_keeps_contents [OF j(1) d q, of "''d''" Ordered] unfolding j(4,5) by blast
  have "read sum_crc j' 9 = Inr sample_entry" using arg_cong [OF o(3), of st_reads] j(2) by (simp add: abs_of_def)
  then show ?thesis using o by blast
qed


end
