(* ===== verification/Sim_Scheduler.thy ===== *)
theory Sim_Scheduler
  imports Prelude "HOL-Library.Multiset"
begin

text \<open>
  The scheduler of the simulation (\<open>crates/moonpool-sim/src/sim/events.rs\<close>): logical time, sequence numbers, the
  queue of delayed items and their cancellation. A cancelled item stays in the heap as a tombstone until it is
  popped or the heap is compacted. A \<open>Duration\<close> is its nanoseconds, up to the largest \<open>Duration\<close>; the
  \<open>BinaryHeap\<close> is the list of its items in any order, whose \<open>pop\<close> removes the greatest.
\<close>

section \<open>Items and their order\<close>

type_synonym duration = nat

definition DURATION_MAX :: duration where "DURATION_MAX = (2 ^ 64 - 1) * 10 ^ 9 + 999999999"

definition duration_checked_add :: "duration \<Rightarrow> duration \<Rightarrow> duration option" where
  "duration_checked_add a b = (if a + b \<le> DURATION_MAX then Some (a + b) else None)"

datatype schedule_error = TimeOverflow | SequenceOverflow

record 'e scheduled =
  sd_time :: duration
  sd_value :: 'e
  sd_id :: u64

text \<open>\<open>Ord for Scheduled\<close>, reversed so that the greatest item is the next one.\<close>

definition sd_before :: "'e scheduled \<Rightarrow> 'e scheduled \<Rightarrow> bool" where
  "sd_before a b = (sd_time a < sd_time b \<or> sd_time a = sd_time b \<and> sd_id a < sd_id b)"

fun heap_top :: "'e scheduled \<Rightarrow> 'e scheduled list \<Rightarrow> 'e scheduled" where
  "heap_top x [] = x"
| "heap_top x (y # ys) = heap_top (if sd_before y x then y else x) ys"

fun heap_pop :: "'e scheduled list \<Rightarrow> ('e scheduled \<times> 'e scheduled list) option" where
  "heap_pop [] = None"
| "heap_pop (x # xs) = (let top = heap_top x xs in Some (top, remove1 top (x # xs)))"

section \<open>The scheduler\<close>

definition COMPACT_SLACK :: nat where "COMPACT_SLACK = 64"

record 'e scheduler =
  sr_now :: duration
  sr_next_sequence :: u64
  sr_heap :: "'e scheduled list"
  sr_live :: "u64 set"

definition scheduler_new :: "'e scheduler" where
  "scheduler_new = \<lparr>sr_now = 0, sr_next_sequence = 0, sr_heap = [], sr_live = {}\<rparr>"

definition schedule_at :: "duration \<Rightarrow> 'e \<Rightarrow> 'e scheduler \<Rightarrow> (schedule_error + u64) \<times> 'e scheduler" where
  "schedule_at time v s =
     (let time = max time (sr_now s) in
      case checked_add (sr_next_sequence s) 1 of None \<Rightarrow> (Inl SequenceOverflow, s)
      | Some next_sequence \<Rightarrow>
        let seq = sr_next_sequence s in
        (Inr seq, s\<lparr>sr_next_sequence := next_sequence, sr_live := insert seq (sr_live s),
                  sr_heap := \<lparr>sd_time = time, sd_value = v, sd_id = seq\<rparr> # sr_heap s\<rparr>))"

definition schedule_after :: "duration \<Rightarrow> 'e \<Rightarrow> 'e scheduler \<Rightarrow> (schedule_error + u64) \<times> 'e scheduler" where
  "schedule_after delay v s =
     (case duration_checked_add (sr_now s) delay of None \<Rightarrow> (Inl TimeOverflow, s)
      | Some time \<Rightarrow> schedule_at time v s)"

definition sched_cancel :: "u64 \<Rightarrow> 'e scheduler \<Rightarrow> bool \<times> 'e scheduler" where
  "sched_cancel sid s =
     (if sid \<notin> sr_live s then (False, s)
      else let live = sr_live s - {sid};
               heap = (if length (sr_heap s) > 2 * card live + COMPACT_SLACK then filter (\<lambda>x. sd_id x \<in> live) (sr_heap s) else sr_heap s)
           in (True, s\<lparr>sr_live := live, sr_heap := heap\<rparr>))"

text \<open>The loop of \<open>pop\<close>: tombstones are discarded until a live item comes up or the heap is empty.\<close>

partial_function (option) pop_live ::
  "'e scheduled list \<Rightarrow> u64 set \<Rightarrow> ('e scheduled option \<times> 'e scheduled list) option" where
  "pop_live heap live =
     (case heap_pop heap of None \<Rightarrow> Some (None, heap)
      | Some (x, heap) \<Rightarrow> if sd_id x \<in> live then Some (Some x, heap) else pop_live heap live)"

definition sched_pop :: "'e scheduler \<Rightarrow> ('e scheduled option \<times> 'e scheduler) option" where
  "sched_pop s =
     (case pop_live (sr_heap s) (sr_live s) of None \<Rightarrow> None
      | Some (None, heap) \<Rightarrow> Some (None, s\<lparr>sr_heap := heap\<rparr>)
      | Some (Some x, heap) \<Rightarrow> Some (Some x, s\<lparr>sr_heap := heap, sr_live := sr_live s - {sd_id x}, sr_now := sd_time x\<rparr>))"

definition sched_len :: "'e scheduler \<Rightarrow> nat" where
  "sched_len s = card (sr_live s)"

definition sched_is_empty :: "'e scheduler \<Rightarrow> bool" where
  "sched_is_empty s = (sr_live s = {})"

definition sched_iter :: "'e scheduler \<Rightarrow> 'e scheduled list" where
  "sched_iter s = filter (\<lambda>x. sd_id x \<in> sr_live s) (sr_heap s)"

section \<open>The specification: a queue that removes at once\<close>

text \<open>
  The same operations on the list of live items in their order, from which a cancelled item goes at once: what the
  scheduler promises while it keeps tombstones.
\<close>

record 'e eager =
  eg_now :: duration
  eg_next :: u64
  eg_queue :: "'e scheduled list"

definition eager_new :: "'e eager" where
  "eager_new = \<lparr>eg_now = 0, eg_next = 0, eg_queue = []\<rparr>"

fun queue_insert :: "'e scheduled \<Rightarrow> 'e scheduled list \<Rightarrow> 'e scheduled list" where
  "queue_insert x [] = [x]"
| "queue_insert x (y # ys) = (if sd_before x y then x # y # ys else y # queue_insert x ys)"

definition eager_at :: "duration \<Rightarrow> 'e \<Rightarrow> 'e eager \<Rightarrow> (schedule_error + u64) \<times> 'e eager" where
  "eager_at time v q =
     (case checked_add (eg_next q) 1 of None \<Rightarrow> (Inl SequenceOverflow, q)
      | Some n \<Rightarrow> (Inr (eg_next q), q\<lparr>eg_next := n,
          eg_queue := queue_insert \<lparr>sd_time = max time (eg_now q), sd_value = v, sd_id = eg_next q\<rparr> (eg_queue q)\<rparr>))"

datatype 'e sched_op = OpAt duration 'e | OpAfter duration 'e | OpCancel u64 | OpPop

datatype 'e sched_res = RScheduled "schedule_error + u64" | RCancelled bool | RPopped "'e scheduled option"

fun eager_step :: "'e sched_op \<Rightarrow> 'e eager \<Rightarrow> 'e sched_res \<times> 'e eager" where
  "eager_step (OpAt t v) q = (case eager_at t v q of (r, q) \<Rightarrow> (RScheduled r, q))"
| "eager_step (OpAfter d v) q =
     (if eg_now q + d \<le> DURATION_MAX then case eager_at (eg_now q + d) v q of (r, q) \<Rightarrow> (RScheduled r, q)
      else (RScheduled (Inl TimeOverflow), q))"
| "eager_step (OpCancel sid) q =
     (RCancelled (sid \<in> sd_id ` set (eg_queue q)), q\<lparr>eg_queue := filter (\<lambda>x. sd_id x \<noteq> sid) (eg_queue q)\<rparr>)"
| "eager_step OpPop q =
     (case eg_queue q of [] \<Rightarrow> (RPopped None, q)
      | x # xs \<Rightarrow> (RPopped (Some x), q\<lparr>eg_queue := xs, eg_now := sd_time x\<rparr>))"

fun sched_step :: "'e sched_op \<Rightarrow> 'e scheduler \<Rightarrow> ('e sched_res \<times> 'e scheduler) option" where
  "sched_step (OpAt t v) s = (case schedule_at t v s of (r, s) \<Rightarrow> Some (RScheduled r, s))"
| "sched_step (OpAfter d v) s = (case schedule_after d v s of (r, s) \<Rightarrow> Some (RScheduled r, s))"
| "sched_step (OpCancel sid) s = (case sched_cancel sid s of (r, s) \<Rightarrow> Some (RCancelled r, s))"
| "sched_step OpPop s = map_option (\<lambda>(r, s). (RPopped r, s)) (sched_pop s)"

fun sched_runs :: "'e sched_op list \<Rightarrow> 'e scheduler \<Rightarrow> ('e sched_res list \<times> 'e scheduler) option" where
  "sched_runs [] s = Some ([], s)"
| "sched_runs (op # ops) s =
     (case sched_step op s of None \<Rightarrow> None
      | Some (r, s) \<Rightarrow> map_option (apfst ((#) r)) (sched_runs ops s))"

fun eager_runs :: "'e sched_op list \<Rightarrow> 'e eager \<Rightarrow> 'e sched_res list \<times> 'e eager" where
  "eager_runs [] q = ([], q)"
| "eager_runs (op # ops) q = (case eager_step op q of (r, q) \<Rightarrow> apfst ((#) r) (eager_runs ops q))"

section \<open>The heap\<close>

lemma sd_before_trans: "sd_before a b \<Longrightarrow> sd_before b c \<Longrightarrow> sd_before a c"
  by (auto simp: sd_before_def)

lemma sd_before_irrefl [simp]: "\<not> sd_before a a"
  by (simp add: sd_before_def)

lemma sd_before_total: "sd_id a \<noteq> sd_id b \<Longrightarrow> sd_before a b \<or> sd_before b a"
  by (auto simp: sd_before_def)

lemma sd_before_weak: "sd_before a c \<Longrightarrow> sd_before a b \<or> sd_before b c"
  by (auto simp: sd_before_def)

lemma heap_top_spec: "heap_top x xs \<in> set (x # xs) \<and> (\<forall>y \<in> set (x # xs). \<not> sd_before y (heap_top x xs))"
proof (induction xs arbitrary: x)
  case (Cons y ys)
  show ?case
  proof (cases "sd_before y x")
    case True
    then show ?thesis using Cons.IH [of y] sd_before_trans [of y x] by auto
  next
    case False
    then show ?thesis using Cons.IH [of x] sd_before_weak [of y _ x] by auto
  qed
qed simp

lemma heap_pop_Some:
  assumes "heap_pop h = Some (x, h')" "distinct (map sd_id h)"
  shows "h' = remove1 x h" "x \<in> set h" "\<forall>y \<in> set h'. sd_before x y"
proof -
  obtain z zs where h: "h = z # zs" using assms(1) by (cases h) auto
  have x: "x = heap_top z zs" "h' = remove1 x h" using assms(1) h by (auto simp: Let_def)
  show "h' = remove1 x h" by (rule x(2))
  show "x \<in> set h" using heap_top_spec [of z zs] h x(1) by simp
  show "\<forall>y \<in> set h'. sd_before x y"
  proof
    fix y assume y: "y \<in> set h'"
    have d: "distinct h" using assms(2) by (simp add: distinct_map)
    then have "y \<in> set h" "y \<noteq> x" using y x(2) by simp_all
    then have "sd_id y \<noteq> sd_id x" using assms(2) \<open>x \<in> set h\<close> by (metis distinct_map inj_onD)
    moreover have "\<not> sd_before y x" using heap_top_spec [of z zs] h x(1) \<open>y \<in> set h\<close> by blast
    ultimately show "sd_before x y" using sd_before_total by blast
  qed
qed

lemma heap_pop_None [simp]: "heap_pop h = None \<longleftrightarrow> h = []"
  by (cases h) (simp_all add: Let_def)

text \<open>
  The loop ends on every heap: with nothing when no item is live, else with the live item that comes before every
  other, and a heap that still holds the others.
\<close>

lemma pop_live_spec:
  assumes "distinct (map sd_id h)"
  shows "\<exists>r h'. pop_live h live = Some (r, h') \<and> distinct (map sd_id h') \<and> set h' \<subseteq> set h \<and>
    (case r of None \<Rightarrow> filter (\<lambda>x. sd_id x \<in> live) h = [] \<and> h' = []
     | Some x \<Rightarrow> x \<in> set h \<and> sd_id x \<in> live \<and> (\<forall>y \<in> set h'. sd_before x y) \<and>
         filter (\<lambda>x. sd_id x \<in> live) h' = remove1 x (filter (\<lambda>x. sd_id x \<in> live) h))"
  using assms
proof (induction "length h" arbitrary: h rule: less_induct)
  case less
  show ?case
  proof (cases "heap_pop h")
    case None
    then show ?thesis by (simp add: pop_live.simps)
  next
    case (Some p)
    obtain x h1 where p: "heap_pop h = Some (x, h1)" using Some by (cases p) simp
    note pop = heap_pop_Some [OF p less.prems]
    have d1: "distinct (map sd_id h1)" using less.prems unfolding pop(1) by (simp add: distinct_map inj_on_def)
    have sub: "set h1 \<subseteq> set h" unfolding pop(1) by (rule set_remove1_subset)
    show ?thesis
    proof (cases "sd_id x \<in> live")
      case True
      then have "pop_live h live = Some (Some x, h1)" using p by (simp add: pop_live.simps)
      moreover have "filter (\<lambda>x. sd_id x \<in> live) h1 = remove1 x (filter (\<lambda>x. sd_id x \<in> live) h)" unfolding pop(1) by (simp add: filter_remove1)
      ultimately show ?thesis using True pop d1 sub by simp
    next
      case False
      have "length h1 < length h" unfolding pop(1) using pop(2) length_pos_if_in_set [OF pop(2)] by (simp add: length_remove1)
      then obtain r h' where r: "pop_live h1 live = Some (r, h')" "distinct (map sd_id h')" "set h' \<subseteq> set h1"
        "case r of None \<Rightarrow> filter (\<lambda>x. sd_id x \<in> live) h1 = [] \<and> h' = []
         | Some x \<Rightarrow> x \<in> set h1 \<and> sd_id x \<in> live \<and> (\<forall>y \<in> set h'. sd_before x y) \<and> filter (\<lambda>x. sd_id x \<in> live) h' = remove1 x (filter (\<lambda>x. sd_id x \<in> live) h1)"
        using less.hyps d1 by blast
      have "pop_live h live = Some (r, h')" using False p r(1) by (simp add: pop_live.simps [of h])
      moreover have "filter (\<lambda>x. sd_id x \<in> live) h1 = filter (\<lambda>x. sd_id x \<in> live) h" unfolding pop(1) using False by (simp add: filter_remove1 remove1_idem)
      ultimately show ?thesis using r sub by (cases r) auto
    qed
  qed
qed

section \<open>The simulation\<close>

definition sched_rel :: "'e scheduler \<Rightarrow> 'e eager \<Rightarrow> bool" where
  "sched_rel s q =
     (eg_now q = sr_now s \<and> eg_next q = sr_next_sequence s \<and> sorted_wrt sd_before (eg_queue q)
      \<and> mset (eg_queue q) = mset (sched_iter s) \<and> sr_live s = sd_id ` set (eg_queue q)
      \<and> distinct (map sd_id (sr_heap s)) \<and> (\<forall>x \<in> set (sr_heap s). sd_id x < sr_next_sequence s)
      \<and> (\<forall>x \<in> set (eg_queue q). sr_now s \<le> sd_time x))"

lemma sched_relD:
  assumes "sched_rel s q"
  shows "eg_now q = sr_now s" "eg_next q = sr_next_sequence s" "sorted_wrt sd_before (eg_queue q)" "mset (eg_queue q) = mset (sched_iter s)"
    "sr_live s = sd_id ` set (eg_queue q)" "distinct (map sd_id (sr_heap s))" "\<forall>x \<in> set (sr_heap s). sd_id x < sr_next_sequence s"
    "\<forall>x \<in> set (eg_queue q). sr_now s \<le> sd_time x"
  using assms unfolding sched_rel_def by blast+

lemma sched_rel_new: "sched_rel scheduler_new eager_new"
  by (simp add: sched_rel_def scheduler_new_def eager_new_def sched_iter_def)

lemma mset_queue_insert [simp]: "mset (queue_insert x q) = add_mset x (mset q)"
  by (induction q) auto

lemma set_queue_insert [simp]: "set (queue_insert x q) = insert x (set q)"
  by (induction q) auto

lemma sorted_queue_insert: "sorted_wrt sd_before q \<Longrightarrow> \<forall>y \<in> set q. sd_id y \<noteq> sd_id x \<Longrightarrow> sorted_wrt sd_before (queue_insert x q)"
proof (induction q)
  case (Cons y q)
  then show ?case using sd_before_total [of x y] by (auto intro: sd_before_trans)
qed simp

lemma rel_queue: "sched_rel s q \<Longrightarrow> set (eg_queue q) = set (sched_iter s)"
  using sched_relD(4) mset_eq_setD by blast

lemma rel_at:
  assumes r: "sched_rel s q"
  shows "\<exists>res s' q'. schedule_at t v s = (res, s') \<and> eager_at t v q = (res, q') \<and> sched_rel s' q'"
proof (cases "checked_add (sr_next_sequence s) 1")
  case None
  then show ?thesis using r sched_relD(2) [OF r] by (simp add: schedule_at_def eager_at_def)
next
  case (Some n)
  note d = sched_relD [OF r]
  let ?x = "\<lparr>sd_time = max t (sr_now s), sd_value = v, sd_id = sr_next_sequence s\<rparr>"
  let ?s = "s\<lparr>sr_next_sequence := n, sr_live := insert (sr_next_sequence s) (sr_live s), sr_heap := ?x # sr_heap s\<rparr>"
  let ?q = "q\<lparr>eg_next := n, eg_queue := queue_insert ?x (eg_queue q)\<rparr>"
  have n: "sr_next_sequence s < n" using Some by (auto simp: checked_add_Some word_less_nat_alt)
  have fresh: "\<forall>y \<in> set (sr_heap s). sd_id y \<noteq> sr_next_sequence s" using d(7) by auto
  then have fq: "\<forall>y \<in> set (eg_queue q). sd_id y \<noteq> sr_next_sequence s" using rel_queue [OF r] by (auto simp: sched_iter_def)
  have "filter (\<lambda>y. sd_id y = sr_next_sequence s \<or> sd_id y \<in> sr_live s) (sr_heap s) = filter (\<lambda>y. sd_id y \<in> sr_live s) (sr_heap s)"
    by (rule filter_cong) (use fresh in auto)
  then have "mset (eg_queue ?q) = mset (sched_iter ?s)" using d(4) by (simp add: sched_iter_def)
  moreover have "sorted_wrt sd_before (eg_queue ?q)" using sorted_queue_insert [OF d(3)] fq by simp
  moreover have "\<forall>x \<in> set (sr_heap s). sd_id x < n" using d(7) n order.strict_trans by blast
  moreover have "sr_next_sequence s \<notin> sd_id ` set (sr_heap s)" using fresh by auto
  ultimately have "sched_rel ?s ?q" unfolding sched_rel_def using d n by auto
  then show ?thesis using Some d(1,2) by (simp add: schedule_at_def eager_at_def Let_def)
qed

lemma rel_cancel:
  assumes r: "sched_rel s q"
  shows "\<exists>s'. sched_cancel sid s = (sid \<in> sd_id ` set (eg_queue q), s') \<and> sched_rel s' (q\<lparr>eg_queue := filter (\<lambda>x. sd_id x \<noteq> sid) (eg_queue q)\<rparr>)"
proof (cases "sid \<in> sr_live s")
  case False
  note d = sched_relD [OF r]
  have "filter (\<lambda>x. sd_id x \<noteq> sid) (eg_queue q) = eg_queue q" using False d(5) by (intro filter_True) auto
  then show ?thesis using False r d(5) by (simp add: sched_cancel_def)
next
  case True
  note d = sched_relD [OF r]
  let ?live = "sr_live s - {sid}"
  obtain heap where c: "sched_cancel sid s = (True, s\<lparr>sr_live := ?live, sr_heap := heap\<rparr>)" "heap = sr_heap s \<or> heap = filter (\<lambda>x. sd_id x \<in> ?live) (sr_heap s)"
    using True by (auto simp: sched_cancel_def Let_def)
  have "filter (\<lambda>x. sd_id x \<in> ?live) heap = filter (\<lambda>x. sd_id x \<noteq> sid) (sched_iter s)" using c(2) by (auto simp: sched_iter_def intro: filter_cong)
  then have "mset (filter (\<lambda>x. sd_id x \<noteq> sid) (eg_queue q)) = mset (filter (\<lambda>x. sd_id x \<in> ?live) heap)" using d(4) by (simp add: mset_filter)
  moreover have "set heap \<subseteq> set (sr_heap s)" "distinct (map sd_id heap)" using c(2) d(6) by (auto simp: distinct_map_filter)
  moreover have "?live = sd_id ` set (filter (\<lambda>x. sd_id x \<noteq> sid) (eg_queue q))" using d(5) by auto
  moreover have "sorted_wrt sd_before (filter (\<lambda>x. sd_id x \<noteq> sid) (eg_queue q))" by (rule sorted_wrt_filter [OF d(3)])
  ultimately have "sched_rel (s\<lparr>sr_live := ?live, sr_heap := heap\<rparr>) (q\<lparr>eg_queue := filter (\<lambda>x. sd_id x \<noteq> sid) (eg_queue q)\<rparr>)"
    using d(1,2,7,8) by (auto simp: sched_rel_def sched_iter_def)
  then show ?thesis using c(1) True d(5) by simp
qed

lemma sorted_first:
  assumes "sorted_wrt sd_before q" "x \<in> set q" "\<forall>y \<in> set q. y = x \<or> sd_before x y"
  shows "\<exists>q'. q = x # q'"
proof (cases q)
  case (Cons z q')
  then have "z = x" using assms sd_before_trans [of x z x] by auto
  then show ?thesis using Cons by simp
qed (use assms(2) in simp)

lemma rel_pop:
  assumes r: "sched_rel s q"
  shows "\<exists>res s' q'. sched_pop s = Some (res, s') \<and> eager_step OpPop q = (RPopped res, q') \<and> sched_rel s' q'"
proof -
  note d = sched_relD [OF r]
  obtain res h' where p: "pop_live (sr_heap s) (sr_live s) = Some (res, h')" "distinct (map sd_id h')" "set h' \<subseteq> set (sr_heap s)"
    "case res of None \<Rightarrow> sched_iter s = [] \<and> h' = []
     | Some x \<Rightarrow> x \<in> set (sr_heap s) \<and> sd_id x \<in> sr_live s \<and> (\<forall>y \<in> set h'. sd_before x y) \<and>
         filter (\<lambda>x. sd_id x \<in> sr_live s) h' = remove1 x (sched_iter s)"
    using pop_live_spec [OF d(6), of "sr_live s"] unfolding sched_iter_def by blast
  show ?thesis
  proof (cases res)
    case None
    then have "eg_queue q = []" "h' = []" using p(4) d(4) by simp_all
    moreover have "sr_live s = {}" using calculation(1) d(5) by simp
    ultimately show ?thesis using p(1) None d by (simp add: sched_pop_def sched_rel_def sched_iter_def)
  next
    case (Some x)
    then have x: "x \<in> set (sched_iter s)" "\<forall>y \<in> set h'. sd_before x y" "filter (\<lambda>x. sd_id x \<in> sr_live s) h' = remove1 x (sched_iter s)"
      using p(4) by (simp_all add: sched_iter_def)
    have dq: "distinct (sched_iter s)" using d(6) by (simp add: sched_iter_def distinct_map)
    have first: "\<forall>y \<in> set (eg_queue q). y = x \<or> sd_before x y"
    proof
      fix y assume "y \<in> set (eg_queue q)"
      then have "y \<in> set (sched_iter s)" using rel_queue [OF r] by simp
      then have "y = x \<or> y \<in> set (remove1 x (sched_iter s))" using dq by auto
      then show "y = x \<or> sd_before x y" using x(2) unfolding x(3) [symmetric] by auto
    qed
    obtain q' where q: "eg_queue q = x # q'" using sorted_first [OF d(3) _ first] x(1) rel_queue [OF r] by blast
    let ?s = "s\<lparr>sr_heap := h', sr_live := sr_live s - {sd_id x}, sr_now := sd_time x\<rparr>"
    have ids: "\<forall>y \<in> set h'. sd_id y \<noteq> sd_id x"
    proof
      fix y assume y: "y \<in> set h'"
      then have "y \<noteq> x" using x(2) by auto
      then show "sd_id y \<noteq> sd_id x" using y p(3) x(1) d(6) by (auto simp: sched_iter_def distinct_map inj_on_def)
    qed
    have "sched_iter ?s = remove1 x (sched_iter s)" unfolding x(3) [symmetric] using ids by (auto simp: sched_iter_def intro: filter_cong)
    then have "mset (sched_iter ?s) = mset (eg_queue q) - {#x#}" using d(4) by (simp add: mset_remove1)
    then have "mset q' = mset (sched_iter ?s)" using q by simp
    moreover have "\<forall>y \<in> set q'. sd_id y \<noteq> sd_id x"
    proof
      fix y assume y: "y \<in> set q'"
      then have "y \<noteq> x" "y \<in> set (eg_queue q)" using d(3) q by auto
      then show "sd_id y \<noteq> sd_id x" using rel_queue [OF r] x(1) d(6) by (auto simp: sched_iter_def distinct_map inj_on_def)
    qed
    then have "sr_live s - {sd_id x} = sd_id ` set q'" using d(5) q by auto
    moreover have "\<forall>y \<in> set q'. sd_time x \<le> sd_time y" using d(3) q by (auto simp: sd_before_def)
    ultimately have "sched_rel ?s (q\<lparr>eg_queue := q', eg_now := sd_time x\<rparr>)" using d(2,3,7) q p(2,3) by (auto simp: sched_rel_def)
    then show ?thesis using p(1) Some q by (simp add: sched_pop_def)
  qed
qed

lemma rel_step:
  assumes r: "sched_rel s q"
  shows "\<exists>res s' q'. sched_step op s = Some (res, s') \<and> eager_step op q = (res, q') \<and> sched_rel s' q'"
proof (cases op)
  case (OpAt t v)
  then show ?thesis using rel_at [OF r, of t v] by auto
next
  case (OpAfter t v)
  then show ?thesis using rel_at [OF r, of "sr_now s + t" v] sched_relD(1) [OF r] r by (auto simp: schedule_after_def duration_checked_add_def)
next
  case (OpCancel i)
  then show ?thesis using rel_cancel [OF r, of i] by auto
next
  case OpPop
  then show ?thesis using rel_pop [OF r] by auto
qed

lemma rel_runs: "sched_rel s q \<Longrightarrow> \<exists>res s' q'. sched_runs ops s = Some (res, s') \<and> eager_runs ops q = (res, q') \<and> sched_rel s' q'"
proof (induction ops arbitrary: s q)
  case (Cons op ops)
  obtain r s1 q1 where 1: "sched_step op s = Some (r, s1)" "eager_step op q = (r, q1)" "sched_rel s1 q1" using rel_step [OF Cons.prems] by blast
  obtain rs s2 q2 where "sched_runs ops s1 = Some (rs, s2)" "eager_runs ops q1 = (rs, q2)" "sched_rel s2 q2" using Cons.IH [OF 1(3)] by blast
  then show ?case using 1 by simp
qed simp

section \<open>What the scheduler promises\<close>

text \<open>C11. Tombstones are never seen: over any sequence of scheduling, cancelling and popping, the scheduler answers every
  call exactly as a queue that removes a cancelled item at once and keeps its items in the order of their time
  and, at the same time, of their sequence. Every call returns, the loop of \<open>pop\<close> included.
\<close>

theorem scheduler_implements_queue:
  "\<exists>s. sched_runs ops scheduler_new = Some (fst (eager_runs ops eager_new), s) \<and>
       sr_now s = eg_now (snd (eager_runs ops eager_new)) \<and> mset (sched_iter s) = mset (eg_queue (snd (eager_runs ops eager_new)))"
  using rel_runs [OF sched_rel_new, of ops] sched_relD(1,4) by fastforce

fun popped :: "'e sched_res list \<Rightarrow> 'e scheduled list" where
  "popped [] = []"
| "popped (RPopped (Some x) # rs) = x # popped rs"
| "popped (_ # rs) = popped rs"

text \<open>What lies behind: at or before now, an older sequence, before every queued item.\<close>

definition behind :: "'e scheduled \<Rightarrow> 'e eager \<Rightarrow> bool" where
  "behind x q = (sd_time x \<le> eg_now q \<and> sd_id x < eg_next q \<and> (\<forall>y \<in> set (eg_queue q). sd_before x y))"

definition eager_ok :: "'e eager \<Rightarrow> bool" where
  "eager_ok q = (sorted_wrt sd_before (eg_queue q) \<and> (\<forall>x \<in> set (eg_queue q). eg_now q \<le> sd_time x \<and> sd_id x < eg_next q))"

lemma eager_at_ok:
  assumes "eager_ok q" "eager_at t v q = (r, q')"
  shows "eager_ok q' \<and> (\<forall>x. behind x q \<longrightarrow> behind x q')"
proof (cases "checked_add (eg_next q) 1")
  case (Some n)
  then have n: "eg_next q < n" by (auto simp: checked_add_Some word_less_nat_alt)
  let ?x = "\<lparr>sd_time = max t (eg_now q), sd_value = v, sd_id = eg_next q\<rparr>"
  have q': "q' = q\<lparr>eg_next := n, eg_queue := queue_insert ?x (eg_queue q)\<rparr>" using assms(2) Some by (simp add: eager_at_def)
  have "sorted_wrt sd_before (queue_insert ?x (eg_queue q))" using assms(1) by (intro sorted_queue_insert) (auto simp: eager_ok_def)
  moreover have "\<forall>y. sd_id y < eg_next q \<longrightarrow> sd_id y < n" using n order.strict_trans by blast
  ultimately show ?thesis using assms(1) n unfolding q' by (auto simp: eager_ok_def behind_def sd_before_def)
qed (use assms in \<open>simp add: eager_at_def\<close>)

lemma eager_step_ok:
  assumes ok: "eager_ok q" and st: "eager_step op q = (r, q')"
  shows "eager_ok q' \<and> (\<forall>x. behind x q \<longrightarrow> behind x q' \<and> list_all (sd_before x) (popped [r])) \<and> list_all (\<lambda>x. behind x q') (popped [r])"
proof (cases op)
  case (OpAt t v)
  then show ?thesis using eager_at_ok [OF ok] st by (auto split: prod.splits)
next
  case (OpAfter t v)
  then show ?thesis using eager_at_ok [OF ok] st ok by (auto split: prod.splits if_splits)
next
  case (OpCancel i)
  then show ?thesis using ok st by (auto simp: eager_ok_def behind_def sorted_wrt_filter)
next
  case OpPop
  show ?thesis
  proof (cases "eg_queue q")
    case Nil
    then show ?thesis using ok st OpPop by auto
  next
    case (Cons x xs)
    then have "r = RPopped (Some x)" "q' = q\<lparr>eg_queue := xs, eg_now := sd_time x\<rparr>" using st OpPop by auto
    then show ?thesis using ok Cons by (auto simp: eager_ok_def behind_def sd_before_def)
  qed
qed

lemma popped_Cons: "popped (r # rs) = popped [r] @ popped rs"
  by (cases r; (cases "case r of RPopped x \<Rightarrow> x | _ \<Rightarrow> None")?) (auto split: option.splits)

lemma eager_runs_ok:
  "eager_ok q \<Longrightarrow> sorted_wrt sd_before (popped (fst (eager_runs ops q))) \<and> (\<forall>x. behind x q \<longrightarrow> list_all (sd_before x) (popped (fst (eager_runs ops q))))"
proof (induction ops arbitrary: q)
  case (Cons op ops)
  obtain r q1 where 1: "eager_step op q = (r, q1)" by (cases "eager_step op q")
  note st = eager_step_ok [OF Cons.prems 1]
  have "length (popped [r]) \<le> 1" by (cases r; (cases "case r of RPopped x \<Rightarrow> x | _ \<Rightarrow> None")?) (auto split: option.splits)
  then have "popped [r] = [] \<or> (\<exists>x. popped [r] = [x])" by (cases "popped [r]") auto
  then show ?case using st Cons.IH [of q1] 1 popped_Cons [of r "fst (eager_runs ops q1)"] by (auto simp: list_all_iff sorted_wrt_append)
qed simp

text \<open>C12. Logical time never runs back and ties break in scheduling order: over any run, whatever is scheduled (also in
  the past) and cancelled between the pops, the items come out in strictly increasing order of time and sequence.
\<close>

theorem pops_in_order: "sorted_wrt sd_before (popped (fst (the (sched_runs ops scheduler_new))))"
proof -
  have "eager_ok eager_new" by (simp add: eager_ok_def eager_new_def)
  then show ?thesis using eager_runs_ok [of eager_new ops] rel_runs [OF sched_rel_new, of ops] by fastforce
qed


end
