(* ===== verification/Disk_Bits.thy ===== *)
theory Disk_Bits
  imports Prelude
begin

text \<open>
  The sets of sectors of the simulated disk (\<open>SectorBitSet\<close> in \<open>crates/moonpool-sim/src/storage/image.rs\<close>): one bit
  per sector in words of 64, with out-of-range sectors unset and ignored. The locale \<open>sector_set\<close> is what the
  image relies on: membership after each operation, and after a loop of them.
\<close>

section \<open>The bitset\<close>

definition div_ceil :: "nat \<Rightarrow> nat \<Rightarrow> nat" where
  "div_ceil n d = n div d + (if n mod d = 0 then 0 else 1)"

record sector_bits =
  sb_bits :: "u64 list"
  sb_len :: nat

definition bits_new :: "nat \<Rightarrow> sector_bits" where
  "bits_new n = \<lparr>sb_bits = replicate (div_ceil n 64) 0, sb_len = n\<rparr>"

definition bits_set :: "nat \<Rightarrow> sector_bits \<Rightarrow> sector_bits" where
  "bits_set s b =
     (if s < sb_len b then b\<lparr>sb_bits := (sb_bits b)[s div 64 := sb_bits b ! (s div 64) OR push_bit (s mod 64) 1]\<rparr> else b)"

definition bits_clear :: "nat \<Rightarrow> sector_bits \<Rightarrow> sector_bits" where
  "bits_clear s b =
     (if s < sb_len b then b\<lparr>sb_bits := (sb_bits b)[s div 64 := sb_bits b ! (s div 64) AND NOT (push_bit (s mod 64) 1)]\<rparr> else b)"

definition bits_is_set :: "sector_bits \<Rightarrow> nat \<Rightarrow> bool" where
  "bits_is_set b s = (s < sb_len b \<and> sb_bits b ! (s div 64) AND push_bit (s mod 64) 1 \<noteq> 0)"

definition bits_any_in :: "nat \<Rightarrow> nat \<Rightarrow> sector_bits \<Rightarrow> bool" where
  "bits_any_in lo hi b = list_ex (bits_is_set b) [lo..<hi]"

definition bits_clear_all :: "sector_bits \<Rightarrow> sector_bits" where
  "bits_clear_all b = b\<lparr>sb_bits := map (\<lambda>_. 0) (sb_bits b)\<rparr>"

definition bits_resized :: "nat \<Rightarrow> sector_bits \<Rightarrow> sector_bits" where
  "bits_resized n b = fold (\<lambda>s r. if bits_is_set b s then bits_set s r else r) [0..<min (sb_len b) n] (bits_new n)"

section \<open>The contract\<close>

locale sector_set =
  fixes ok :: "'b \<Rightarrow> bool"
    and len :: "'b \<Rightarrow> nat"
    and is_set :: "'b \<Rightarrow> nat \<Rightarrow> bool"
    and ins :: "nat \<Rightarrow> 'b \<Rightarrow> 'b"
    and del :: "nat \<Rightarrow> 'b \<Rightarrow> 'b"
  assumes ins_ok: "ok b \<Longrightarrow> ok (ins s b)" and del_ok: "ok b \<Longrightarrow> ok (del s b)"
    and ins_len: "len (ins s b) = len b" and del_len: "len (del s b) = len b"
    and ins_is: "ok b \<Longrightarrow> is_set (ins s b) t \<longleftrightarrow> is_set b t \<or> t = s \<and> s < len b"
    and del_is: "ok b \<Longrightarrow> is_set (del s b) t \<longleftrightarrow> is_set b t \<and> t \<noteq> s"
    and is_len: "is_set b t \<Longrightarrow> t < len b"
begin

lemma fold_ins: "ok b \<Longrightarrow> ok (fold ins ss b) \<and> len (fold ins ss b) = len b \<and> (\<forall>t. is_set (fold ins ss b) t \<longleftrightarrow> is_set b t \<or> t \<in> set ss \<and> t < len b)"
proof (induction ss arbitrary: b)
  case (Cons s ss)
  then show ?case using Cons.IH [of "ins s b"] ins_ok [of b s] ins_is [of b s] by (auto simp: ins_len)
qed simp

lemma fold_del: "ok b \<Longrightarrow> ok (fold del ss b) \<and> len (fold del ss b) = len b \<and> (\<forall>t. is_set (fold del ss b) t \<longleftrightarrow> is_set b t \<and> t \<notin> set ss)"
proof (induction ss arbitrary: b)
  case (Cons s ss)
  then show ?case using Cons.IH [of "del s b"] del_ok [of b s] del_is [of b s] by (auto simp: del_len)
qed simp

lemma fold_ins_if:
  "ok b \<Longrightarrow> ok (fold (\<lambda>s r. if P s then ins s r else r) ss b) \<and> len (fold (\<lambda>s r. if P s then ins s r else r) ss b) = len b \<and>
     (\<forall>t. is_set (fold (\<lambda>s r. if P s then ins s r else r) ss b) t \<longleftrightarrow> is_set b t \<or> t \<in> set ss \<and> P t \<and> t < len b)"
proof (induction ss arbitrary: b)
  case (Cons s ss)
  then show ?case using Cons.IH [of b] Cons.IH [of "ins s b"] ins_ok [of b s] ins_is [of b s] by (auto simp: ins_len)
qed simp

end

section \<open>The bitset meets it\<close>

definition bits_ok :: "sector_bits \<Rightarrow> bool" where
  "bits_ok b = (length (sb_bits b) = div_ceil (sb_len b) 64)"

lemma div_ceil_le: "0 < d \<Longrightarrow> s < n \<Longrightarrow> s div d < div_ceil n d"
proof -
  assume d: "0 < d" and s: "s < n"
  have "s div d \<le> n div d" using s by (simp add: div_le_mono)
  moreover have "s div d \<noteq> n div d" if "n mod d = 0" using that s d by (metis add.right_neutral div_mult_mod_eq less_le_not_le mult.commute mult_le_mono1 times_div_less_eq_dividend)
  ultimately show ?thesis by (auto simp: div_ceil_def)
qed

lemma word_bit: "w AND push_bit k 1 \<noteq> 0 \<longleftrightarrow> bit w k" for w :: "'a::len word"
  by (metis and_exp_eq_0_iff_not_bit push_bit_eq_mult mult_1)

lemma bits_is_set_bit: "bits_is_set b s \<longleftrightarrow> s < sb_len b \<and> bit (sb_bits b ! (s div 64)) (s mod 64)"
  unfolding bits_is_set_def word_bit ..

interpretation sb: sector_set bits_ok sb_len bits_is_set bits_set bits_clear
proof
  fix b :: sector_bits and s t :: nat
  assume ok: "bits_ok b"
  have at: "s < sb_len b \<Longrightarrow> s div 64 < length (sb_bits b)" for s using ok div_ceil_le [of 64] by (simp add: bits_ok_def)
  have eq: "s div 64 = t div 64 \<and> s mod 64 = t mod 64 \<longleftrightarrow> s = t" by (metis div_mult_mod_eq)
  show "bits_ok (bits_set s b)" "bits_ok (bits_clear s b)" using ok by (simp_all add: bits_ok_def bits_set_def bits_clear_def)
  show "bits_is_set (bits_set s b) t \<longleftrightarrow> bits_is_set b t \<or> t = s \<and> s < sb_len b"
    using at [of s] at [of t] eq by (auto simp: bits_is_set_bit bits_set_def nth_list_update bit_simps)
  show "bits_is_set (bits_clear s b) t \<longleftrightarrow> bits_is_set b t \<and> t \<noteq> s"
    using at [of s] at [of t] eq by (auto simp: bits_is_set_bit bits_clear_def nth_list_update bit_simps)
qed (simp_all add: bits_set_def bits_clear_def bits_is_set_def)

lemma bits_new_ok [simp]: "bits_ok (bits_new n)" "sb_len (bits_new n) = n"
  by (simp_all add: bits_ok_def bits_new_def)

lemma bits_new_empty [simp]: "\<not> bits_is_set (bits_new n) t"
  using div_ceil_le [of 64 t n] by (simp add: bits_is_set_def bits_new_def)

lemma bits_resized_ok [simp]:
  "bits_ok (bits_resized n b)" "sb_len (bits_resized n b) = n" "bits_is_set (bits_resized n b) t \<longleftrightarrow> bits_is_set b t \<and> t < n"
  using sb.fold_ins_if [OF bits_new_ok(1), of "bits_is_set b" "[0..<min (sb_len b) n]" n] sb.is_len [of b t]
  by (auto simp: bits_resized_def)

lemma bits_clear_all_ok [simp]: "bits_ok b \<Longrightarrow> bits_ok (bits_clear_all b)" "sb_len (bits_clear_all b) = sb_len b"
  by (simp_all add: bits_ok_def bits_clear_all_def)

lemma bits_clear_all_empty [simp]: "bits_ok b \<Longrightarrow> \<not> bits_is_set (bits_clear_all b) t"
  using div_ceil_le [of 64 t "sb_len b"] by (auto simp: bits_is_set_def bits_clear_all_def bits_ok_def)

end
