(* ===== verification/Disk_Image.thy ===== *)
theory Disk_Image
  imports Disk_Bits Ordered_Map Complex_Main
begin

text \<open>
  The image of one simulated file (\<open>FileImage\<close> in \<open>crates/moonpool-sim/src/storage/image.rs\<close>, with the parts of
  \<open>faults.rs\<close> it uses): the durable bytes, the bytes reads observe, the sets of dirty, lied-about, stranded and
  faulty sectors, and the oracle that stamps what a sync reported durable.

  Offsets and sectors are natural numbers: a file is shorter than \<open>2 ^ 63\<close> bytes, so that no index saturates. An
  \<open>f64\<close> is a real number. What the simulation draws is a record of the values still to come, of each kind; the
  CRC and the generator \<open>ChaCha8Rng\<close> are parameters.
\<close>

section \<open>What the image is given\<close>

definition SECTOR_SIZE :: nat where "SECTOR_SIZE = 512"

text \<open>\<open>ChaCha8Rng::seed_from_u64\<close>: the bytes it fills a buffer with, and the byte and bit it picks.\<close>

record chacha =
  ch_fill :: "u64 \<Rightarrow> nat \<Rightarrow> u8"
  ch_byte :: "u64 \<Rightarrow> nat \<Rightarrow> nat"
  ch_bit :: "u64 \<Rightarrow> nat \<Rightarrow> nat"

record rng =
  rg_floats :: "real list"
  rg_ranges :: "nat list"
  rg_bools :: "bool list"

definition next_f64 :: "rng \<Rightarrow> real \<times> rng" where
  "next_f64 g = (case rg_floats g of [] \<Rightarrow> (0, g) | x # xs \<Rightarrow> (x, g\<lparr>rg_floats := xs\<rparr>))"

definition next_range :: "nat \<Rightarrow> nat \<Rightarrow> rng \<Rightarrow> nat \<times> rng" where
  "next_range lo hi g = (case rg_ranges g of [] \<Rightarrow> (lo, g) | n # ns \<Rightarrow> (lo + n mod (hi - lo), g\<lparr>rg_ranges := ns\<rparr>))"

definition next_bool :: "rng \<Rightarrow> bool \<times> rng" where
  "next_bool g = (case rg_bools g of [] \<Rightarrow> (False, g) | b # bs \<Rightarrow> (b, g\<lparr>rg_bools := bs\<rparr>))"

record disk_config =
  dc_barrier_violation :: real
  dc_length_survives :: real
  dc_clean_crash :: real
  dc_correlated :: real
  dc_correlated_max_run :: nat
  dc_lost :: real
  dc_latent :: real
  dc_shorn :: real

definition weighted :: "real \<Rightarrow> real \<Rightarrow> real" where
  "weighted probability w = min (probability * w) 1"

datatype eio_target = EioRead | EioWrite | EioReadWrite

datatype crash_outcome = KeptOld | KeptNew | OutcomeLost | LatentFault | Shorn

record sector_resolution =
  re_sector :: nat
  re_outcome :: crash_outcome
  re_correlated :: bool

record crash_report =
  rp_path :: string
  rp_clean :: bool
  rp_resolutions :: "sector_resolution list"
  rp_length_reverted :: bool
  rp_lost_synced :: "nat list"

definition sector_range :: "nat \<Rightarrow> nat \<Rightarrow> nat list" where
  "sector_range offset n = [offset div SECTOR_SIZE..<div_ceil (offset + n) SECTOR_SIZE]"

section \<open>The image\<close>

record fill_pattern =
  fp_garbage :: bool
  fp_seed :: u64

definition fill_sector :: "chacha \<Rightarrow> fill_pattern \<Rightarrow> nat \<Rightarrow> bytes" where
  "fill_sector G f s =
     (if fp_garbage f then map (ch_fill G (fp_seed f + of_nat s)) [0..<SECTOR_SIZE] else replicate SECTOR_SIZE 0)"

record file_image =
  im_committed :: bytes
  im_visible :: bytes
  im_dirty :: sector_bits
  im_lied :: sector_bits
  im_stranded :: sector_bits
  im_faults :: sector_bits
  im_eio_read :: sector_bits
  im_eio_write :: sector_bits
  im_damaged :: sector_bits
  im_oracle :: "(nat, u32 \<times> nat) omap"
  im_fill :: fill_pattern

text \<open>A byte range as its two ends, empty when the sector lies past the limit.\<close>

definition clamp_sector :: "nat \<Rightarrow> nat \<Rightarrow> nat \<times> nat" where
  "clamp_sector s limit = (let start = s * SECTOR_SIZE in if start \<ge> limit then (0, 0) else (start, min (start + SECTOR_SIZE) limit))"

definition shared_bounds :: "file_image \<Rightarrow> nat \<Rightarrow> nat \<times> nat" where
  "shared_bounds im s = clamp_sector s (min (length (im_visible im)) (length (im_committed im)))"

definition committed_bounds :: "file_image \<Rightarrow> nat \<Rightarrow> nat \<times> nat" where
  "committed_bounds im s = clamp_sector s (length (im_committed im))"

definition visible_bounds :: "file_image \<Rightarrow> nat \<Rightarrow> nat \<times> nat" where
  "visible_bounds im s = clamp_sector s (length (im_visible im))"

text \<open>Copying a range of one buffer over the same range of another; \<open>Vec::resize\<close> with zeros.\<close>

definition copy_range :: "nat \<times> nat \<Rightarrow> bytes \<Rightarrow> bytes \<Rightarrow> bytes" where
  "copy_range r src dst = put_at (fst r) (bslice (fst r) (snd r - fst r) src) dst"

definition vec_resize :: "nat \<Rightarrow> bytes \<Rightarrow> bytes" where
  "vec_resize n xs = take n xs @ replicate (n - length xs) 0"

definition fill_extension :: "chacha \<Rightarrow> nat \<Rightarrow> fill_pattern \<Rightarrow> bytes \<Rightarrow> bytes" where
  "fill_extension G old_len f img =
     fold (\<lambda>s img.
       let start = max (s * SECTOR_SIZE) old_len; stop = min ((s + 1) * SECTOR_SIZE) (length img) in
       if start \<ge> stop then img
       else put_at start (bslice (start - s * SECTOR_SIZE) (stop - start) (fill_sector G f s)) img)
       [old_len div SECTOR_SIZE..<div_ceil (length img) SECTOR_SIZE] img"

definition image_size :: "file_image \<Rightarrow> nat" where
  "image_size im = length (im_visible im)"

definition durable_size :: "file_image \<Rightarrow> nat" where
  "durable_size im = length (im_committed im)"

definition image_sectors :: "file_image \<Rightarrow> nat" where
  "image_sectors im = div_ceil (image_size im) SECTOR_SIZE"

definition resize_bitsets :: "nat \<Rightarrow> file_image \<Rightarrow> file_image" where
  "resize_bitsets n im =
     im\<lparr>im_dirty := bits_resized n (im_dirty im), im_lied := bits_resized n (im_lied im), im_stranded := bits_resized n (im_stranded im),
       im_faults := bits_resized n (im_faults im), im_eio_read := bits_resized n (im_eio_read im),
       im_eio_write := bits_resized n (im_eio_write im), im_damaged := bits_resized n (im_damaged im)\<rparr>"

definition resize_visible :: "chacha \<Rightarrow> nat \<Rightarrow> file_image \<Rightarrow> file_image" where
  "resize_visible G new_len im =
     (let old_len = length (im_visible im);
          im = resize_bitsets (div_ceil new_len SECTOR_SIZE) (im\<lparr>im_visible := vec_resize new_len (im_visible im)\<rparr>) in
      if new_len \<le> old_len then im
      else im\<lparr>im_visible := fill_extension G old_len (im_fill im) (im_visible im),
              im_dirty := fold bits_set (sector_range old_len (new_len - old_len)) (im_dirty im),
              im_stranded := fold bits_clear (sector_range old_len (new_len - old_len)) (im_stranded im)\<rparr>)"

definition image_new :: "chacha \<Rightarrow> nat \<Rightarrow> u64 \<Rightarrow> bool \<Rightarrow> file_image" where
  "image_new G sz seed garbage_fill =
     (let im = \<lparr>im_committed = [], im_visible = [], im_dirty = bits_new 0, im_lied = bits_new 0, im_stranded = bits_new 0,
               im_faults = bits_new 0, im_eio_read = bits_new 0, im_eio_write = bits_new 0, im_damaged = bits_new 0,
               im_oracle = [], im_fill = \<lparr>fp_garbage = garbage_fill, fp_seed = seed\<rparr>\<rparr>;
          im = resize_visible G sz im in
      im\<lparr>im_committed := im_visible im, im_dirty := bits_clear_all (im_dirty im)\<rparr>)"

section \<open>Reads and writes\<close>

definition read_fails :: "file_image \<Rightarrow> nat \<Rightarrow> nat \<Rightarrow> bool" where
  "read_fails im lo hi = bits_any_in lo hi (im_eio_read im)"

definition write_fails :: "file_image \<Rightarrow> nat \<Rightarrow> nat \<Rightarrow> bool" where
  "write_fails im lo hi = bits_any_in lo hi (im_eio_write im)"

text \<open>One bit of the buffer is flipped, picked by a generator seeded with the sector's first bytes.\<close>

definition corrupt_in_place :: "chacha \<Rightarrow> bytes \<Rightarrow> bytes \<Rightarrow> bytes" where
  "corrupt_in_place G pristine buf =
     (if buf = [] then buf
      else let n = min (length pristine) 8;
               seed = (from_le_bytes (take n pristine @ replicate (8 - n) 0) :: u64);
               byte = ch_byte G seed (length buf) mod length buf;
               b = ch_bit G seed (length buf) mod 8
           in buf[byte := buf ! byte XOR push_bit b 1])"

datatype image_error = PastEnd

definition image_read :: "chacha \<Rightarrow> file_image \<Rightarrow> nat \<Rightarrow> nat \<Rightarrow> image_error + bytes" where
  "image_read G im offset n =
     (if offset + n > image_size im then Inl PastEnd
      else Inr (fold (\<lambda>s buf.
        if \<not> bits_is_set (im_faults im) s then buf
        else let sector_start = s * SECTOR_SIZE; lo = max sector_start offset; hi = min (sector_start + SECTOR_SIZE) (offset + n) in
          if lo \<ge> hi then buf
          else case visible_bounds im s of (a, b) \<Rightarrow>
            put_at (lo - offset) (corrupt_in_place G (bslice a (b - a) (im_visible im)) (bslice (lo - offset) (hi - lo) buf)) buf)
        (sector_range offset n) (bslice offset n (im_visible im))))"

definition image_write :: "chacha \<Rightarrow> nat \<Rightarrow> bytes \<Rightarrow> file_image \<Rightarrow> bool \<times> file_image" where
  "image_write G offset data im =
     (let stop = offset + length data;
          im = (if stop > image_size im then resize_visible G stop im else im);
          im = im\<lparr>im_visible := put_at offset data (im_visible im)\<rparr>;
          ss = sector_range offset (length data) in
      (list_ex (bits_is_set (im_damaged im)) ss,
       im\<lparr>im_damaged := fold bits_clear ss (im_damaged im), im_dirty := fold bits_set ss (im_dirty im),
         im_faults := fold bits_clear ss (im_faults im), im_lied := fold bits_clear ss (im_lied im),
         im_stranded := fold bits_clear ss (im_stranded im), im_oracle := fold (\<lambda>s m. snd (om_remove s m)) ss (im_oracle im)\<rparr>))"

definition narrow_tail_stamp :: "(bytes \<Rightarrow> u32) \<Rightarrow> nat \<Rightarrow> file_image \<Rightarrow> file_image" where
  "narrow_tail_stamp crc new_len im =
     (let s = new_len div SECTOR_SIZE; start = s * SECTOR_SIZE; surviving = new_len - start in
      case om_get (im_oracle im) s of None \<Rightarrow> im
      | Some (_, stamped_len) \<Rightarrow>
        if surviving \<ge> stamped_len then im
        else im\<lparr>im_oracle := snd (om_insert s (crc (bslice start surviving (im_visible im)), surviving) (im_oracle im))\<rparr>)"

definition set_len :: "chacha \<Rightarrow> (bytes \<Rightarrow> u32) \<Rightarrow> nat \<Rightarrow> file_image \<Rightarrow> file_image" where
  "set_len G crc new_len im =
     (let old_len = image_size im; old_sectors = image_sectors im;
          im = resize_visible G new_len im;
          im = im\<lparr>im_oracle := fold (\<lambda>s m. snd (om_remove s m)) [image_sectors im..<old_sectors] (im_oracle im)\<rparr> in
      if new_len < old_len then narrow_tail_stamp crc new_len im else im)"

section \<open>Syncs and failed writebacks\<close>

definition dirty_sectors :: "file_image \<Rightarrow> nat list" where
  "dirty_sectors im = filter (bits_is_set (im_dirty im)) [0..<image_sectors im]"

definition is_flushable :: "file_image \<Rightarrow> nat \<Rightarrow> bool" where
  "is_flushable im s = (bits_is_set (im_dirty im) s \<and> \<not> bits_is_set (im_stranded im) s)"

definition flushable_sectors :: "file_image \<Rightarrow> nat list" where
  "flushable_sectors im = filter (is_flushable im) [0..<image_sectors im]"

definition has_flushable :: "file_image \<Rightarrow> bool" where
  "has_flushable im = list_ex (is_flushable im) [0..<image_sectors im]"

definition protected_prefix :: "file_image \<Rightarrow> nat \<Rightarrow> nat" where
  "protected_prefix im s =
     (if bits_is_set (im_lied im) s then 0 else case om_get (im_oracle im) s of None \<Rightarrow> 0 | Some (_, n) \<Rightarrow> n)"

text \<open>One sector of a sync: stamped, then left volatile by a lie or made durable.\<close>

definition sync_sector :: "(bytes \<Rightarrow> u32) \<Rightarrow> bool \<Rightarrow> nat \<Rightarrow> file_image \<Rightarrow> file_image" where
  "sync_sector crc lie s im =
     (case visible_bounds im s of (a, b) \<Rightarrow>
        let im = im\<lparr>im_oracle := snd (om_insert s (crc (bslice a (b - a) (im_visible im)), b - a) (im_oracle im))\<rparr> in
        if lie then im\<lparr>im_lied := bits_set s (im_lied im)\<rparr>
        else im\<lparr>im_committed := copy_range (a, b) (im_visible im) (im_committed im), im_dirty := bits_clear s (im_dirty im),
               im_lied := bits_clear s (im_lied im)\<rparr>)"

fun sync_loop :: "(bytes \<Rightarrow> u32) \<Rightarrow> disk_config \<Rightarrow> (nat \<Rightarrow> real) \<Rightarrow> nat list \<Rightarrow> file_image \<Rightarrow> rng \<Rightarrow> nat list \<times> file_image \<times> rng" where
  "sync_loop crc c w [] im g = ([], im, g)"
| "sync_loop crc c w (s # ss) im g =
     (let (lie, g) = (if dc_barrier_violation c > 0
                      then case next_f64 g of (x, g) \<Rightarrow> (x < weighted (dc_barrier_violation c) (w s), g) else (False, g));
          (lied, im, g) = sync_loop crc c w ss (sync_sector crc lie s im) g
      in (if lie then s # lied else lied, im, g))"

definition image_sync ::
  "(bytes \<Rightarrow> u32) \<Rightarrow> disk_config \<Rightarrow> (nat \<Rightarrow> real) \<Rightarrow> file_image \<Rightarrow> rng \<Rightarrow> nat list \<times> file_image \<times> rng" where
  "image_sync crc c w im g =
     (let im = im\<lparr>im_committed := vec_resize (length (im_visible im)) (im_committed im)\<rparr> in
      sync_loop crc c w (flushable_sectors im) im g)"

definition fail_sector :: "bool \<Rightarrow> nat \<Rightarrow> file_image \<Rightarrow> file_image" where
  "fail_sector revert s im =
     (let shared = shared_bounds im s; whole = fst shared < snd shared \<and> shared = visible_bounds im s in
      if revert \<and> whole \<and> \<not> bits_is_set (im_lied im) s
      then im\<lparr>im_visible := copy_range shared (im_committed im) (im_visible im), im_dirty := bits_clear s (im_dirty im)\<rparr>
      else im\<lparr>im_stranded := bits_set s (im_stranded im)\<rparr>)"

definition fail_writeback :: "bool \<Rightarrow> file_image \<Rightarrow> nat list \<times> file_image" where
  "fail_writeback revert im = (flushable_sectors im, fold (fail_sector revert) (flushable_sectors im) im)"

definition drop_sector :: "chacha \<Rightarrow> nat \<Rightarrow> file_image \<Rightarrow> file_image" where
  "drop_sector G s im =
     (let shared = shared_bounds im s; visible = visible_bounds im s; fill = fill_sector G (im_fill im) s;
          new = map (\<lambda>pos. if fst shared \<le> pos \<and> pos < snd shared then im_committed im ! pos else fill ! (pos - fst visible)) [fst visible..<snd visible];
          im = im\<lparr>im_visible := put_at (fst visible) new (im_visible im), im_stranded := bits_clear s (im_stranded im)\<rparr> in
      if shared = visible then im\<lparr>im_dirty := bits_clear s (im_dirty im)\<rparr> else im)"

definition drop_cache :: "chacha \<Rightarrow> file_image \<Rightarrow> nat list \<times> file_image" where
  "drop_cache G im =
     (let dropped = filter (bits_is_set (im_stranded im)) [0..<image_sectors im] in (dropped, fold (drop_sector G) dropped im))"

section \<open>Crashes\<close>

definition commit_sector :: "nat \<Rightarrow> file_image \<Rightarrow> file_image" where
  "commit_sector s im =
     (let r = shared_bounds im s;
          im = (if fst r < snd r then im\<lparr>im_committed := copy_range r (im_visible im) (im_committed im)\<rparr> else im) in
      im\<lparr>im_dirty := bits_clear s (im_dirty im), im_lied := bits_clear s (im_lied im)\<rparr>)"

definition forget_sector :: "nat \<Rightarrow> file_image \<Rightarrow> file_image" where
  "forget_sector s im = im\<lparr>im_dirty := bits_clear s (im_dirty im), im_lied := bits_clear s (im_lied im)\<rparr>"

definition damage_sector :: "nat \<Rightarrow> file_image \<Rightarrow> file_image" where
  "damage_sector s im = im\<lparr>im_damaged := bits_set s (im_damaged im)\<rparr>"

fun apply_outcome :: "chacha \<Rightarrow> nat \<Rightarrow> crash_outcome \<Rightarrow> file_image \<Rightarrow> rng \<Rightarrow> crash_outcome \<times> file_image \<times> rng" where
  "apply_outcome G s KeptOld im g = (KeptOld, forget_sector s im, g)"
| "apply_outcome G s KeptNew im g = (KeptNew, commit_sector s im, g)"
| "apply_outcome G s LatentFault im g =
     (let im = commit_sector s im in (LatentFault, damage_sector s (im\<lparr>im_faults := bits_set s (im_faults im)\<rparr>), g))"
| "apply_outcome G s OutcomeLost im g =
     (let r = committed_bounds im s; start = min (fst r + protected_prefix im s) (snd r);
          im = (if start < snd r
                then im\<lparr>im_committed := put_at start (bslice (start - fst r) (snd r - start) (fill_sector G (im_fill im) s)) (im_committed im)\<rparr>
                else im) in
      (OutcomeLost, damage_sector s (forget_sector s im), g))"
| "apply_outcome G s Shorn im g =
     (let r = shared_bounds im s in
      if snd r - fst r \<le> 1 then (KeptOld, forget_sector s im, g)
      else let (split, g) = next_range 1 (snd r - fst r) g; (prefix_new, g) = next_bool g;
               kept = (if prefix_new then (fst r, fst r + split) else (fst r + split, snd r)) in
        (Shorn, damage_sector s (forget_sector s (im\<lparr>im_committed := copy_range kept (im_visible im) (im_committed im)\<rparr>)), g))"

definition EPSILON :: real where "EPSILON = 1 / 2 ^ 52"

definition choose_outcome ::
  "disk_config \<Rightarrow> nat \<Rightarrow> bool \<Rightarrow> bool \<Rightarrow> bool \<Rightarrow> (nat \<Rightarrow> real) \<Rightarrow> rng \<Rightarrow> crash_outcome \<times> rng" where
  "choose_outcome c s lied in_window protected w g =
     (if in_window \<or> lied then (KeptOld, g)
      else let (roll, g) = next_f64 g;
               damaging_total = dc_lost c + dc_latent c + dc_shorn c;
               scale = (if damaging_total > 0 then min (w s) (1 / damaging_total) else 0);
               lost_at = dc_lost c * scale; latent_at = lost_at + dc_latent c * scale; shorn_at = latent_at + dc_shorn c * scale in
        if roll < lost_at then (OutcomeLost, g)
        else if roll < latent_at then (if protected then OutcomeLost else LatentFault, g)
        else if roll < shorn_at then (Shorn, g)
        else let remaining = max (1 - shorn_at) EPSILON in
          (if (roll - shorn_at) / remaining < 1 / 2 then KeptOld else KeptNew, g))"

definition correlated_window :: "nat list \<Rightarrow> disk_config \<Rightarrow> rng \<Rightarrow> (nat \<times> nat) option \<times> rng" where
  "correlated_window dirty c g =
     (if dirty = [] \<or> dc_correlated c \<le> 0 then (None, g)
      else case next_f64 g of (x, g) \<Rightarrow>
        if x \<ge> dc_correlated c then (None, g)
        else case next_range 0 (length dirty) g of (i, g) \<Rightarrow>
          (case next_range 1 (max (dc_correlated_max_run c) 1 + 1) g of (n, g) \<Rightarrow>
             (Some (dirty ! i, dirty ! i + n), g)))"

definition in_range :: "(nat \<times> nat) option \<Rightarrow> nat \<Rightarrow> bool" where
  "in_range window s = (case window of None \<Rightarrow> False | Some (a, b) \<Rightarrow> a \<le> s \<and> s < b)"

fun crash_loop ::
  "chacha \<Rightarrow> disk_config \<Rightarrow> (nat \<Rightarrow> real) \<Rightarrow> (nat \<times> nat) option \<Rightarrow> nat list \<Rightarrow> file_image \<Rightarrow> rng \<Rightarrow>
   sector_resolution list \<times> file_image \<times> rng" where
  "crash_loop G c w window [] im g = ([], im, g)"
| "crash_loop G c w window (s # ss) im g =
     (let (outcome, g) = choose_outcome c s (bits_is_set (im_lied im) s) (in_range window s) (protected_prefix im s > 0) w g;
          (outcome, im, g) = apply_outcome G s outcome im g;
          (rs, im, g) = crash_loop G c w window ss im g
      in (\<lparr>re_sector = s, re_outcome = outcome, re_correlated = in_range window s\<rparr> # rs, im, g))"

text \<open>
  The sweep over the stamps: a stamp longer than its sector goes; a stamp that no longer matches is a lost synced
  write, which only a lie of an armed disk may cause. Anything else is the assertion of \<open>oracle_sweep\<close>.
\<close>

datatype disk_panic = SyncedSectorChanged nat

fun sweep_stamps ::
  "(bytes \<Rightarrow> u32) \<Rightarrow> nat list \<Rightarrow> bool \<Rightarrow> (nat \<times> u32 \<times> nat) list \<Rightarrow> file_image \<Rightarrow> nat list \<Rightarrow> disk_panic + (file_image \<times> nat list)" where
  "sweep_stamps crc lied armed [] im lost = Inr (im, lost)"
| "sweep_stamps crc lied armed ((s, c, n) # stamps) im lost =
     (let r = committed_bounds im s in
      if snd r - fst r < n then sweep_stamps crc lied armed stamps (im\<lparr>im_oracle := snd (om_remove s (im_oracle im))\<rparr>) lost
      else if crc (bslice (fst r) n (im_committed im)) = c then sweep_stamps crc lied armed stamps im lost
      else if armed \<and> s \<in> set lied then sweep_stamps crc lied armed stamps im (lost @ [s])
      else Inl (SyncedSectorChanged s))"

definition oracle_sweep :: "(bytes \<Rightarrow> u32) \<Rightarrow> nat list \<Rightarrow> bool \<Rightarrow> file_image \<Rightarrow> disk_panic + (file_image \<times> nat list)" where
  "oracle_sweep crc lied armed im =
     and_then (sweep_stamps crc lied armed (im_oracle im) im []) (\<lambda>(im, lost).
       Inr (im\<lparr>im_oracle := fold (\<lambda>s m. snd (om_remove s m)) lost (im_oracle im)\<rparr>, lost))"

text \<open>The durable image is what the reboot sees; then the sweep, and what it lost counts as damaged.\<close>

definition converge :: "file_image \<Rightarrow> file_image" where
  "converge im =
     (let im = im\<lparr>im_visible := im_committed im\<rparr>; im = resize_bitsets (image_sectors im) im in
      im\<lparr>im_dirty := bits_clear_all (im_dirty im), im_lied := bits_clear_all (im_lied im), im_stranded := bits_clear_all (im_stranded im)\<rparr>)"

definition reboot :: "(bytes \<Rightarrow> u32) \<Rightarrow> nat list \<Rightarrow> bool \<Rightarrow> crash_report \<Rightarrow> file_image \<Rightarrow> disk_panic + (file_image \<times> crash_report)" where
  "reboot crc lied armed report im =
     and_then (oracle_sweep crc lied armed (converge im)) (\<lambda>(im, lost).
       Inr (im\<lparr>im_damaged := fold bits_set lost (im_damaged im)\<rparr>, report\<lparr>rp_lost_synced := lost\<rparr>))"

text \<open>The unsynced length change that survives.\<close>

definition keep_length :: "chacha \<Rightarrow> file_image \<Rightarrow> file_image" where
  "keep_length G im =
     im\<lparr>im_committed := fill_extension G (length (im_committed im)) (im_fill im) (vec_resize (length (im_visible im)) (im_committed im))\<rparr>"

definition revert_length :: "file_image \<Rightarrow> file_image" where
  "revert_length im =
     (let im = im\<lparr>im_visible := take (length (im_committed im)) (im_visible im)\<rparr> in resize_bitsets (image_sectors im) im)"

definition commit_unstranded :: "nat list \<Rightarrow> file_image \<Rightarrow> file_image" where
  "commit_unstranded ss im = fold (\<lambda>s im. if bits_is_set (im_stranded im) s then im else commit_sector s im) ss im"

definition image_crash ::
  "chacha \<Rightarrow> (bytes \<Rightarrow> u32) \<Rightarrow> string \<Rightarrow> disk_config \<Rightarrow> bool \<Rightarrow> (nat \<Rightarrow> real) \<Rightarrow> file_image \<Rightarrow> rng \<Rightarrow>
   (disk_panic + (file_image \<times> crash_report)) \<times> rng" where
  "image_crash G crc path c armed w im g =
     (let (im, reverted, g) =
            (if length (im_visible im) \<noteq> length (im_committed im)
             then case next_f64 g of (x, g) \<Rightarrow> if x < dc_length_survives c then (keep_length G im, False, g) else (revert_length im, True, g)
             else (im, False, g));
          dirty = dirty_sectors im; lied = filter (bits_is_set (im_lied im)) dirty;
          (x, g) = next_f64 g;
          (clean, rs, im, g) =
            (if x < dc_clean_crash c then (True, [], commit_unstranded dirty im, g)
             else case correlated_window dirty c g of (window, g) \<Rightarrow>
               (case crash_loop G c w window dirty im g of (rs, im, g) \<Rightarrow> (False, rs, im, g)))
      in (reboot crc lied armed
            \<lparr>rp_path = path, rp_clean = clean, rp_resolutions = rs, rp_length_reverted = reverted, rp_lost_synced = []\<rparr> im, g))"

definition keep_cache ::
  "chacha \<Rightarrow> (bytes \<Rightarrow> u32) \<Rightarrow> string \<Rightarrow> bool \<Rightarrow> file_image \<Rightarrow> disk_panic + (file_image \<times> crash_report)" where
  "keep_cache G crc path armed im =
     (let im = (if length (im_visible im) \<noteq> length (im_committed im) then keep_length G im else im);
          dirty = dirty_sectors im; lied = filter (bits_is_set (im_lied im)) dirty in
      reboot crc lied armed
        \<lparr>rp_path = path, rp_clean = True, rp_resolutions = [], rp_length_reverted = False, rp_lost_synced = []\<rparr> (commit_unstranded dirty im))"

section \<open>Targeted faults\<close>

definition image_corrupt :: "nat \<Rightarrow> nat \<Rightarrow> file_image \<Rightarrow> file_image" where
  "image_corrupt lo hi im = im\<lparr>im_faults := fold bits_set [lo..<hi] (im_faults im)\<rparr>"

definition mark_damaged :: "nat \<Rightarrow> nat \<Rightarrow> file_image \<Rightarrow> file_image" where
  "mark_damaged lo hi im = im\<lparr>im_damaged := fold bits_set [lo..<hi] (im_damaged im)\<rparr>"

definition damaged_sectors :: "file_image \<Rightarrow> nat list" where
  "damaged_sectors im = filter (bits_is_set (im_damaged im)) [0..<sb_len (im_damaged im)]"

definition has_damage :: "file_image \<Rightarrow> bool" where
  "has_damage im = bits_any_in 0 (sb_len (im_damaged im)) (im_damaged im)"

definition is_corrupt :: "file_image \<Rightarrow> nat \<Rightarrow> bool" where
  "is_corrupt im s = bits_is_set (im_faults im) s"

definition fail_with_eio :: "nat \<Rightarrow> nat \<Rightarrow> eio_target \<Rightarrow> file_image \<Rightarrow> file_image" where
  "fail_with_eio lo hi t im =
     im\<lparr>im_eio_read := (if t \<noteq> EioWrite then fold bits_set [lo..<hi] (im_eio_read im) else im_eio_read im),
       im_eio_write := (if t \<noteq> EioRead then fold bits_set [lo..<hi] (im_eio_write im) else im_eio_write im)\<rparr>"

definition clear_eio :: "eio_target \<Rightarrow> file_image \<Rightarrow> file_image" where
  "clear_eio t im =
     im\<lparr>im_eio_read := (if t \<noteq> EioWrite then bits_clear_all (im_eio_read im) else im_eio_read im),
       im_eio_write := (if t \<noteq> EioRead then bits_clear_all (im_eio_write im) else im_eio_write im)\<rparr>"

definition corrupt_committed_out_of_band :: "nat \<Rightarrow> file_image \<Rightarrow> file_image" where
  "corrupt_committed_out_of_band s im =
     (case committed_bounds im s of (a, b) \<Rightarrow>
        if a < b then im\<lparr>im_committed := (im_committed im)[a := im_committed im ! a XOR 0xFF]\<rparr> else im)"

text \<open>The mask of an offset: the top byte of a product that wraps, made odd.\<close>

definition corrupt_mask :: "nat \<Rightarrow> u8" where
  "corrupt_mask offset = ucast (drop_bit 56 (of_nat offset * 0x9E3779B97F4A7C15 :: u64)) OR 1"

definition corrupt_byte :: "nat \<Rightarrow> file_image \<Rightarrow> file_image" where
  "corrupt_byte pos im =
     (let im = im\<lparr>im_committed := (im_committed im)[pos := im_committed im ! pos XOR corrupt_mask pos]\<rparr> in
      if pos < length (im_visible im) \<and> \<not> bits_is_set (im_dirty im) (pos div SECTOR_SIZE)
      then im\<lparr>im_visible := (im_visible im)[pos := im_visible im ! pos XOR corrupt_mask pos]\<rparr> else im)"

definition restamp :: "(bytes \<Rightarrow> u32) \<Rightarrow> nat \<Rightarrow> file_image \<Rightarrow> file_image" where
  "restamp crc s im =
     (if bits_is_set (im_dirty im) s then im
      else case om_get (im_oracle im) s of None \<Rightarrow> im
      | Some (_, stamped_len) \<Rightarrow>
        let r = committed_bounds im s; stop = min (fst r + stamped_len) (snd r) in
        im\<lparr>im_oracle := snd (om_insert s (crc (bslice (fst r) (stop - fst r) (im_committed im)), stop - fst r) (im_oracle im))\<rparr>)"

definition corrupt_bytes :: "(bytes \<Rightarrow> u32) \<Rightarrow> nat \<Rightarrow> nat \<Rightarrow> file_image \<Rightarrow> bool \<times> file_image" where
  "corrupt_bytes crc lo hi im =
     (if hi > length (im_committed im) then (False, im)
      else let im = fold corrupt_byte [lo..<hi] im in
        if lo \<ge> hi then (True, im)
        else (True, fold (restamp crc) [lo div SECTOR_SIZE..<(hi - 1) div SECTOR_SIZE + 1] im))"

end
