(* ===== verification/Disk_Invariant.thy ===== *)
theory Disk_Invariant
  imports Disk_Image
begin

text \<open>
  The invariant of the simulated disk's image: \<open>image_ok\<close> says what the sets of sectors and every stamp of the oracle
  stand for. Writes, resizes, syncs and failed writebacks keep it.
\<close>

section \<open>Ranges of bytes\<close>

lemma bslice_eq_iff:
  "i + n \<le> length xs \<Longrightarrow> i + n \<le> length ys \<Longrightarrow> bslice i n xs = bslice i n ys \<longleftrightarrow> (\<forall>k. i \<le> k \<and> k < i + n \<longrightarrow> xs ! k = ys ! k)"
proof -
  assume len: "i + n \<le> length xs" "i + n \<le> length ys"
  have "bslice i n xs = bslice i n ys \<longleftrightarrow> (\<forall>m < n. xs ! (i + m) = ys ! (i + m))"
    using len by (auto simp: list_eq_iff_nth_eq nth_bslice)
  also have "\<dots> \<longleftrightarrow> (\<forall>k. i \<le> k \<and> k < i + n \<longrightarrow> xs ! k = ys ! k)" by (metis add_less_cancel_left le_add1 le_iff_add)
  finally show ?thesis .
qed

definition in_bounds :: "nat \<times> nat \<Rightarrow> nat \<Rightarrow> bool" where
  "in_bounds r k = (fst r \<le> k \<and> k < snd r)"

lemma clamp_bounds: "in_bounds (clamp_sector s limit) k \<longleftrightarrow> k div SECTOR_SIZE = s \<and> k < limit"
  by (auto simp: in_bounds_def clamp_sector_def SECTOR_SIZE_def Let_def)

lemma clamp_within: "fst (clamp_sector s limit) \<le> snd (clamp_sector s limit)" "snd (clamp_sector s limit) \<le> limit"
  by (auto simp: clamp_sector_def Let_def SECTOR_SIZE_def)

lemma length_copy_range [simp]: "fst r \<le> snd r \<Longrightarrow> snd r \<le> length src \<Longrightarrow> snd r \<le> length dst \<Longrightarrow> length (copy_range r src dst) = length dst"
  by (simp add: copy_range_def)

lemma nth_copy_range:
  "fst r \<le> snd r \<Longrightarrow> snd r \<le> length src \<Longrightarrow> snd r \<le> length dst \<Longrightarrow> k < length dst \<Longrightarrow>
   copy_range r src dst ! k = (if in_bounds r k then src ! k else dst ! k)"
  by (auto simp: copy_range_def nth_put_at nth_bslice in_bounds_def)

lemma length_vec_resize [simp]: "length (vec_resize n xs) = n"
  by (simp add: vec_resize_def)

lemma nth_vec_resize: "k < n \<Longrightarrow> k < length xs \<Longrightarrow> vec_resize n xs ! k = xs ! k"
  by (simp add: vec_resize_def nth_append)

lemma length_fill_sector [simp]: "length (fill_sector G f s) = SECTOR_SIZE"
  by (simp add: fill_sector_def)

lemma fill_extension_frame:
  "length (fill_extension G n f img) = length img \<and> (\<forall>k < length img. k < n \<longrightarrow> fill_extension G n f img ! k = img ! k)"
proof -
  let ?step = "\<lambda>s img. let start = max (s * SECTOR_SIZE) n; stop = min ((s + 1) * SECTOR_SIZE) (length img) in
       if start \<ge> stop then img else put_at start (bslice (start - s * SECTOR_SIZE) (stop - start) (fill_sector G f s)) img"
  have step: "length (?step s img) = length img \<and> (\<forall>k < length img. k < n \<longrightarrow> ?step s img ! k = img ! k)" for s and img :: bytes
  proof (cases "max (s * SECTOR_SIZE) n \<ge> min ((s + 1) * SECTOR_SIZE) (length img)")
    case False
    let ?a = "max (s * SECTOR_SIZE) n" and ?b = "min ((s + 1) * SECTOR_SIZE) (length img)"
    have len: "length (bslice (?a - s * SECTOR_SIZE) (?b - ?a) (fill_sector G f s)) = ?b - ?a" using False by auto
    then show ?thesis using False by (auto simp: Let_def nth_put_at)
  qed (simp add: Let_def)
  have "length (fold ?step ss img) = length img \<and> (\<forall>k < length img. k < n \<longrightarrow> fold ?step ss img ! k = img ! k)" for ss and img :: bytes
  proof (induction ss arbitrary: img)
    case (Cons s ss)
    then show ?case using step [of s img] Cons.IH [of "?step s img"] by simp
  qed simp
  then show ?thesis unfolding fill_extension_def by simp
qed

lemma in_sector: "s * SECTOR_SIZE \<le> k \<Longrightarrow> k < s * SECTOR_SIZE + n \<Longrightarrow> n \<le> SECTOR_SIZE \<Longrightarrow> k div SECTOR_SIZE = s"
  by (auto simp: SECTOR_SIZE_def)

lemma sector_below: "k < n \<Longrightarrow> k div SECTOR_SIZE < div_ceil n SECTOR_SIZE"
  by (rule div_ceil_le) (simp add: SECTOR_SIZE_def)

lemma sector_starts: "s < div_ceil n SECTOR_SIZE \<longleftrightarrow> s * SECTOR_SIZE < n"
proof -
  have "s < q + (if r = 0 then 0 else 1) \<longleftrightarrow> s * 512 < q * 512 + r" if "r < 512" for q r :: nat using that by auto
  from this [of "n mod 512" "n div 512"] show ?thesis by (simp add: div_ceil_def SECTOR_SIZE_def mult.commute)
qed

lemma sectors_mono: "n \<le> m \<Longrightarrow> div_ceil n SECTOR_SIZE \<le> div_ceil m SECTOR_SIZE"
proof (rule ccontr)
  assume le: "n \<le> m" and "\<not> div_ceil n SECTOR_SIZE \<le> div_ceil m SECTOR_SIZE"
  then have "div_ceil m SECTOR_SIZE * SECTOR_SIZE < n" using sector_starts [of "div_ceil m SECTOR_SIZE" n] by simp
  then show False using le sector_starts [of "div_ceil m SECTOR_SIZE" m] by simp
qed

lemma sector_range_mem: "s \<in> set (sector_range offset n) \<longleftrightarrow> offset div SECTOR_SIZE \<le> s \<and> s < div_ceil (offset + n) SECTOR_SIZE"
  by (simp add: sector_range_def)

lemma byte_in_range: "offset \<le> k \<Longrightarrow> k < offset + n \<Longrightarrow> k div SECTOR_SIZE \<in> set (sector_range offset n)"
  by (simp add: sector_range_mem sector_below div_le_mono)

section \<open>The invariant\<close>

abbreviation is_dirty :: "file_image \<Rightarrow> nat \<Rightarrow> bool" where "is_dirty im \<equiv> bits_is_set (im_dirty im)"
abbreviation is_lied :: "file_image \<Rightarrow> nat \<Rightarrow> bool" where "is_lied im \<equiv> bits_is_set (im_lied im)"
abbreviation is_stranded :: "file_image \<Rightarrow> nat \<Rightarrow> bool" where "is_stranded im \<equiv> bits_is_set (im_stranded im)"

text \<open>Every bitset spans the sectors of the visible image.\<close>

definition bits_of :: "nat \<Rightarrow> sector_bits \<Rightarrow> bool" where
  "bits_of n b = (bits_ok b \<and> sb_len b = n)"

definition image_wf :: "file_image \<Rightarrow> bool" where
  "image_wf im =
     (let n = image_sectors im in
      bits_of n (im_dirty im) \<and> bits_of n (im_lied im) \<and> bits_of n (im_stranded im) \<and> bits_of n (im_faults im)
      \<and> bits_of n (im_eio_read im) \<and> bits_of n (im_eio_write im) \<and> bits_of n (im_damaged im))"

text \<open>
  A stamp covers a prefix of its sector that both images hold; it is the CRC of the visible bytes there, and unless
  the sector is exempt the durable bytes are the same.
\<close>

definition stamp_ok :: "(bytes \<Rightarrow> u32) \<Rightarrow> (nat \<Rightarrow> bool) \<Rightarrow> bytes \<Rightarrow> bytes \<Rightarrow> nat \<Rightarrow> u32 \<Rightarrow> nat \<Rightarrow> bool" where
  "stamp_ok crc L com vis s c n =
     (0 < n \<and> n \<le> SECTOR_SIZE \<and> s * SECTOR_SIZE + n \<le> length vis \<and> s * SECTOR_SIZE + n \<le> length com
      \<and> crc (bslice (s * SECTOR_SIZE) n vis) = c \<and> (\<not> L s \<longrightarrow> bslice (s * SECTOR_SIZE) n com = bslice (s * SECTOR_SIZE) n vis))"

definition stamps_ok ::
  "(bytes \<Rightarrow> u32) \<Rightarrow> (nat \<Rightarrow> bool) \<Rightarrow> bytes \<Rightarrow> bytes \<Rightarrow> (nat, u32 \<times> nat) omap \<Rightarrow> bool" where
  "stamps_ok crc L com vis m = (\<forall>s c n. om_get m s = Some (c, n) \<longrightarrow> stamp_ok crc L com vis s c n)"

definition clean_ok :: "file_image \<Rightarrow> bool" where
  "clean_ok im =
     (\<forall>k < length (im_visible im). \<not> is_dirty im (k div SECTOR_SIZE) \<longrightarrow> k < length (im_committed im) \<and> im_visible im ! k = im_committed im ! k)"

definition image_ok :: "(bytes \<Rightarrow> u32) \<Rightarrow> file_image \<Rightarrow> bool" where
  "image_ok crc im =
     (image_wf im \<and> om_ok (im_oracle im) \<and> stamps_ok crc (is_lied im) (im_committed im) (im_visible im) (im_oracle im)
      \<and> (\<forall>s. is_lied im s \<longrightarrow> is_dirty im s) \<and> clean_ok im)"

lemma image_okD:
  assumes "image_ok crc im"
  shows "image_wf im" "om_ok (im_oracle im)" "stamps_ok crc (is_lied im) (im_committed im) (im_visible im) (im_oracle im)"
    "\<And>s. is_lied im s \<Longrightarrow> is_dirty im s" "clean_ok im"
  using assms unfolding image_ok_def by blast+

lemma wfD:
  assumes "image_wf im"
  shows "bits_ok (im_dirty im)" "sb_len (im_dirty im) = image_sectors im" "bits_ok (im_lied im)" "sb_len (im_lied im) = image_sectors im"
    "bits_ok (im_stranded im)" "sb_len (im_stranded im) = image_sectors im" "bits_ok (im_faults im)" "sb_len (im_faults im) = image_sectors im"
    "bits_ok (im_eio_read im)" "bits_ok (im_eio_write im)" "bits_ok (im_damaged im)"
  using assms by (simp_all add: image_wf_def bits_of_def Let_def)

lemma stampsD:
  assumes "stamps_ok crc L com vis m" "om_get m s = Some (c, n)"
  shows "n \<le> SECTOR_SIZE" "s * SECTOR_SIZE + n \<le> length vis" "s * SECTOR_SIZE + n \<le> length com" "crc (bslice (s * SECTOR_SIZE) n vis) = c"
    "\<not> L s \<Longrightarrow> bslice (s * SECTOR_SIZE) n com = bslice (s * SECTOR_SIZE) n vis" "0 < n"
  using assms unfolding stamps_ok_def stamp_ok_def by blast+

text \<open>The stamps left alone stand for the same bytes.\<close>

lemma stamps_frame:
  assumes ok: "stamps_ok crc L com vis m"
    and sub: "\<And>s c n. om_get m' s = Some (c, n) \<Longrightarrow> om_get m s = Some (c, n)"
    and len: "\<And>s c n. om_get m' s = Some (c, n) \<Longrightarrow> s * SECTOR_SIZE + n \<le> length vis' \<and> s * SECTOR_SIZE + n \<le> length com'"
    and vis: "\<And>s c n k. om_get m' s = Some (c, n) \<Longrightarrow> k div SECTOR_SIZE = s \<Longrightarrow> k < s * SECTOR_SIZE + n \<Longrightarrow> vis' ! k = vis ! k"
    and com: "\<And>s c n k. om_get m' s = Some (c, n) \<Longrightarrow> \<not> L' s \<Longrightarrow> k div SECTOR_SIZE = s \<Longrightarrow> k < s * SECTOR_SIZE + n \<Longrightarrow>
      (\<not> L s \<Longrightarrow> com ! k = vis ! k) \<Longrightarrow> com' ! k = vis' ! k"
  shows "stamps_ok crc L' com' vis' m'"
  unfolding stamps_ok_def
proof (intro allI impI)
  fix s c n assume get: "om_get m' s = Some (c, n)"
  note d = stampsD [OF ok sub [OF get]] and l = len [OF get]
  have v: "bslice (s * SECTOR_SIZE) n vis' = bslice (s * SECTOR_SIZE) n vis"
    using d(1,2) l vis [OF get] in_sector by (subst bslice_eq_iff) auto
  have "bslice (s * SECTOR_SIZE) n com' = bslice (s * SECTOR_SIZE) n vis'" if L': "\<not> L' s"
  proof -
    have "com' ! k = vis' ! k" if k: "s * SECTOR_SIZE \<le> k" "k < s * SECTOR_SIZE + n" for k
    proof (rule com [OF get L' in_sector [OF k d(1)] k(2)])
      show "com ! k = vis ! k" if "\<not> L s" using d(2,3) d(5) [OF that] k by (simp add: bslice_eq_iff)
    qed
    then show ?thesis using l by (subst bslice_eq_iff) auto
  qed
  then show "stamp_ok crc L' com' vis' s c n" using d(1,4,6) l v by (simp add: stamp_ok_def)
qed

lemma stamps_insert:
  assumes "om_ok m" "\<And>t c n. om_get m t = Some (c, n) \<Longrightarrow> t \<noteq> s \<Longrightarrow> stamp_ok crc L com vis t c n" "stamp_ok crc L com vis s c n"
  shows "stamps_ok crc L com vis (snd (om_insert s (c, n) m))"
  using assms(2,3) unfolding stamps_ok_def om.ins_get [OF assms(1)] by auto

lemma fold_removes:
  "om_ok m \<Longrightarrow> om_ok (fold (\<lambda>s m. snd (om_remove s m)) ss m) \<and>
     (\<forall>s. om_get (fold (\<lambda>s m. snd (om_remove s m)) ss m) s = (if s \<in> set ss then None else om_get m s))"
proof (induction ss arbitrary: m)
  case (Cons s ss)
  then show ?case using Cons.IH [OF om.del_ok [OF Cons.prems, of s]] om.del_get [OF Cons.prems, of s] by auto
qed simp

section \<open>Growing and shrinking\<close>

lemma resize_visible_same [simp]:
  "im_committed (resize_visible G n im) = im_committed im" "im_oracle (resize_visible G n im) = im_oracle im" "im_fill (resize_visible G n im) = im_fill im"
  by (simp_all add: resize_visible_def resize_bitsets_def Let_def)

lemma resize_visible_size [simp]: "length (im_visible (resize_visible G n im)) = n"
  using fill_extension_frame by (simp add: resize_visible_def resize_bitsets_def Let_def)

lemma resize_visible_keeps: "k < n \<Longrightarrow> k < length (im_visible im) \<Longrightarrow> im_visible (resize_visible G n im) ! k = im_visible im ! k"
  using fill_extension_frame [of G "length (im_visible im)" "im_fill im" "vec_resize n (im_visible im)"]
  by (auto simp: resize_visible_def resize_bitsets_def Let_def nth_vec_resize)

lemma resize_visible_wf: "image_wf (resize_visible G n im)"
proof -
  have sz: "image_sectors (resize_visible G n im) = div_ceil n SECTOR_SIZE" by (simp add: image_sectors_def image_size_def)
  show ?thesis unfolding image_wf_def sz Let_def
    by (simp add: resize_visible_def resize_bitsets_def Let_def bits_of_def sb.fold_ins sb.fold_del)
qed

lemma resize_visible_bits:
  "is_lied (resize_visible G n im) s \<longleftrightarrow> is_lied im s \<and> s < div_ceil n SECTOR_SIZE"
  "is_dirty (resize_visible G n im) s \<longleftrightarrow> s < div_ceil n SECTOR_SIZE \<and>
     (is_dirty im s \<or> length (im_visible im) < n \<and> length (im_visible im) div SECTOR_SIZE \<le> s)"
  by (auto simp: resize_visible_def resize_bitsets_def Let_def sb.fold_ins sector_range_mem)

lemma resize_visible_clean:
  assumes "clean_ok im" "image_wf im"
  shows "clean_ok (resize_visible G n im)"
  unfolding clean_ok_def
proof (intro allI impI)
  fix k assume k: "k < length (im_visible (resize_visible G n im))" and nd: "\<not> is_dirty (resize_visible G n im) (k div SECTOR_SIZE)"
  have kn: "k < n" "k div SECTOR_SIZE < div_ceil n SECTOR_SIZE" using k sector_below by simp_all
  then have nd: "\<not> is_dirty im (k div SECTOR_SIZE)" "\<not> (length (im_visible im) < n \<and> length (im_visible im) div SECTOR_SIZE \<le> k div SECTOR_SIZE)"
    using nd by (simp_all add: resize_visible_bits)
  have "k < length (im_visible im)"
  proof (rule ccontr)
    assume "\<not> k < length (im_visible im)"
    then have "length (im_visible im) \<le> k" by simp
    then show False using nd(2) kn(1) div_le_mono [of "length (im_visible im)" k SECTOR_SIZE] by simp
  qed
  then show "k < length (im_committed (resize_visible G n im)) \<and> im_visible (resize_visible G n im) ! k = im_committed (resize_visible G n im) ! k"
    using assms(1) nd(1) kn(1) by (simp add: clean_ok_def resize_visible_keeps)
qed

lemma image_new_ok: "image_ok crc (image_new G sz seed garbage)"
proof -
  let ?e = "\<lparr>im_committed = [], im_visible = [], im_dirty = bits_new 0, im_lied = bits_new 0, im_stranded = bits_new 0,
               im_faults = bits_new 0, im_eio_read = bits_new 0, im_eio_write = bits_new 0, im_damaged = bits_new 0,
               im_oracle = [], im_fill = \<lparr>fp_garbage = garbage, fp_seed = seed\<rparr>\<rparr>"
  let ?r = "resize_visible G sz ?e"
  have new: "image_new G sz seed garbage = ?r\<lparr>im_committed := im_visible ?r, im_dirty := bits_clear_all (im_dirty ?r)\<rparr>"
    by (simp add: image_new_def Let_def)
  have "image_wf ?r" by (rule resize_visible_wf)
  moreover have "\<not> is_lied ?r s" for s by (simp add: resize_visible_bits)
  ultimately show ?thesis unfolding new
    by (auto simp: image_ok_def image_wf_def stamps_ok_def clean_ok_def image_sectors_def image_size_def Let_def bits_of_def)
qed

text \<open>A stamp that ends where the image still reaches is untouched by a resize.\<close>

lemma resize_visible_stamps:
  assumes ok: "image_ok crc im" and fits: "\<And>s c n'. om_get m s = Some (c, n') \<Longrightarrow> om_get (im_oracle im) s = Some (c, n') \<and> s * SECTOR_SIZE + n' \<le> n"
  shows "stamps_ok crc (is_lied (resize_visible G n im)) (im_committed im) (im_visible (resize_visible G n im)) m"
proof -
  note st = image_okD(3) [OF ok]
  show ?thesis
  proof (rule stamps_frame [OF st])
    fix s c n' assume get: "om_get m s = Some (c, n')"
    note f = fits [OF get] and d = stampsD [OF st conjunct1 [OF fits [OF get]]]
    show "om_get (im_oracle im) s = Some (c, n')" using f by simp
    show "s * SECTOR_SIZE + n' \<le> length (im_visible (resize_visible G n im)) \<and> s * SECTOR_SIZE + n' \<le> length (im_committed im)" using f d by simp
    show "im_visible (resize_visible G n im) ! k = im_visible im ! k" if "k div SECTOR_SIZE = s" "k < s * SECTOR_SIZE + n'" for k
      using that f d by (intro resize_visible_keeps) simp_all
    show "im_committed im ! k = im_visible (resize_visible G n im) ! k"
      if "\<not> is_lied (resize_visible G n im) s" "k div SECTOR_SIZE = s" "k < s * SECTOR_SIZE + n'" "\<not> is_lied im s \<Longrightarrow> im_committed im ! k = im_visible im ! k" for k
    proof -
      have "k < n" "k < length (im_visible im)" using that(3) f d by simp_all
      then have "s < div_ceil n SECTOR_SIZE" using sector_below [of k n] that(2) by simp
      then show ?thesis using that(1,4) \<open>k < n\<close> \<open>k < length (im_visible im)\<close> by (simp add: resize_visible_bits resize_visible_keeps)
    qed
  qed
qed

lemma resize_visible_ok:
  assumes ok: "image_ok crc im" and n: "length (im_visible im) \<le> n"
  shows "image_ok crc (resize_visible G n im)"
proof -
  have "stamps_ok crc (is_lied (resize_visible G n im)) (im_committed im) (im_visible (resize_visible G n im)) (im_oracle im)"
    by (rule resize_visible_stamps [OF ok]) (use stampsD(2) [OF image_okD(3) [OF ok]] n in \<open>meson order_trans\<close>)
  then show ?thesis using image_okD [OF ok] resize_visible_wf [of G n im] resize_visible_clean [of im G n] by (auto simp: image_ok_def resize_visible_bits)
qed

lemma image_write_ok:
  assumes ok: "image_ok crc im"
  shows "image_ok crc (snd (image_write G offset data im))"
proof -
  let ?stop = "offset + length data" and ?ss = "sector_range offset (length data)"
  define im1 where "im1 = (if ?stop > image_size im then resize_visible G ?stop im else im)"
  have ok1: "image_ok crc im1" and len: "?stop \<le> length (im_visible im1)"
    using ok resize_visible_ok [OF ok, of ?stop G] by (auto simp: im1_def image_size_def)
  note d = image_okD [OF ok1] and w = wfD [OF image_okD(1) [OF ok1]]
  let ?im = "im1\<lparr>im_visible := put_at offset data (im_visible im1), im_damaged := fold bits_clear ?ss (im_damaged im1),
    im_dirty := fold bits_set ?ss (im_dirty im1), im_faults := fold bits_clear ?ss (im_faults im1), im_lied := fold bits_clear ?ss (im_lied im1),
    im_stranded := fold bits_clear ?ss (im_stranded im1), im_oracle := fold (\<lambda>s m. snd (om_remove s m)) ?ss (im_oracle im1)\<rparr>"
  have im: "snd (image_write G offset data im) = ?im" by (simp add: image_write_def Let_def im1_def)
  have sec: "image_sectors ?im = image_sectors im1" using len by (simp add: image_sectors_def image_size_def)
  have bits: "is_dirty ?im s \<longleftrightarrow> is_dirty im1 s \<or> s \<in> set ?ss \<and> s < image_sectors im1" "is_lied ?im s \<longleftrightarrow> is_lied im1 s \<and> s \<notin> set ?ss" for s
    using sb.fold_ins [OF w(1), of ?ss] sb.fold_del [OF w(3), of ?ss] w(2) by simp_all
  have orc: "om_ok (im_oracle ?im)" "om_get (im_oracle ?im) s = (if s \<in> set ?ss then None else om_get (im_oracle im1) s)" for s
    using fold_removes [OF d(2), of ?ss] by simp_all
  have other: "im_visible ?im ! k = im_visible im1 ! k" if "k < length (im_visible im1)" "k div SECTOR_SIZE \<notin> set ?ss" for k
    using that len byte_in_range [of offset k "length data"] by (auto simp: nth_put_at)
  have "image_wf ?im" unfolding image_wf_def sec using d(1) sb.fold_ins sb.fold_del by (simp add: image_wf_def Let_def bits_of_def)
  moreover have "stamps_ok crc (is_lied ?im) (im_committed ?im) (im_visible ?im) (im_oracle ?im)"
  proof (rule stamps_frame [OF d(3)])
    fix s c n assume get: "om_get (im_oracle ?im) s = Some (c, n)"
    then have s: "s \<notin> set ?ss" "om_get (im_oracle im1) s = Some (c, n)" unfolding orc by (auto split: if_splits)
    note st = stampsD [OF d(3) s(2)]
    show "om_get (im_oracle im1) s = Some (c, n)" by (rule s(2))
    show "s * SECTOR_SIZE + n \<le> length (im_visible ?im) \<and> s * SECTOR_SIZE + n \<le> length (im_committed ?im)" using st len by simp
    show same: "im_visible ?im ! k = im_visible im1 ! k" if "k div SECTOR_SIZE = s" "k < s * SECTOR_SIZE + n" for k
      using that s(1) st by (intro other) auto
    show "im_committed ?im ! k = im_visible ?im ! k" if "\<not> is_lied ?im s" "k div SECTOR_SIZE = s" "k < s * SECTOR_SIZE + n"
      "\<not> is_lied im1 s \<Longrightarrow> im_committed im1 ! k = im_visible im1 ! k" for k
      using that(1,4) same [OF that(2,3)] s(1) unfolding bits by simp
  qed
  moreover have "is_dirty ?im s" if "is_lied ?im s" for s using that d(4) unfolding bits by blast
  moreover have "clean_ok ?im"
    unfolding clean_ok_def
  proof (intro allI impI)
    fix k assume k: "k < length (im_visible ?im)" and nd: "\<not> is_dirty ?im (k div SECTOR_SIZE)"
    have k1: "k < length (im_visible im1)" using k len by simp
    then have "k div SECTOR_SIZE < image_sectors im1" by (simp add: image_sectors_def image_size_def sector_below)
    then have "\<not> is_dirty im1 (k div SECTOR_SIZE)" "k div SECTOR_SIZE \<notin> set ?ss" using nd unfolding bits by blast+
    then show "k < length (im_committed ?im) \<and> im_visible ?im ! k = im_committed ?im ! k"
      using d(5) k1 other [OF k1] by (simp add: clean_ok_def)
  qed
  ultimately show ?thesis unfolding im image_ok_def using orc(1) by blast
qed

lemma set_len_ok:
  assumes ok: "image_ok crc im"
  shows "image_ok crc (set_len G crc n im)"
proof (cases "n < image_size im")
  case False
  let ?r = "resize_visible G n im"
  have n: "length (im_visible im) \<le> n" using False by (simp add: image_size_def)
  then have none: "[image_sectors ?r..<image_sectors im] = []" by (simp add: image_sectors_def image_size_def sectors_mono)
  have "?r\<lparr>im_oracle := im_oracle ?r\<rparr> = ?r" by simp
  then have "set_len G crc n im = ?r" using False unfolding set_len_def Let_def none by simp
  then show ?thesis using resize_visible_ok [OF ok n] by simp
next
  case True
  let ?r = "resize_visible G n im" and ?s = "n div SECTOR_SIZE"
  note d = image_okD [OF ok]
  define m where "m = fold (\<lambda>s m. snd (om_remove s m)) [image_sectors ?r..<image_sectors im] (im_oracle im)"
  have m: "om_ok m" "om_get m s = (if s \<in> {image_sectors ?r..<image_sectors im} then None else om_get (im_oracle im) s)" for s
    using fold_removes [OF d(2), of "[image_sectors ?r..<image_sectors im]"] by (simp_all add: m_def)
  have sec: "image_sectors ?r = div_ceil n SECTOR_SIZE" by (simp add: image_sectors_def image_size_def)
  have mem: "om_get (im_oracle im) s = Some (c, k) \<and> s * SECTOR_SIZE < n" if get: "om_get m s = Some (c, k)" for s c k
  proof -
    have g: "om_get (im_oracle im) s = Some (c, k)" "\<not> (image_sectors ?r \<le> s \<and> s < image_sectors im)" using get unfolding m by (auto split: if_splits)
    have "s * SECTOR_SIZE < length (im_visible im)" using stampsD(2,6) [OF d(3) g(1)] by simp
    then have "s < image_sectors im" using sector_below [of "s * SECTOR_SIZE"] by (simp add: image_sectors_def image_size_def SECTOR_SIZE_def)
    then have "s < div_ceil n SECTOR_SIZE" using g(2) sec by auto
    then have "s * SECTOR_SIZE < n" by (simp add: sector_starts)
    then show ?thesis using g(1) by simp
  qed
  have rest: "stamp_ok crc (is_lied ?r) (im_committed im) (im_visible ?r) s c k" if get: "om_get m s = Some (c, k)" and fits: "s * SECTOR_SIZE + k \<le> n" for s c k
  proof -
    have "stamps_ok crc (is_lied ?r) (im_committed im) (im_visible ?r) [(s, c, k)]"
      by (rule resize_visible_stamps [OF ok]) (use mem [OF get] fits in \<open>auto split: if_splits\<close>)
    then show ?thesis by (simp add: stamps_ok_def)
  qed
  have low: "s * SECTOR_SIZE + k \<le> n" if get: "om_get m s = Some (c, k)" and ne: "s \<noteq> ?s" for s c k
  proof -
    have "s < ?s" using mem [OF get] ne by (auto simp: SECTOR_SIZE_def)
    moreover have "k \<le> SECTOR_SIZE" using stampsD(1) [OF d(3)] mem [OF get] by blast
    ultimately show ?thesis by (auto simp: SECTOR_SIZE_def)
  qed
  define m' where "m' = im_oracle (narrow_tail_stamp crc n (?r\<lparr>im_oracle := m\<rparr>))"
  have m': "om_ok m' \<and> stamps_ok crc (is_lied ?r) (im_committed im) (im_visible ?r) m'"
  proof (cases "om_get m ?s")
    case None
    then have "m' = m" by (simp add: m'_def narrow_tail_stamp_def Let_def)
    moreover have "s \<noteq> ?s" if "om_get m s = Some (c, k)" for s c k using that None by auto
    ultimately show ?thesis using m(1) rest low unfolding stamps_ok_def by blast
  next
    case (Some p)
    then obtain c k where p: "om_get m ?s = Some (c, k)" by (cases p) auto
    note st = stampsD [OF d(3) conjunct1 [OF mem [OF p]]]
    let ?sv = "n - ?s * SECTOR_SIZE"
    have sv: "0 < ?sv" "?s * SECTOR_SIZE + ?sv = n" using mem [OF p] by simp_all
    show ?thesis
    proof (cases "k \<le> ?sv")
      case True
      then have "m' = m" using p by (simp add: m'_def narrow_tail_stamp_def Let_def)
      moreover have "s * SECTOR_SIZE + k' \<le> n" if "om_get m s = Some (c', k')" for s c' k' using that low [OF that] p True sv by (cases "s = ?s") auto
      ultimately show ?thesis using m(1) rest unfolding stamps_ok_def by blast
    next
      case False
      then have m'_eq: "m' = snd (om_insert ?s (crc (bslice (?s * SECTOR_SIZE) ?sv (im_visible ?r)), ?sv) m)"
        using p by (simp add: m'_def narrow_tail_stamp_def Let_def)
      have lied: "is_lied ?r ?s \<longleftrightarrow> is_lied im ?s" using sector_below [of "?s * SECTOR_SIZE" n] sv(1) by (simp add: resize_visible_bits SECTOR_SIZE_def)
      have "bslice (?s * SECTOR_SIZE) ?sv (im_committed im) = bslice (?s * SECTOR_SIZE) ?sv (im_visible ?r)" if "\<not> is_lied ?r ?s"
      proof -
        have "im_committed im ! i = im_visible im ! i" if "?s * SECTOR_SIZE \<le> i" "i < ?s * SECTOR_SIZE + k" for i
          using st(5) \<open>\<not> is_lied ?r ?s\<close> lied st(2,3) that by (simp add: bslice_eq_iff)
        then have "im_committed im ! i = im_visible ?r ! i" if "?s * SECTOR_SIZE \<le> i" "i < ?s * SECTOR_SIZE + ?sv" for i
          using that False st(2) sv(2) by (simp add: resize_visible_keeps)
        then show ?thesis using False st(3) sv(2) by (subst bslice_eq_iff) auto
      qed
      then have "stamp_ok crc (is_lied ?r) (im_committed im) (im_visible ?r) ?s (crc (bslice (?s * SECTOR_SIZE) ?sv (im_visible ?r))) ?sv"
        using False st(1,3) sv by (auto simp: stamp_ok_def)
      then show ?thesis unfolding m'_eq using stamps_insert [OF m(1)] rest low om.ins_ok [OF m(1)] by blast
    qed
  qed
  have eq: "set_len G crc n im = ?r\<lparr>im_oracle := m'\<rparr>"
    using True by (auto simp: set_len_def Let_def m_def m'_def narrow_tail_stamp_def image_size_def split: option.splits)
  have "is_dirty ?r s" if "is_lied ?r s" for s using that d(4) unfolding resize_visible_bits by blast
  then show ?thesis unfolding eq using m' resize_visible_wf [of G n im] resize_visible_clean [OF d(5,1), of G n]
    by (simp add: image_ok_def image_wf_def clean_ok_def image_sectors_def image_size_def Let_def)
qed

section \<open>Syncs and failed writebacks\<close>

lemma image_ok_bits:
  assumes "image_ok crc im" "is_dirty im s"
  shows "s * SECTOR_SIZE < length (im_visible im)"
  using sb.is_len [OF assms(2)] wfD(2) [OF image_okD(1) [OF assms(1)]] by (simp add: image_sectors_def image_size_def sector_starts)

lemma visible_bounds_at:
  "s * SECTOR_SIZE < length (im_visible im) \<Longrightarrow> visible_bounds im s = (s * SECTOR_SIZE, min (s * SECTOR_SIZE + SECTOR_SIZE) (length (im_visible im)))"
  by (simp add: visible_bounds_def clamp_sector_def Let_def)

lemma sync_sector_ok:
  assumes ok: "image_ok crc im" and len: "length (im_committed im) = length (im_visible im)" and dirty: "is_dirty im s"
  shows "image_ok crc (sync_sector crc lie s im) \<and> length (im_committed (sync_sector crc lie s im)) = length (im_visible (sync_sector crc lie s im))
    \<and> im_visible (sync_sector crc lie s im) = im_visible im \<and> im_stranded (sync_sector crc lie s im) = im_stranded im
    \<and> (\<forall>t. is_dirty (sync_sector crc lie s im) t \<longleftrightarrow> is_dirty im t \<and> (lie \<or> t \<noteq> s))"
proof -
  note d = image_okD [OF ok] and w = wfD [OF image_okD(1) [OF ok]]
  let ?a = "s * SECTOR_SIZE" and ?b = "min (s * SECTOR_SIZE + SECTOR_SIZE) (length (im_visible im))"
  have in_vis: "?a < length (im_visible im)" by (rule image_ok_bits [OF ok dirty])
  note vb = visible_bounds_at [OF in_vis]
  let ?m = "snd (om_insert s (crc (bslice ?a (?b - ?a) (im_visible im)), ?b - ?a) (im_oracle im))"
  have sn: "s < sb_len (im_lied im)" using sb.is_len [OF dirty] w by simp
  have new: "stamp_ok crc L com (im_visible im) s (crc (bslice ?a (?b - ?a) (im_visible im))) (?b - ?a)"
    if "length com = length (im_visible im)" "\<not> L s \<Longrightarrow> bslice ?a (?b - ?a) com = bslice ?a (?b - ?a) (im_visible im)" for L com
    using that in_vis by (auto simp: stamp_ok_def SECTOR_SIZE_def)
  show ?thesis
  proof (cases lie)
    case True
    let ?im = "im\<lparr>im_oracle := ?m, im_lied := bits_set s (im_lied im)\<rparr>"
    have eq: "sync_sector crc lie s im = ?im" using True vb by (simp add: sync_sector_def Let_def)
    have lied: "is_lied ?im t \<longleftrightarrow> is_lied im t \<or> t = s" for t using sb.ins_is [OF w(3)] sn by simp
    have "stamps_ok crc (is_lied ?im) (im_committed im) (im_visible im) ?m"
    proof (rule stamps_insert [OF d(2)])
      fix t c n assume "om_get (im_oracle im) t = Some (c, n)" "t \<noteq> s"
      then show "stamp_ok crc (is_lied ?im) (im_committed im) (im_visible im) t c n" using d(3) lied unfolding stamps_ok_def stamp_ok_def by auto
    qed (use new len lied in blast)
    moreover have "image_wf ?im" using d(1) by (simp add: image_wf_def image_sectors_def image_size_def Let_def bits_of_def sb.ins_ok sb.ins_len)
    ultimately have "image_ok crc ?im" using d om.ins_ok [OF d(2)] dirty lied by (auto simp: image_ok_def clean_ok_def)
    then show ?thesis unfolding eq using True len by simp
  next
    case False
    let ?com = "copy_range (?a, ?b) (im_visible im) (im_committed im)"
    let ?im = "im\<lparr>im_oracle := ?m, im_committed := ?com, im_dirty := bits_clear s (im_dirty im), im_lied := bits_clear s (im_lied im)\<rparr>"
    have eq: "sync_sector crc lie s im = ?im" using False vb by (simp add: sync_sector_def Let_def)
    have lenc: "length ?com = length (im_visible im)" using len in_vis by simp
    have at_com: "?com ! k = (if k div SECTOR_SIZE = s then im_visible im ! k else im_committed im ! k)" if "k < length (im_visible im)" for k
    proof -
      have "in_bounds (?a, ?b) k \<longleftrightarrow> k div SECTOR_SIZE = s" using that in_vis by (auto simp: in_bounds_def SECTOR_SIZE_def)
      then show ?thesis using that len in_vis by (simp add: nth_copy_range)
    qed
    have lied: "is_lied ?im t \<longleftrightarrow> is_lied im t \<and> t \<noteq> s" and dy: "is_dirty ?im t \<longleftrightarrow> is_dirty im t \<and> t \<noteq> s" for t
      using sb.del_is [OF w(3)] sb.del_is [OF w(1)] by simp_all
    have "stamps_ok crc (is_lied ?im) ?com (im_visible im) ?m"
    proof (rule stamps_insert [OF d(2)])
      fix t c n assume get: "om_get (im_oracle im) t = Some (c, n)" and ne: "t \<noteq> s"
      have "stamps_ok crc (is_lied ?im) ?com (im_visible im) [(t, c, n)]"
        by (rule stamps_frame [OF d(3)])
           (use get ne stampsD [OF d(3) get] lenc at_com lied in \<open>auto split: if_splits\<close>)
      then show "stamp_ok crc (is_lied ?im) ?com (im_visible im) t c n" by (simp add: stamps_ok_def)
    next
      have "bslice ?a (?b - ?a) ?com = bslice ?a (?b - ?a) (im_visible im)"
        using lenc in_vis at_com by (subst bslice_eq_iff) (auto simp: SECTOR_SIZE_def)
      then show "stamp_ok crc (is_lied ?im) ?com (im_visible im) s (crc (bslice ?a (?b - ?a) (im_visible im))) (?b - ?a)" using new lenc by blast
    qed
    moreover have "image_wf ?im" using d(1) by (simp add: image_wf_def image_sectors_def image_size_def Let_def bits_of_def sb.del_ok sb.del_len)
    moreover have "clean_ok ?im" using d(5) dy at_com lenc by (auto simp: clean_ok_def)
    ultimately have "image_ok crc ?im" using d(4) om.ins_ok [OF d(2)] lied dy by (auto simp: image_ok_def)
    then show ?thesis unfolding eq using False lenc dy by simp
  qed
qed

lemma sync_sector_lied: "image_ok crc im \<Longrightarrow> is_lied (sync_sector crc lie s im) t \<Longrightarrow> is_lied im t \<or> lie \<and> t = s"
  using wfD(3) [OF image_okD(1)] by (cases "visible_bounds im s") (auto simp: sync_sector_def Let_def sb.ins_is sb.del_is split: if_splits)

lemma sync_loop_ok:
  "image_ok crc im \<Longrightarrow> length (im_committed im) = length (im_visible im) \<Longrightarrow> distinct ss \<Longrightarrow> \<forall>s \<in> set ss. is_dirty im s \<Longrightarrow>
   sync_loop crc c w ss im g = (lied, im', g') \<Longrightarrow>
   image_ok crc im' \<and> length (im_committed im') = length (im_visible im') \<and> im_visible im' = im_visible im \<and> im_stranded im' = im_stranded im
   \<and> (\<forall>t. is_lied im' t \<longrightarrow> is_lied im t \<or> 0 < dc_barrier_violation c)
   \<and> (\<forall>t. is_dirty im' t \<longrightarrow> is_dirty im t) \<and> (lied = [] \<longrightarrow> (\<forall>t. is_dirty im' t \<longleftrightarrow> is_dirty im t \<and> t \<notin> set ss))"
proof (induction ss arbitrary: im g lied im' g')
  case (Cons s ss)
  obtain lie g1 where lie: "(if dc_barrier_violation c > 0 then case next_f64 g of (x, g) \<Rightarrow> (x < weighted (dc_barrier_violation c) (w s), g) else (False, g)) = (lie, g1)"
    by (cases "if dc_barrier_violation c > 0 then case next_f64 g of (x, g) \<Rightarrow> (x < weighted (dc_barrier_violation c) (w s), g) else (False, g)")
  have armed: "lie \<Longrightarrow> 0 < dc_barrier_violation c" using lie by (auto split: if_splits)
  let ?im = "sync_sector crc lie s im"
  obtain lied1 where lp: "sync_loop crc c w ss ?im g1 = (lied1, im', g')" "lied = (if lie then s # lied1 else lied1)"
    using Cons.prems(5) lie by (auto split: prod.splits)
  have s: "is_dirty im s" "s \<notin> set ss" using Cons.prems(3,4) by simp_all
  note st = sync_sector_ok [OF Cons.prems(1,2) s(1), of lie]
  have rest: "\<forall>t \<in> set ss. is_dirty ?im t" using st Cons.prems(4) s(2) by auto
  have IH: "image_ok crc im' \<and> length (im_committed im') = length (im_visible im') \<and> im_visible im' = im_visible ?im \<and> im_stranded im' = im_stranded ?im
   \<and> (\<forall>t. is_lied im' t \<longrightarrow> is_lied ?im t \<or> 0 < dc_barrier_violation c)
   \<and> (\<forall>t. is_dirty im' t \<longrightarrow> is_dirty ?im t) \<and> (lied1 = [] \<longrightarrow> (\<forall>t. is_dirty im' t \<longleftrightarrow> is_dirty ?im t \<and> t \<notin> set ss))"
    by (rule Cons.IH [OF conjunct1 [OF st] conjunct1 [OF conjunct2 [OF st]] _ rest lp(1)]) (use Cons.prems(3) in simp)
  show ?case
  proof (intro conjI)
    show "\<forall>t. is_lied im' t \<longrightarrow> is_lied im t \<or> 0 < dc_barrier_violation c" using IH sync_sector_lied [OF Cons.prems(1)] armed by blast
    show "lied = [] \<longrightarrow> (\<forall>t. is_dirty im' t \<longleftrightarrow> is_dirty im t \<and> t \<notin> set (s # ss))" using IH st lp(2) by auto
  qed (use IH st in auto)
qed simp

lemma image_sync_ok:
  assumes ok: "image_ok crc im" and sy: "image_sync crc c w im g = (lied, im', g')"
  shows "image_ok crc im'" "length (im_committed im') = length (im_visible im')" "im_visible im' = im_visible im" "im_stranded im' = im_stranded im"
    "\<And>t. is_lied im' t \<Longrightarrow> is_lied im t \<or> 0 < dc_barrier_violation c"
    "\<And>t. lied = [] \<Longrightarrow> is_dirty im' t \<longleftrightarrow> is_dirty im t \<and> is_stranded im t"
proof -
  let ?im = "im\<lparr>im_committed := vec_resize (length (im_visible im)) (im_committed im)\<rparr>"
  note d = image_okD [OF ok]
  have "stamps_ok crc (is_lied ?im) (im_committed ?im) (im_visible ?im) (im_oracle ?im)"
  proof (rule stamps_frame [OF d(3)])
    fix s c n assume get: "om_get (im_oracle ?im) s = Some (c, n)"
    then have st: "s * SECTOR_SIZE + n \<le> length (im_visible im)" "s * SECTOR_SIZE + n \<le> length (im_committed im)" using stampsD(2,3) [OF d(3)] by simp_all
    then show "s * SECTOR_SIZE + n \<le> length (im_visible ?im) \<and> s * SECTOR_SIZE + n \<le> length (im_committed ?im)" by simp
    show "im_committed ?im ! k = im_visible ?im ! k" if "\<not> is_lied ?im s" "k div SECTOR_SIZE = s" "k < s * SECTOR_SIZE + n"
      "\<not> is_lied im s \<Longrightarrow> im_committed im ! k = im_visible im ! k" for k using that st by (simp add: nth_vec_resize)
  qed simp_all
  moreover have "clean_ok ?im" using d(5) by (auto simp: clean_ok_def nth_vec_resize)
  ultimately have ok1: "image_ok crc ?im" using d by (simp add: image_ok_def image_wf_def image_sectors_def image_size_def)
  have lp: "sync_loop crc c w (flushable_sectors ?im) ?im g = (lied, im', g')" using sy by (simp add: image_sync_def Let_def)
  have ss: "distinct (flushable_sectors ?im)" "\<forall>s \<in> set (flushable_sectors ?im). is_dirty ?im s" by (auto simp: flushable_sectors_def is_flushable_def)
  have len: "length (im_committed ?im) = length (im_visible ?im)" by simp
  note r = sync_loop_ok [OF ok1 len ss lp]
  show "image_ok crc im'" "length (im_committed im') = length (im_visible im')" "im_visible im' = im_visible im" "im_stranded im' = im_stranded im"
    using r by simp_all
  show "is_lied im t \<or> 0 < dc_barrier_violation c" if "is_lied im' t" for t using r that by auto
  show "is_dirty im' t \<longleftrightarrow> is_dirty im t \<and> is_stranded im t" if "lied = []" for t
  proof -
    have "is_dirty im t \<Longrightarrow> t < image_sectors ?im" using sb.is_len [of "im_dirty im" t] wfD(2) [OF d(1)] by (simp add: image_sectors_def image_size_def)
    then have "is_dirty im t \<Longrightarrow> t \<in> set (flushable_sectors ?im) \<longleftrightarrow> \<not> is_stranded im t" by (auto simp: flushable_sectors_def is_flushable_def)
    moreover have "is_dirty im' t \<longleftrightarrow> is_dirty ?im t \<and> t \<notin> set (flushable_sectors ?im)" using r that by blast
    ultimately show ?thesis by auto
  qed
qed

lemma fail_sector_ok:
  assumes ok: "image_ok crc im"
  shows "image_ok crc (fail_sector revert s im)" "\<And>t. is_lied (fail_sector revert s im) t \<longleftrightarrow> is_lied im t"
proof -
  note d = image_okD [OF ok] and w = wfD [OF image_okD(1) [OF ok]]
  let ?r = "shared_bounds im s"
  show "is_lied (fail_sector revert s im) t \<longleftrightarrow> is_lied im t" for t by (simp add: fail_sector_def Let_def)
  show "image_ok crc (fail_sector revert s im)"
  proof (cases "revert \<and> fst ?r < snd ?r \<and> ?r = visible_bounds im s \<and> \<not> is_lied im s")
    case False
    then have eq: "fail_sector revert s im = im\<lparr>im_stranded := bits_set s (im_stranded im)\<rparr>" by (auto simp: fail_sector_def Let_def)
    show ?thesis unfolding eq using ok by (simp add: image_ok_def image_wf_def clean_ok_def image_sectors_def image_size_def Let_def bits_of_def sb.ins_ok sb.ins_len)
  next
    case True
    let ?vis = "copy_range ?r (im_committed im) (im_visible im)"
    let ?im = "im\<lparr>im_visible := ?vis, im_dirty := bits_clear s (im_dirty im)\<rparr>"
    have eq: "fail_sector revert s im = ?im" using True by (auto simp: fail_sector_def Let_def)
    have r: "fst ?r \<le> snd ?r" "snd ?r \<le> length (im_visible im)" "snd ?r \<le> length (im_committed im)"
      using clamp_within [of s "min (length (im_visible im)) (length (im_committed im))"] by (simp_all add: shared_bounds_def)
    have len: "length ?vis = length (im_visible im)" using r by simp
    have bd: "in_bounds ?r k \<longleftrightarrow> k div SECTOR_SIZE = s \<and> k < length (im_visible im) \<and> k < length (im_committed im)" for k
      by (auto simp: shared_bounds_def clamp_bounds)
    have at_vis: "?vis ! k = (if in_bounds ?r k then im_committed im ! k else im_visible im ! k)" if "k < length (im_visible im)" for k
      using that r by (simp add: nth_copy_range)
    have dy: "is_dirty ?im t \<longleftrightarrow> is_dirty im t \<and> t \<noteq> s" for t using sb.del_is [OF w(1)] by simp
    have "stamps_ok crc (is_lied ?im) (im_committed ?im) (im_visible ?im) (im_oracle ?im)"
    proof (rule stamps_frame [OF d(3)])
      fix t c n assume get: "om_get (im_oracle ?im) t = Some (c, n)"
      then have get': "om_get (im_oracle im) t = Some (c, n)" by simp
      note st = stampsD [OF d(3) get']
      show "om_get (im_oracle im) t = Some (c, n)" by (rule get')
      show "t * SECTOR_SIZE + n \<le> length (im_visible ?im) \<and> t * SECTOR_SIZE + n \<le> length (im_committed ?im)" using st len by simp
      show same: "im_visible ?im ! k = im_visible im ! k" if k: "k div SECTOR_SIZE = t" "k < t * SECTOR_SIZE + n" for k
      proof (cases "t = s")
        case True': True
        have "t * SECTOR_SIZE \<le> k" using k(1) by (metis div_times_less_eq_dividend)
        then have "im_committed im ! k = im_visible im ! k" using st(2,3) st(5) True True' k(2) by (simp add: bslice_eq_iff)
        then show ?thesis using at_vis [of k] k st by simp
      next
        case False
        then show ?thesis using at_vis [of k] bd k st by simp
      qed
      show "im_committed ?im ! k = im_visible ?im ! k" if "\<not> is_lied ?im t" "k div SECTOR_SIZE = t" "k < t * SECTOR_SIZE + n"
        "\<not> is_lied im t \<Longrightarrow> im_committed im ! k = im_visible im ! k" for k
        using that same [OF that(2,3)] by simp
    qed
    moreover have "clean_ok ?im"
      unfolding clean_ok_def
    proof (intro allI impI)
      fix k assume k: "k < length (im_visible ?im)" and nd: "\<not> is_dirty ?im (k div SECTOR_SIZE)"
      have kv: "k < length (im_visible im)" using k len by simp
      have "k < length (im_committed im) \<and> (in_bounds ?r k \<or> im_visible im ! k = im_committed im ! k)"
      proof (cases "k div SECTOR_SIZE = s")
        case True': True
        have "in_bounds (visible_bounds im s) k" using kv True' by (simp add: visible_bounds_def clamp_bounds)
        then show ?thesis using True bd by metis
      next
        case False
        then show ?thesis using nd d(5) kv unfolding dy by (auto simp: clean_ok_def)
      qed
      then show "k < length (im_committed ?im) \<and> im_visible ?im ! k = im_committed ?im ! k" using at_vis [OF kv] by auto
    qed
    moreover have "image_wf ?im" using d(1) len by (simp add: image_wf_def image_sectors_def image_size_def Let_def bits_of_def sb.del_ok sb.del_len)
    ultimately show ?thesis unfolding eq image_ok_def using d(2,4) True dy by auto
  qed
qed

lemma fail_writeback_ok:
  assumes "image_ok crc im"
  shows "image_ok crc (snd (fail_writeback revert im))" "\<And>t. is_lied (snd (fail_writeback revert im)) t \<longleftrightarrow> is_lied im t"
proof -
  have "image_ok crc (fold (fail_sector revert) ss im) \<and> (\<forall>t. is_lied (fold (fail_sector revert) ss im) t \<longleftrightarrow> is_lied im t)" for ss
    using assms by (induction ss arbitrary: im) (auto simp: fail_sector_ok)
  then show "image_ok crc (snd (fail_writeback revert im))" "\<And>t. is_lied (snd (fail_writeback revert im)) t \<longleftrightarrow> is_lied im t"
    by (simp_all add: fail_writeback_def)
qed

end
