(* ===== verification/Spec2Isabelle.thy ===== *)
theory Spec2Isabelle
  imports Rpc_Frame Rpc_Credit Rpc_Registry Journal_Crash Journal_Meta Journal_Names Journal_Life Sim_Scheduler Disk_Invariant
begin

text \<open>
  A verification library for moonpool.
\<close>

end
